(* ===== verification/Prelude.thy ===== *)
theory Prelude
  imports Main "HOL-Library.Word" "HOL-Library.While_Combinator"
begin

text \<open>
  Shared vocabulary of the development: the C integer types of the 64-bit build
  (\<^verbatim>\<open>include/types.h\<close> with \<^verbatim>\<open>X64\<close>), the outcome type of kernel code, its
  sequencing combinators, the weakest-precondition calculus that the component
  proofs run on, and generic lemmas on lists and words.
\<close>

unbundle bit_operations_syntax

section \<open>C types\<close>

type_synonym byte = "8 word"
type_synonym ushort = "16 word"
type_synonym uint = "32 word"
type_synonym uintp = "64 word"
type_synonym addr = "64 word"

section \<open>Outcomes of kernel code\<close>

text \<open>
  A kernel routine runs on a state and has one of four outcomes: it returns a value
  (\<open>Ok\<close>), it calls \<^verbatim>\<open>panic\<close> (the machine stops), it gives up the processor through
  \<^verbatim>\<open>swtch\<close> (\<open>Swtch\<close>, with the state the scheduler finds), or it loops
  without end (\<open>Spin\<close>), as \<^verbatim>\<open>acquire\<close> does on a lock that another processor holds.
\<close>

datatype ('a, 's) res = Ok 'a 's | Panic string | Swtch 's | Spin

type_synonym ('a, 's) kern = "'s \<Rightarrow> ('a, 's) res"

named_theorems kdefs \<open>the sequencing combinators, to be unfolded\<close>
named_theorems wp_rules \<open>equations that push wp through a program\<close>

definition ret :: "'a \<Rightarrow> ('a, 's) kern" where
  [kdefs]: "ret a s = Ok a s"

definition bindK :: "('a, 's) kern \<Rightarrow> ('a \<Rightarrow> ('b, 's) kern) \<Rightarrow> ('b, 's) kern" where
  [kdefs]: "bindK m f s =
    (case m s of Ok a t \<Rightarrow> f a t | Panic e \<Rightarrow> Panic e | Swtch t \<Rightarrow> Swtch t | Spin \<Rightarrow> Spin)"

definition seqK :: "('a, 's) kern \<Rightarrow> ('b, 's) kern \<Rightarrow> ('b, 's) kern" where
  [kdefs]: "seqK m n = bindK m (\<lambda>_. n)"

definition panic :: "string \<Rightarrow> ('a, 's) kern" where
  [kdefs]: "panic e s = Panic e"

definition getK :: "('s \<Rightarrow> 'a) \<Rightarrow> ('a, 's) kern" where
  [kdefs]: "getK f s = Ok (f s) s"

definition modK :: "('s \<Rightarrow> 's) \<Rightarrow> (unit, 's) kern" where
  [kdefs]: "modK f s = Ok () (f s)"

definition whenK :: "bool \<Rightarrow> (unit, 's) kern \<Rightarrow> (unit, 's) kern" where
  [kdefs]: "whenK c m = (if c then m else ret ())"

fun forK :: "'i list \<Rightarrow> ('i \<Rightarrow> (unit, 's) kern) \<Rightarrow> (unit, 's) kern" where
  "forK [] f = ret ()"
| "forK (i # is) f = seqK (f i) (forK is f)"

text \<open>A \<^verbatim>\<open>for\<close> loop whose body may leave it with a value.\<close>

fun findK :: "'i list \<Rightarrow> ('i \<Rightarrow> ('a option, 's) kern) \<Rightarrow> ('a option, 's) kern" where
  "findK [] f = ret None"
| "findK (i # is) f = bindK (f i) (\<lambda>r. case r of None \<Rightarrow> findK is f | Some a \<Rightarrow> ret (Some a))"

text \<open>
  A loop with variables \<open>c\<close>: the body gives the next values of the variables (\<open>Inl\<close>) or leaves the
  loop with a value (\<open>Inr\<close>). A loop that never ends is the outcome \<open>Spin\<close>.
\<close>

definition loopK :: "('c \<Rightarrow> ('c + 'a, 's) kern) \<Rightarrow> 'c \<Rightarrow> ('a, 's) kern" where
  "loopK body c s =
    (case while_option (\<lambda>r. case r of Ok (Inl _) _ \<Rightarrow> True | _ \<Rightarrow> False)
        (\<lambda>r. case r of Ok (Inl d) t \<Rightarrow> body d t | _ \<Rightarrow> r) (Ok (Inl c) s) of
       Some (Ok (Inr a) t) \<Rightarrow> Ok a t | Some (Panic e) \<Rightarrow> Panic e | Some (Swtch t) \<Rightarrow> Swtch t | _ \<Rightarrow> Spin)"

lemma loopK_unfold:
  "loopK body c s = bindK (body c) (\<lambda>r. case r of Inl d \<Rightarrow> loopK body d | Inr a \<Rightarrow> ret a) s"
proof (cases "body c s")
  case (Ok r t)
  then show ?thesis
    by (cases r) (simp_all add: bindK_def ret_def loopK_def while_option_unfold [of _ _ "Ok (Inl c) s"] while_option_unfold [of _ _ "Ok (Inr _) t"])
qed (simp_all add: bindK_def loopK_def while_option_unfold [of _ _ "Ok (Inl c) s"] while_option_unfold [of _ _ "Panic _"]
     while_option_unfold [of _ _ "Swtch _"] while_option_unfold [of _ _ Spin])

lemma loopK_steps:
  assumes "\<And>i. i < k \<Longrightarrow> body (f i) (S i) = Ok (Inl (f (Suc i))) (S (Suc i))"
  shows "loopK body (f 0) (S 0) = loopK body (f k) (S k)"
  using assms
proof (induction k)
  case (Suc k)
  then have "loopK body (f 0) (S 0) = loopK body (f k) (S k)" by simp
  with Suc.prems [of k] show ?case by (simp add: loopK_unfold [of body "f k"] bindK_def)
qed simp

text \<open>A loop whose body always continues does not end.\<close>

lemma loopK_spins:
  assumes "I c s" and step: "\<And>d t. I d t \<Longrightarrow> \<exists>d' t'. body d t = Ok (Inl d') t' \<and> I d' t'"
  shows "loopK body c s = Spin"
proof -
  let ?b = "\<lambda>r. case r of Ok (Inl _) _ \<Rightarrow> True | _ \<Rightarrow> False" and ?c = "\<lambda>r. case r of Ok (Inl d) t \<Rightarrow> body d t | _ \<Rightarrow> r"
  let ?P = "\<lambda>r. \<exists>d t. r = Ok (Inl d) t \<and> I d t"
  have "while_option ?b ?c (Ok (Inl c) s) = None"
  proof (rule ccontr)
    assume "while_option ?b ?c (Ok (Inl c) s) \<noteq> None"
    then obtain r where r: "while_option ?b ?c (Ok (Inl c) s) = Some r" by auto
    have "?P (?c r)" if "?P r" for r
    proof -
      from that obtain d t where "r = Ok (Inl d) t" "I d t" by blast
      with step [of d t] show ?thesis by auto
    qed
    then have "?P r" by (rule while_option_rule [where P = ?P, OF _ r]) (auto simp: assms(1))
    with while_option_stop [OF r] show False by auto
  qed
  then show ?thesis by (simp add: loopK_def)
qed

text \<open>Steps of a run that cannot fail.\<close>

lemma run_steps:
  "bindK (getK f) g s = g (f s) s" "seqK (modK h) m s = m (h s)" "bindK (ret a) g s = g a s"
  "seqK (ret a) m s = m s" "seqK (whenK c n) m s = (if c then seqK n m s else m s)"
  by (simp_all add: kdefs)

lemma run_Ok: "m s = Ok a t \<Longrightarrow> bindK m g s = g a t" "m s = Ok a t \<Longrightarrow> seqK m n s = n t"
  by (simp_all add: kdefs)

section \<open>Weakest preconditions\<close>

text \<open>
  \<open>wp m Q s\<close>: run from \<open>s\<close>, the routine returns and its value and state satisfy \<open>Q\<close>.
  It excludes panic, switching away and spinning, so it is a statement of total
  correctness. \<open>wlp m Q s\<close> allows those outcomes.
\<close>

definition wp :: "('a, 's) kern \<Rightarrow> ('a \<Rightarrow> 's \<Rightarrow> bool) \<Rightarrow> 's \<Rightarrow> bool" where
  "wp m Q s = (case m s of Ok a t \<Rightarrow> Q a t | _ \<Rightarrow> False)"

definition wlp :: "('a, 's) kern \<Rightarrow> ('a \<Rightarrow> 's \<Rightarrow> bool) \<Rightarrow> 's \<Rightarrow> bool" where
  "wlp m Q s = (case m s of Ok a t \<Rightarrow> Q a t | _ \<Rightarrow> True)"

lemma wp_ret [wp_rules]: "wp (ret a) Q s = Q a s"
  by (simp add: wp_def ret_def)

lemma wp_bindK [wp_rules]: "wp (bindK m f) Q s = wp m (\<lambda>a t. wp (f a) Q t) s"
  by (simp add: wp_def bindK_def split: res.splits)

lemma wp_seqK [wp_rules]: "wp (seqK m n) Q s = wp m (\<lambda>a t. wp n Q t) s"
  by (simp add: seqK_def wp_bindK)

lemma wp_panic [wp_rules]: "wp (panic e) Q s = False"
  by (simp add: wp_def panic_def)

lemma wp_getK [wp_rules]: "wp (getK f) Q s = Q (f s) s"
  by (simp add: wp_def getK_def)

lemma wp_modK [wp_rules]: "wp (modK f) Q s = Q () (f s)"
  by (simp add: wp_def modK_def)

lemma wp_if [wp_rules]: "wp (if c then m else n) Q s = (if c then wp m Q s else wp n Q s)"
  by simp

lemma wp_whenK [wp_rules]: "wp (whenK c m) Q s = (if c then wp m Q s else Q () s)"
  by (simp add: whenK_def wp_ret)

lemma wp_mono: "wp m P s \<Longrightarrow> (\<And>a t. P a t \<Longrightarrow> Q a t) \<Longrightarrow> wp m Q s"
  by (auto simp: wp_def split: res.splits)

lemma wp_returns: "wp m Q s = (\<exists>a t. m s = Ok a t \<and> Q a t)"
  by (auto simp: wp_def split: res.splits)

lemma wp_OkD: "wp m Q s \<Longrightarrow> m s = Ok a t \<Longrightarrow> Q a t"
  by (simp add: wp_def)

lemma wp_conj: "wp m P s \<Longrightarrow> wp m Q s \<Longrightarrow> wp m (\<lambda>a t. P a t \<and> Q a t) s"
  by (auto simp: wp_def split: res.splits)

text \<open>The rule for a counted loop: an invariant indexed by the iterations left to do.\<close>

lemma wp_forK:
  assumes step: "\<And>i js t. I (i # js) t \<Longrightarrow> wp (f i) (\<lambda>_ u. I js u) t"
    and start: "I is s"
  shows "wp (forK is f) (\<lambda>_ t. I [] t) s"
  using start
proof (induction "is" arbitrary: s)
  case Nil
  then show ?case by (simp add: wp_ret)
next
  case (Cons i js)
  from step [OF Cons.prems] have "wp (f i) (\<lambda>_ u. wp (forK js f) (\<lambda>_ t. I [] t) u) s"
    by (rule wp_mono) (rule Cons.IH)
  then show ?case by (simp add: wp_seqK)
qed

text \<open>The rule for \<open>loopK\<close>: an invariant and a measure that decreases.\<close>

lemma wp_loopK:
  fixes m :: "'c \<Rightarrow> 's \<Rightarrow> nat"
  assumes start: "I c s"
    and step: "\<And>d t. I d t \<Longrightarrow> wp (body d) (\<lambda>r u. case r of Inl d' \<Rightarrow> I d' u \<and> m d' u < m d t | Inr a \<Rightarrow> Q a u) t"
  shows "wp (loopK body c) Q s"
  using start
proof (induction "m c s" arbitrary: c s rule: less_induct)
  case less
  from step [OF less.prems] obtain r u where r: "body c s = Ok r u"
    and q: "case r of Inl d' \<Rightarrow> I d' u \<and> m d' u < m c s | Inr a \<Rightarrow> Q a u" by (auto simp: wp_returns)
  show ?case
  proof (cases r)
    case (Inl d)
    with q have "wp (loopK body d) Q u" by (intro less.hyps) simp_all
    with r Inl show ?thesis by (simp add: wp_def loopK_unfold [of body c] bindK_def)
  next
    case (Inr a)
    with r q show ?thesis by (simp add: wp_def loopK_unfold [of body c] bindK_def ret_def)
  qed
qed

text \<open>A search: the turns before the hit find nothing and keep the invariant.\<close>

lemma wp_findK:
  assumes "I s" and miss: "\<And>x t. x \<in> set xs \<Longrightarrow> I t \<Longrightarrow> wp (f x) (\<lambda>r u. r = None \<and> I u) t"
    and hit: "\<And>t. I t \<Longrightarrow> wp (f x) (\<lambda>r u. \<exists>a. r = Some a \<and> Q (Some a) u) t"
  shows "wp (findK (xs @ x # ys) f) Q s"
  using assms(1) miss
proof (induction xs arbitrary: s)
  case Nil
  from hit [OF Nil(1)] show ?case by (auto simp: wp_bindK wp_ret elim!: wp_mono)
next
  case (Cons y xs)
  have "wp (f y) (\<lambda>r u. r = None \<and> I u) s" using Cons.prems by simp
  then show ?case using Cons.IH Cons.prems(2) by (auto simp: wp_bindK elim!: wp_mono)
qed

lemma wp_findK_none:
  assumes "I s" and miss: "\<And>x t. x \<in> set xs \<Longrightarrow> I t \<Longrightarrow> wp (f x) (\<lambda>r u. r = None \<and> I u) t"
    and "\<And>t. I t \<Longrightarrow> Q None t"
  shows "wp (findK xs f) Q s"
  using assms(1,2)
proof (induction xs arbitrary: s)
  case (Cons y xs)
  have "wp (f y) (\<lambda>r u. r = None \<and> I u) s" using Cons.prems by simp
  then show ?case using Cons.IH Cons.prems(2) by (auto simp: wp_bindK elim!: wp_mono)
qed (simp add: wp_ret assms(3))

lemma forK_append: "forK (xs @ ys) f s = seqK (forK xs f) (forK ys f) s"
  by (induction xs arbitrary: s) (auto simp: kdefs split: res.splits)

section \<open>Lists\<close>

lemma find_SomeD: "find P xs = Some x \<Longrightarrow> x \<in> set xs \<and> P x"
  by (auto simp: find_Some_iff)

section \<open>Machine words\<close>

lemma unat_of_nat_small: "n < 2 ^ LENGTH('a) \<Longrightarrow> unat (of_nat n :: 'a::len word) = n"
  by (simp add: unsigned_of_nat take_bit_nat_eq_self)

lemma unat_lt_exp: "unat (w :: 'a::len word) < 2 ^ LENGTH('a)"
  by (rule unsigned_less [where 'a = nat])

lemma unat_ucast_up:
  "LENGTH('a) \<le> LENGTH('b) \<Longrightarrow> unat (ucast (w :: 'a::len word) :: 'b::len word) = unat w"
proof -
  assume "LENGTH('a) \<le> LENGTH('b)"
  then have "(2 :: nat) ^ LENGTH('a) \<le> 2 ^ LENGTH('b)" by simp
  with unat_lt_exp [of w] have "unat w < 2 ^ LENGTH('b)" by linarith
  then show ?thesis by (simp add: unsigned_ucast_eq take_bit_nat_eq_self)
qed

lemma sint32: "sint (w :: uint) = (if uint w < 2 ^ 31 then uint w else uint w - 2 ^ 32)"
proof -
  have b: "0 \<le> uint w" "uint w < 2 ^ 32" using uint_lt2p [of w] by simp_all
  have s: "sint w = (uint w + 2 ^ 31) mod 2 ^ 32 - 2 ^ 31"
    by (simp add: sint_uint signed_take_bit_eq_take_bit_shift take_bit_eq_mod)
  show ?thesis
  proof (cases "uint w < 2 ^ 31")
    case True
    with b s show ?thesis by simp
  next
    case False
    have "uint w + 2 ^ 31 = (uint w - 2 ^ 31) + 2 ^ 32" by simp
    then have "(uint w + 2 ^ 31) mod 2 ^ 32 = (uint w - 2 ^ 31) mod 2 ^ 32" by (simp only: mod_add_self2)
    with False b s show ?thesis by simp
  qed
qed

lemma unat_neg32: "sint (w :: uint) < 0 \<Longrightarrow> int (unat (- w)) = - sint w"
proof -
  assume "sint w < 0"
  then have n: "2 ^ 31 \<le> uint w" "sint w = uint w - 2 ^ 32" by (auto simp: sint32 split: if_splits)
  have "uint (- w) = (- uint w) mod 2 ^ 32" by (simp add: uint_word_ariths)
  also have "\<dots> = (2 ^ 32 - uint w) mod 2 ^ 32" by simp
  also have "\<dots> = 2 ^ 32 - uint w" using n(1) uint_lt2p [of w] by (intro mod_pos_pos_trivial) simp_all
  finally show ?thesis using n(2) by simp
qed

text \<open>A free-running 32-bit index into a ring buffer whose size divides \<open>2 ^ 32\<close>.\<close>

lemma ring_idx:
  assumes "N dvd 2 ^ 32"
  shows "unat ((r :: uint) + of_nat k) mod N = (unat r + k) mod N"
proof -
  have "unat (r + of_nat k) = (unat r + k) mod 2 ^ 32" by (simp add: unat_word_ariths unat_of_nat mod_simps)
  then have "unat (r + of_nat k) mod N = (unat r + k) mod 2 ^ 32 mod N" by (rule arg_cong)
  also have "\<dots> = (unat r + k) mod N" using assms by (rule mod_mod_cancel)
  finally show ?thesis .
qed

lemma ring_inj: "j < k \<Longrightarrow> k < j + N \<Longrightarrow> (a + j) mod N \<noteq> (a + k) mod (N :: nat)"
proof
  assume lt: "j < k" "k < j + N" and "(a + j) mod N = (a + k) mod N"
  then have "N dvd (a + k) - (a + j)" by (intro mod_eq_dvd_iff_nat [THEN iffD1]) simp_all
  with lt show False by (auto dest: dvd_imp_le)
qed

lemma unat_sub_off:
  fixes a c x :: "'a::len word"
  assumes "unat x \<le> unat (a - c)"
  shows "unat (a - (c + x)) = unat (a - c) - unat x"
proof -
  have "a - (c + x) = (a - c) - x" by simp
  then show ?thesis using unat_sub [of x "a - c"] assms by (simp only: word_le_nat_alt)
qed

lemma lt16_bit:
  assumes "(w :: uint) < 2 ^ 16" and "bit w n"
  shows "n < 16"
proof -
  have "take_bit 16 (unat w) = unat w" using assms(1) by (intro take_bit_nat_eq_self) (simp add: word_less_nat_alt)
  moreover have "bit (unat w) n" using assms(2) by (simp add: bit_unsigned_iff)
  ultimately show ?thesis by (metis bit_take_bit_iff)
qed

end
