(* ===== verification/Cstring.thy ===== *)
theory Cstring
  imports Prelude
begin

text \<open>
  Byte-addressed memory and the routines of \<^verbatim>\<open>kernel/string.c\<close> over it. Addresses are
  64-bit words and wrap; an object of \<open>n\<close> bytes at \<open>a\<close> occupies \<open>a, a + 1, \<dots>\<close>. The
  lemmas show the effect of each routine on every byte of memory, overlapping
  \<^verbatim>\<open>memmove\<close> and both code paths of \<^verbatim>\<open>memset\<close> included.
\<close>

type_synonym mem = "addr \<Rightarrow> byte"

section \<open>Reading and writing objects\<close>

definition bytes_at :: "mem \<Rightarrow> addr \<Rightarrow> nat \<Rightarrow> byte list" where
  "bytes_at m a n = map (\<lambda>i. m (a + of_nat i)) [0..<n]"

fun write_bytes :: "mem \<Rightarrow> addr \<Rightarrow> byte list \<Rightarrow> mem" where
  "write_bytes m a [] = m"
| "write_bytes m a (b # bs) = write_bytes (m(a := b)) (a + 1) bs"

definition bytes32 :: "uint \<Rightarrow> byte list" where
  "bytes32 w = [ucast w, ucast (drop_bit 8 w), ucast (drop_bit 16 w), ucast (drop_bit 24 w)]"

definition bytes64 :: "uintp \<Rightarrow> byte list" where
  "bytes64 w = map (\<lambda>i. ucast (drop_bit (8 * i) w)) [0..<8]"

fun word_of_bytes :: "byte list \<Rightarrow> 'a::len word" where
  "word_of_bytes [] = 0"
| "word_of_bytes (b # bs) = ucast b OR push_bit 8 (word_of_bytes bs)"

definition load32 :: "mem \<Rightarrow> addr \<Rightarrow> uint" where
  "load32 m a = word_of_bytes (bytes_at m a 4)"

definition store32 :: "mem \<Rightarrow> addr \<Rightarrow> uint \<Rightarrow> mem" where
  "store32 m a w = write_bytes m a (bytes32 w)"

definition load64 :: "mem \<Rightarrow> addr \<Rightarrow> uintp" where
  "load64 m a = word_of_bytes (bytes_at m a 8)"

definition store64 :: "mem \<Rightarrow> addr \<Rightarrow> uintp \<Rightarrow> mem" where
  "store64 m a w = write_bytes m a (bytes64 w)"

section \<open>kernel/string.c\<close>

text \<open>\<^verbatim>\<open>stosb\<close> and \<^verbatim>\<open>stosl\<close> of \<^verbatim>\<open>include/x86.h\<close>: \<^verbatim>\<open>rep stos\<close> with the direction flag clear.\<close>

fun stosb :: "mem \<Rightarrow> addr \<Rightarrow> byte \<Rightarrow> nat \<Rightarrow> mem" where
  "stosb m a b 0 = m"
| "stosb m a b (Suc n) = stosb (m(a := b)) (a + 1) b n"

fun stosl :: "mem \<Rightarrow> addr \<Rightarrow> uint \<Rightarrow> nat \<Rightarrow> mem" where
  "stosl m a w 0 = m"
| "stosl m a w (Suc n) = stosl (store32 m a w) (a + 4) w n"

definition memset :: "mem \<Rightarrow> addr \<Rightarrow> uint \<Rightarrow> uint \<Rightarrow> mem" where
  "memset m dst c n =
    (if dst mod 4 = 0 \<and> n mod 4 = 0 then
       let c = c AND 0xFF in
       stosl m dst (push_bit 24 c OR push_bit 16 c OR push_bit 8 c OR c) (unat (n div 4))
     else stosb m dst (ucast c) (unat n))"

fun memcmp_loop :: "mem \<Rightarrow> addr \<Rightarrow> addr \<Rightarrow> nat \<Rightarrow> int" where
  "memcmp_loop m s1 s2 0 = 0"
| "memcmp_loop m s1 s2 (Suc n) =
    (if m s1 \<noteq> m s2 then uint (m s1) - uint (m s2) else memcmp_loop m (s1 + 1) (s2 + 1) n)"

definition memcmp :: "mem \<Rightarrow> addr \<Rightarrow> addr \<Rightarrow> uint \<Rightarrow> int" where
  "memcmp m v1 v2 n = memcmp_loop m v1 v2 (unat n)"

fun copy_up :: "mem \<Rightarrow> addr \<Rightarrow> addr \<Rightarrow> nat \<Rightarrow> mem" where
  "copy_up m d s 0 = m"
| "copy_up m d s (Suc n) = copy_up (m(d := m s)) (d + 1) (s + 1) n"

fun copy_down :: "mem \<Rightarrow> addr \<Rightarrow> addr \<Rightarrow> nat \<Rightarrow> mem" where
  "copy_down m d s 0 = m"
| "copy_down m d s (Suc n) = copy_down (m(d - 1 := m (s - 1))) (d - 1) (s - 1) n"

definition memmove :: "mem \<Rightarrow> addr \<Rightarrow> addr \<Rightarrow> uint \<Rightarrow> mem" where
  "memmove m dst src n =
    (if src < dst \<and> src + ucast n > dst
     then copy_down m (dst + ucast n) (src + ucast n) (unat n)
     else copy_up m dst src (unat n))"

definition memcpy :: "mem \<Rightarrow> addr \<Rightarrow> addr \<Rightarrow> uint \<Rightarrow> mem" where
  "memcpy m dst src n = memmove m dst src n"

fun strncmp_loop :: "mem \<Rightarrow> addr \<Rightarrow> addr \<Rightarrow> nat \<Rightarrow> int" where
  "strncmp_loop m p q 0 = 0"
| "strncmp_loop m p q (Suc n) =
    (if m p \<noteq> 0 \<and> m p = m q then strncmp_loop m (p + 1) (q + 1) n
     else uint (m p) - uint (m q))"

definition strncmp :: "mem \<Rightarrow> addr \<Rightarrow> addr \<Rightarrow> uint \<Rightarrow> int" where
  "strncmp m p q n = strncmp_loop m p q (unat n)"

text \<open>The two loops of \<^verbatim>\<open>strncpy\<close>: copy up to and including the NUL, then pad with zeros.\<close>

fun strncpy_loop :: "mem \<Rightarrow> addr \<Rightarrow> addr \<Rightarrow> nat \<Rightarrow> mem" where
  "strncpy_loop m s t 0 = m"
| "strncpy_loop m s t (Suc n) =
    (let m' = m(s := m t) in
     if m t \<noteq> 0 then strncpy_loop m' (s + 1) (t + 1) n else stosb m' (s + 1) 0 n)"

definition strncpy :: "mem \<Rightarrow> addr \<Rightarrow> addr \<Rightarrow> int \<Rightarrow> mem" where
  "strncpy m s t n = strncpy_loop m s t (nat n)"

text \<open>\<^verbatim>\<open>safestrcpy\<close>: the pre-decremented counter leaves room for the final NUL.\<close>

fun safestrcpy_loop :: "mem \<Rightarrow> addr \<Rightarrow> addr \<Rightarrow> nat \<Rightarrow> mem \<times> addr" where
  "safestrcpy_loop m s t 0 = (m, s)"
| "safestrcpy_loop m s t (Suc n) =
    (let m' = m(s := m t) in
     if m t \<noteq> 0 then safestrcpy_loop m' (s + 1) (t + 1) n else (m', s + 1))"

definition safestrcpy :: "mem \<Rightarrow> addr \<Rightarrow> addr \<Rightarrow> int \<Rightarrow> mem" where
  "safestrcpy m s t n =
    (if n \<le> 0 then m else case safestrcpy_loop m s t (nat (n - 1)) of (m', s') \<Rightarrow> m'(s' := 0))"

partial_function (option) strlen_loop :: "mem \<Rightarrow> addr \<Rightarrow> nat \<Rightarrow> nat option" where
  "strlen_loop m s n =
    (if m (s + of_nat n) = 0 then Some n else strlen_loop m s (Suc n))"

definition strlen :: "mem \<Rightarrow> addr \<Rightarrow> nat option" where
  "strlen m s = strlen_loop m s 0"

section \<open>Effect on every byte\<close>

lemma bytes_at_Suc: "bytes_at m a (Suc n) = m a # bytes_at m (a + 1) n"
  unfolding bytes_at_def by (simp only: upt_conv_Cons_Cons [symmetric] map_upt_Suc) (simp add: algebra_simps)

lemma bytes_at_0 [simp]: "bytes_at m a 0 = []"
  by (simp add: bytes_at_def)

lemma length_bytes_at [simp]: "length (bytes_at m a n) = n"
  by (simp add: bytes_at_def)

lemma nth_bytes_at [simp]: "i < n \<Longrightarrow> bytes_at m a n ! i = m (a + of_nat i)"
  by (simp add: bytes_at_def)

lemma unat_offset_Suc: "(x :: addr) \<noteq> a \<Longrightarrow> unat (x - (a + 1)) = unat (x - a) - 1"
  using unat_minus_one [of "x - a"] by (simp add: diff_diff_eq)

lemma unat_offset_pos: "(x :: addr) \<noteq> a \<Longrightarrow> 0 < unat (x - a)"
  by (simp add: unat_gt_0)

lemma unat_minus1_addr [simp]: "unat (- 1 :: addr) = 2 ^ 64 - 1"
  by (simp add: unsigned_minus_1_eq_mask mask_eq_exp_minus_1)

lemma stosb_at:
  "n \<le> 2 ^ 64 \<Longrightarrow> stosb m a b n x = (if unat (x - a) < n then b else m x)"
proof (induction n arbitrary: m a)
  case 0
  then show ?case by simp
next
  case (Suc n)
  show ?case
  proof (cases "x = a")
    case True
    with Suc show ?thesis by simp
  next
    case False
    then have "unat (x - (a + 1)) = unat (x - a) - 1" "0 < unat (x - a)"
      by (rule unat_offset_Suc, rule unat_offset_pos)
    with Suc False show ?thesis by auto
  qed
qed

lemma write_bytes_at:
  "length bs \<le> 2 ^ 64 \<Longrightarrow>
   write_bytes m a bs x = (if unat (x - a) < length bs then bs ! unat (x - a) else m x)"
proof (induction bs arbitrary: m a)
  case Nil
  then show ?case by simp
next
  case (Cons b bs)
  show ?case
  proof (cases "x = a")
    case True
    with Cons show ?thesis by simp
  next
    case False
    then have "unat (x - (a + 1)) = unat (x - a) - 1" "0 < unat (x - a)"
      by (rule unat_offset_Suc, rule unat_offset_pos)
    with Cons False show ?thesis by (auto simp: nth_Cons')
  qed
qed

lemma stosb_add: "stosb (stosb m a b i) (a + of_nat i) b j = stosb m a b (i + j)"
proof (induction i arbitrary: m a)
  case (Suc i)
  have "a + of_nat (Suc i) = (a + 1) + of_nat i" by simp
  with Suc.IH [of "m(a := b)" "a + 1"] show ?case by (simp only: stosb.simps add_Suc)
qed simp

lemma and_0xFF: "c AND 0xFF = take_bit 8 (c :: uint)"
  by (simp add: take_bit_eq_mask mask_eq_exp_minus_1)

lemma store32_rep:
  fixes c :: uint
  shows "store32 m a (push_bit 24 (c AND 0xFF) OR push_bit 16 (c AND 0xFF)
           OR push_bit 8 (c AND 0xFF) OR c AND 0xFF) = stosb m a (ucast c) 4"
proof -
  have "bytes32 (push_bit 24 (c AND 0xFF) OR push_bit 16 (c AND 0xFF)
           OR push_bit 8 (c AND 0xFF) OR c AND 0xFF) = [ucast c, ucast c, ucast c, ucast c]"
    unfolding and_0xFF by (auto simp: bytes32_def bit_simps intro!: bit_word_eqI)
  moreover have "stosb m a b 4 = write_bytes m a [b, b, b, b]" for b
    by (simp add: eval_nat_numeral)
  ultimately show ?thesis by (simp add: store32_def)
qed

lemma stosl_rep:
  fixes c :: uint
  shows "stosl m a (push_bit 24 (c AND 0xFF) OR push_bit 16 (c AND 0xFF)
           OR push_bit 8 (c AND 0xFF) OR c AND 0xFF) n = stosb m a (ucast c) (4 * n)"
proof (induction n arbitrary: m a)
  case (Suc n)
  have "stosb (stosb m a (ucast c) 4) (a + 4) (ucast c) (4 * n) = stosb m a (ucast c) (4 + 4 * n)"
    using stosb_add [of m a "ucast c" 4 "4 * n"] by simp
  with Suc show ?case by (simp only: stosl.simps store32_rep mult_Suc_right)
qed simp

lemma offset_shift: "x - (d + 1) + (s + 1) = x - d + (s :: addr)"
  by simp

lemma copy_up_at:
  "\<not> (0 < unat (d - s) \<and> unat (d - s) < n) \<Longrightarrow> n \<le> 2 ^ 64 \<Longrightarrow>
   copy_up m d s n x = (if unat (x - d) < n then m (x - d + s) else m x)"
proof (induction n arbitrary: m d s)
  case 0
  then show ?case by simp
next
  case (Suc n)
  have shift: "(d + 1) - (s + 1) = d - s" by simp
  have "\<not> (0 < unat ((d + 1) - (s + 1)) \<and> unat ((d + 1) - (s + 1)) < n)"
    using Suc.prems(1) unfolding shift by linarith
  from Suc.IH [OF this, of "m(d := m s)"] Suc.prems(2)
  have IH: "copy_up (m(d := m s)) (d + 1) (s + 1) n x =
      (if unat (x - (d + 1)) < n then (m(d := m s)) (x - d + s) else (m(d := m s)) x)"
    unfolding offset_shift by linarith
  show ?case
  proof (cases "x = d")
    case True
    with IH Suc.prems show ?thesis by simp
  next
    case False
    have self: "x - d + s = d \<Longrightarrow> x - d = d - s" by (simp add: algebra_simps)
    from False have "unat (x - (d + 1)) = unat (x - d) - 1" "0 < unat (x - d)"
      by (rule unat_offset_Suc, rule unat_offset_pos)
    with IH Suc.prems False self show ?thesis by auto
  qed
qed

lemma copy_down_at:
  "\<not> (0 < unat (s - d) \<and> unat (s - d) < n) \<Longrightarrow> n \<le> 2 ^ 64 \<Longrightarrow>
   copy_down m (d + of_nat n) (s + of_nat n) n x = (if unat (x - d) < n then m (x - d + s) else m x)"
proof (induction n arbitrary: m)
  case 0
  then show ?case by simp
next
  case (Suc n)
  let ?m = "m(d + of_nat n := m (s + of_nat n))"
  have ends: "d + of_nat (Suc n) - 1 = d + of_nat n" "s + of_nat (Suc n) - 1 = s + of_nat n"
    by simp_all
  have n: "unat (of_nat n :: addr) = n"
    using Suc.prems(2) by (intro unat_of_nat_small) simp
  from Suc.prems have "\<not> (0 < unat (s - d) \<and> unat (s - d) < n)" "n \<le> 2 ^ 64"
    by linarith+
  from Suc.IH [OF this, of ?m]
  have IH: "copy_down m (d + of_nat (Suc n)) (s + of_nat (Suc n)) (Suc n) x =
      (if unat (x - d) < n then ?m (x - d + s) else ?m x)"
    by (simp only: copy_down.simps ends)
  show ?case
  proof (cases "x = d + of_nat n")
    case True
    with IH n show ?thesis by (simp add: add.commute)
  next
    case False
    then have "unat (x - d) \<noteq> n"
      using n by (metis add.commute diff_add_cancel word_unat_eq_iff)
    moreover have "x - d + s \<noteq> d + of_nat n" if "unat (x - d) < n"
    proof
      assume "x - d + s = d + of_nat n"
      then have "s - d = of_nat n - (x - d)" by (simp add: algebra_simps)
      moreover have "unat (of_nat n - (x - d)) = n - unat (x - d)"
        using that n by (simp add: unat_sub_if_size word_size split: if_splits)
      ultimately have "unat (s - d) = n - unat (x - d)" by (simp only:)
      then show False using that Suc.prems(1) by linarith
    qed
    ultimately show ?thesis using IH False by auto
  qed
qed

text \<open>
  \<^verbatim>\<open>memmove\<close> reads the whole source before it is overwritten, whichever way the regions
  overlap, as long as neither region wraps around the address space.
\<close>

lemma memmove_at:
  assumes src: "unat src + unat n < 2 ^ 64" and dst: "unat dst + unat n \<le> 2 ^ 64"
  shows "memmove m dst src n x = (if unat (x - dst) < unat n then m (x - dst + src) else m x)"
proof -
  have n64: "unat (ucast n :: addr) = unat n"
    by (rule unat_ucast_up) simp
  have nle: "unat n \<le> 2 ^ 64" using src by simp
  have ofn: "(ucast n :: addr) = of_nat (unat n)" by simp
  have no_wrap: "unat (src + ucast n) = unat src + unat n"
    using src n64 by (simp add: unat_plus_if_size word_size)
  show ?thesis
  proof (cases "src < dst \<and> src + ucast n > dst")
    case True
    then have lt: "unat src < unat dst" by (simp add: word_less_nat_alt)
    then have "unat (src - dst) = 2 ^ 64 - (unat dst - unat src)"
      by (simp add: unat_sub_if_size word_size)
    with dst lt have "\<not> (0 < unat (src - dst) \<and> unat (src - dst) < unat n)" by linarith
    from copy_down_at [OF this nle] True show ?thesis
      unfolding memmove_def ofn by simp
  next
    case False
    have "\<not> (0 < unat (dst - src) \<and> unat (dst - src) < unat n)"
    proof (cases "src < dst")
      case True
      with False have "unat src + unat n \<le> unat dst"
        using no_wrap by (simp add: word_less_nat_alt not_less)
      then show ?thesis by (auto simp: unat_sub_if_size word_size)
    next
      case ge: False
      then have "unat dst \<le> unat src" by (simp add: word_less_nat_alt not_less)
      then show ?thesis using src by (auto simp: unat_sub_if_size word_size)
    qed
    from copy_up_at [OF this nle] False show ?thesis
      unfolding memmove_def by auto
  qed
qed

lemma unat_div4_mult: "(n :: uint) mod 4 = 0 \<Longrightarrow> 4 * unat (n div 4) = unat n"
proof -
  assume "n mod 4 = 0"
  then have "unat n mod 4 = 0" using unat_mod [of n 4] by simp
  then show ?thesis using unat_div [of n 4] by auto
qed

lemma memset_at:
  "memset m dst c n x = (if unat (x - dst) < unat n then ucast c else m x)"
proof -
  have le: "unat n \<le> 2 ^ 64" using unat_lt_exp [of n] by simp
  show ?thesis
  proof (cases "dst mod 4 = 0 \<and> n mod 4 = 0")
    case True
    then have "memset m dst c n = stosb m dst (ucast c) (4 * unat (n div 4))"
      unfolding memset_def Let_def by (simp only: stosl_rep simp_thms if_True)
    with True le show ?thesis by (simp add: unat_div4_mult stosb_at)
  next
    case False
    with le show ?thesis by (auto simp: memset_def stosb_at)
  qed
qed

section \<open>Comparison and copying of C strings\<close>

text \<open>
  \<open>cstr bs\<close> is the part of a byte buffer that C reads as a string : the
  bytes before its first NUL (all of it when there is none).
\<close>

definition cstr :: "byte list \<Rightarrow> byte list" where
  "cstr bs = takeWhile (\<lambda>b. b \<noteq> 0) bs"

lemma cstr_simps [simp]: "cstr [] = []" "cstr (b # bs) = (if b \<noteq> 0 then b # cstr bs else [])"
  by (simp_all add: cstr_def)

lemma length_cstr_le: "length (cstr bs) \<le> length bs"
  by (simp add: cstr_def length_takeWhile_le)

lemma memcmp_loop_0: "memcmp_loop m a b n = 0 \<longleftrightarrow> bytes_at m a n = bytes_at m b n"
  by (induction n arbitrary: a b) (auto simp: bytes_at_Suc word_uint_eq_iff)

lemma memcmp_loop_neg:
  "memcmp_loop m a b n < 0 \<longleftrightarrow>
   (bytes_at m a n, bytes_at m b n) \<in> lexord {(x, y). x < y}"
  by (induction n arbitrary: a b) (auto simp: bytes_at_Suc word_less_def)

lemma strncmp_loop_0: "strncmp_loop m p q n = 0 \<longleftrightarrow> cstr (bytes_at m p n) = cstr (bytes_at m q n)"
  by (induction n arbitrary: p q) (auto simp: bytes_at_Suc word_uint_eq_iff)

text \<open>
  \<^verbatim>\<open>strncpy\<close> leaves the bounded source string in the destination, padded with zeros to
  exactly \<open>n\<close> bytes; the two buffers must not overlap.
\<close>

definition disjoint :: "addr \<Rightarrow> nat \<Rightarrow> addr \<Rightarrow> nat \<Rightarrow> bool" where
  "disjoint a n b k \<longleftrightarrow> (\<forall>i < n. \<forall>j < k. a + of_nat i \<noteq> b + of_nat j)"

lemma disjoint_Suc:
  "disjoint a (Suc n) b (Suc k) \<Longrightarrow> a \<noteq> b \<and> disjoint (a + 1) n (b + 1) k"
  unfolding disjoint_def
proof (intro conjI allI impI)
  assume d: "\<forall>i<Suc n. \<forall>j<Suc k. a + of_nat i \<noteq> b + of_nat j"
  from d [rule_format, of 0 0] show "a \<noteq> b" by simp
  fix i j assume "i < n" "j < k"
  with d [rule_format, of "Suc i" "Suc j"] show "a + 1 + of_nat i \<noteq> b + 1 + of_nat j"
    by (simp add: add.assoc)
qed

lemma bytes_at_update:
  "(\<And>i. i < n \<Longrightarrow> a + of_nat i \<noteq> x) \<Longrightarrow> bytes_at (m(x := v)) a n = bytes_at m a n"
  by (auto simp: bytes_at_def)

lemma bytes_at_write_bytes:
  "length bs < 2 ^ 64 \<Longrightarrow> bytes_at (write_bytes m a bs) a (length bs) = bs"
  by (rule nth_equalityI) (simp_all add: write_bytes_at unat_of_nat_small)

lemma stosb_write_bytes: "stosb m a b n = write_bytes m a (replicate n b)"
  by (induction n arbitrary: m a) simp_all

lemma disjoint_src:
  assumes "disjoint s (Suc n) t (Suc n)"
  shows "bytes_at (m(s := v)) (t + 1) n = bytes_at m (t + 1) n"
proof (rule bytes_at_update)
  fix i assume "i < n"
  with assms [unfolded disjoint_def, rule_format, of 0 "Suc i"]
  show "t + 1 + of_nat i \<noteq> s" by (simp add: add.assoc)
qed

lemma strncpy_loop_eq:
  "disjoint s n t n \<Longrightarrow>
   strncpy_loop m s t n = write_bytes m s
     (cstr (bytes_at m t n) @ replicate (n - length (cstr (bytes_at m t n))) 0)"
proof (induction n arbitrary: m s t)
  case (Suc n)
  have "strncpy_loop (m(s := m t)) (s + 1) (t + 1) n = write_bytes (m(s := m t)) (s + 1)
      (cstr (bytes_at (m(s := m t)) (t + 1) n)
       @ replicate (n - length (cstr (bytes_at (m(s := m t)) (t + 1) n))) 0)"
    using disjoint_Suc [OF Suc.prems] by (intro Suc.IH) simp
  then show ?case
    unfolding disjoint_src [OF Suc.prems]
    by (simp add: bytes_at_Suc Let_def stosb_write_bytes)
qed simp

lemma safestrcpy_loop_eq:
  "disjoint s n t n \<Longrightarrow>
   safestrcpy_loop m s t n =
     (let c = cstr (bytes_at m t n); bs = c @ (if length c < n then [0] else [])
      in (write_bytes m s bs, s + of_nat (length bs)))"
proof (induction n arbitrary: m s t)
  case (Suc n)
  have "safestrcpy_loop (m(s := m t)) (s + 1) (t + 1) n =
     (let c = cstr (bytes_at (m(s := m t)) (t + 1) n); bs = c @ (if length c < n then [0] else [])
      in (write_bytes (m(s := m t)) (s + 1) bs, s + 1 + of_nat (length bs)))"
    using disjoint_Suc [OF Suc.prems] by (intro Suc.IH) simp
  then show ?case
    unfolding disjoint_src [OF Suc.prems]
    by (simp add: bytes_at_Suc Let_def add.assoc)
qed simp

lemma write_bytes_append:
  "write_bytes m a (xs @ ys) = write_bytes (write_bytes m a xs) (a + of_nat (length xs)) ys"
  by (induction xs arbitrary: m a) (simp_all add: add.assoc)

lemma safestrcpy_eq:
  assumes "0 < n" and "disjoint s (nat (n - 1)) t (nat (n - 1))"
  shows "safestrcpy m s t n =
    (let c = cstr (bytes_at m t (nat (n - 1)))
     in write_bytes m s (c @ (if length c < nat (n - 1) then [0, 0] else [0])))"
  using assms(1) safestrcpy_loop_eq [OF assms(2), of m]
  by (simp add: safestrcpy_def Let_def write_bytes_append add.assoc)

section \<open>strlen returns\<close>

lemma strlen_loop_Some:
  assumes "\<forall>i < k. m (s + of_nat (n + i)) \<noteq> 0" and "m (s + of_nat (n + k)) = 0"
  shows "strlen_loop m s n = Some (n + k)"
  using assms
proof (induction k arbitrary: n)
  case 0
  then show ?case by (simp add: strlen_loop.simps)
next
  case (Suc k)
  from Suc.prems(1) have "m (s + of_nat n) \<noteq> 0" by (metis add.right_neutral zero_less_Suc)
  moreover have "strlen_loop m s (Suc n) = Some (Suc n + k)"
    using Suc.prems by (intro Suc.IH) (auto simp flip: add_Suc_right)
  ultimately show ?case by (subst strlen_loop.simps) simp
qed

section \<open>Words in memory\<close>

lemma bit_word_of_bytes:
  "bit (word_of_bytes bs :: 'a::len word) n \<longleftrightarrow>
   n < LENGTH('a) \<and> n div 8 < length bs \<and> bit (bs ! (n div 8)) (n mod 8)"
proof (induction bs arbitrary: n)
  case (Cons b bs)
  show ?case
  proof (cases "n < 8")
    case True
    then show ?thesis by (auto simp: bit_simps)
  next
    case False
    then have "bit b n = False" by (auto dest: bit_imp_le_length)
    moreover from False have "n div 8 = Suc ((n - 8) div 8)" "n mod 8 = (n - 8) mod 8"
      by (simp_all add: le_div_geq le_mod_geq)
    ultimately show ?thesis
      using Cons [of "n - 8"] False by (auto simp: bit_simps)
  qed
qed simp

lemma word_of_bytes64 [simp]: "word_of_bytes (bytes64 w) = w"
  by (rule bit_word_eqI) (auto simp: bytes64_def bit_word_of_bytes bit_simps)

lemma word_of_bytes32 [simp]: "word_of_bytes (bytes32 w) = w"
proof (rule bit_word_eqI)
  fix n assume n: "n < LENGTH(32)"
  have "bytes32 w = map (\<lambda>i. ucast (drop_bit (8 * i) w)) [0..<4]"
    by (simp add: bytes32_def upt_rec)
  with n show "bit (word_of_bytes (bytes32 w) :: uint) n = bit w n"
    by (auto simp: bit_word_of_bytes bit_simps)
qed

lemma length_bytes64 [simp]: "length (bytes64 w) = 8"
  by (simp add: bytes64_def)

lemma length_bytes32 [simp]: "length (bytes32 w) = 4"
  by (simp add: bytes32_def)

lemma load64_store64 [simp]: "load64 (store64 m a w) a = w"
  using bytes_at_write_bytes [of "bytes64 w" m a] by (simp add: load64_def store64_def)

lemma load32_store32 [simp]: "load32 (store32 m a w) a = w"
  using bytes_at_write_bytes [of "bytes32 w" m a] by (simp add: load32_def store32_def)

lemma store64_other: "8 \<le> unat (x - a) \<Longrightarrow> store64 m a w x = m x"
  by (simp add: store64_def write_bytes_at)

lemma load64_cong: "(\<And>i. i < 8 \<Longrightarrow> m (a + of_nat i) = m' (a + of_nat i)) \<Longrightarrow> load64 m a = load64 m' a"
  by (auto simp: load64_def bytes_at_def intro!: arg_cong [where f = word_of_bytes])

section \<open>Properties\<close>

text \<open>
  C1: \<^verbatim>\<open>memmove\<close> copies correctly even when source and destination overlap in either
  direction: afterwards the destination holds the bytes the source held before, and no
  byte outside the destination has changed. The hypotheses say that neither object wraps
  around the end of the address space.
\<close>

theorem memmove_correct:
  assumes "unat src + unat n < 2 ^ 64" and "unat dst + unat n \<le> 2 ^ 64"
  shows "bytes_at (memmove m dst src n) dst (unat n) = bytes_at m src (unat n)
    \<and> (\<forall>x. unat n \<le> unat (x - dst) \<longrightarrow> memmove m dst src n x = m x)"
proof -
  have "memmove m dst src n (dst + of_nat i) = m (src + of_nat i)" if "i < unat n" for i
  proof -
    have "unat (of_nat i :: addr) = i" using that assms(2) by (intro unat_of_nat_small) simp
    with that show ?thesis by (simp add: memmove_at [OF assms] add.commute)
  qed
  then show ?thesis
    by (auto simp: memmove_at [OF assms] intro: nth_equalityI)
qed

theorem memmove_correct_witness:
  "bytes_at (memmove (\<lambda>a. ucast a) 1001 1000 3) 1001 3 = bytes_at (\<lambda>a. ucast a) 1000 3
   \<and> memmove (\<lambda>a. ucast a) 1001 1000 3 1004 = 236"
  using memmove_correct [of 1000 3 1001 "\<lambda>a. ucast a"] by simp

end
