(* ===== verification/Spinlock.thy ===== *)
theory Spinlock
  imports Cstring
begin

text \<open>
  \<^verbatim>\<open>kernel/spinlock.c\<close>: the interrupt-disable nesting (\<^verbatim>\<open>pushcli\<close>, \<^verbatim>\<open>popcli\<close>) and the
  mutual-exclusion locks. The first part is the code as one processor runs it, on the
  record \<open>mach\<close> that every other kernel component extends. The second part interleaves
  the instructions of any number of processors on one lock.
\<close>

section \<open>Machine state seen by one processor\<close>

datatype lockid =
    L_kmem | L_ptable | L_bcache | L_ide | L_log | L_icache | L_ftable
  | L_pipe addr | L_cons | L_input | L_tickslock

text \<open>
  \<^verbatim>\<open>struct spinlock\<close>. The array \<^verbatim>\<open>pcs\<close> of return addresses is debugging output only and is
  left out; \<open>lcpu\<close> is the index of the holder in \<^verbatim>\<open>cpus\<close>, None for a null pointer.
\<close>

record spinlock =
  locked :: uint
  lname :: string
  lcpu :: "nat option"

text \<open>The fields of \<^verbatim>\<open>struct cpu\<close> and of EFLAGS that the lock code uses, and the kernel's locks.\<close>

record mach =
  cpu :: nat
  ncli :: int
  intena :: bool
  ifl :: bool
  locks :: "lockid \<Rightarrow> spinlock"

definition initlock :: "lockid \<Rightarrow> string \<Rightarrow> (unit, 'z mach_scheme) kern" where
  "initlock l name = modK (\<lambda>s. s\<lparr>locks := (locks s)(l := \<lparr>locked = 0, lname = name, lcpu = None\<rparr>)\<rparr>)"

definition holding_by :: "nat \<Rightarrow> spinlock \<Rightarrow> bool" where
  "holding_by c lk \<longleftrightarrow> locked lk \<noteq> 0 \<and> lcpu lk = Some c"

definition holding :: "lockid \<Rightarrow> 'z mach_scheme \<Rightarrow> bool" where
  "holding l s = holding_by (cpu s) (locks s l)"

text \<open>\<^verbatim>\<open>xchg\<close> of \<^verbatim>\<open>include/x86.h\<close> on the lock word: one atomic step that returns the old value.\<close>

definition xchg :: "uint \<Rightarrow> spinlock \<Rightarrow> uint \<times> spinlock" where
  "xchg v lk = (locked lk, lk\<lparr>locked := v\<rparr>)"

definition pushcli :: "(unit, 'z mach_scheme) kern" where
  "pushcli s =
    (let eflags = ifl s;
         s1 = s\<lparr>ifl := False, ncli := ncli s + 1\<rparr>
     in Ok () (if ncli s = 0 then s1\<lparr>intena := eflags\<rparr> else s1))"

definition popcli :: "(unit, 'z mach_scheme) kern" where
  "popcli s =
    (if ifl s then Panic ''popcli - interruptible''
     else let s1 = s\<lparr>ncli := ncli s - 1\<rparr> in
          if ncli s1 < 0 then Panic ''popcli''
          else if ncli s1 = 0 \<and> intena s1 then Ok () (s1\<lparr>ifl := True\<rparr>)
          else Ok () s1)"

text \<open>
  The \<^verbatim>\<open>xchg\<close> loop of \<^verbatim>\<open>acquire\<close> leaves only when the old value is 0; seen from this
  processor alone a nonzero word means that it spins.
\<close>

definition acquire :: "lockid \<Rightarrow> (unit, 'z mach_scheme) kern" where
  "acquire l =
    seqK pushcli
      (bindK (getK (holding l)) (\<lambda>h.
        if h then panic ''acquire''
        else (\<lambda>s. case xchg 1 (locks s l) of (old, lk) \<Rightarrow>
             if old \<noteq> 0 then Spin
             else Ok () (s\<lparr>locks := (locks s)(l := lk\<lparr>lcpu := Some (cpu s)\<rparr>)\<rparr>))))"

definition release :: "lockid \<Rightarrow> (unit, 'z mach_scheme) kern" where
  "release l =
    bindK (getK (holding l)) (\<lambda>h.
      if \<not> h then panic ''release''
      else seqK (modK (\<lambda>s. s\<lparr>locks := (locks s)(l := snd (xchg 0 ((locks s l)\<lparr>lcpu := None\<rparr>)))\<rparr>))
             popcli)"

text \<open>
  \<^verbatim>\<open>getstackpcs\<close>: follow the chain of saved frame pointers through kernel memory, at most
  ten frames, and pad with zeros. \<open>KERNBASE\<close> is that of \<^verbatim>\<open>include/memlayout.h\<close>.
\<close>

definition KERNBASE :: addr where
  "KERNBASE = 0xFFFFFFFF80000000"

fun getstackpcs_loop :: "mem \<Rightarrow> addr \<Rightarrow> nat \<Rightarrow> uintp list" where
  "getstackpcs_loop m ebp 0 = []"
| "getstackpcs_loop m ebp (Suc n) =
    (if ebp = 0 \<or> ebp < KERNBASE \<or> ebp = 0xffffffff then replicate (Suc n) 0
     else load64 m (ebp + 8) # getstackpcs_loop m (load64 m ebp) n)"

definition getstackpcs :: "mem \<Rightarrow> addr \<Rightarrow> uintp list" where
  "getstackpcs m ebp = getstackpcs_loop m ebp 10"

section \<open>Sequential behaviour\<close>

text \<open>
  The state after a successful \<^verbatim>\<open>acquire\<close> or \<^verbatim>\<open>release\<close>, and the rules that let proofs about
  critical sections step over the two calls.
\<close>

definition acquired :: "lockid \<Rightarrow> 'z mach_scheme \<Rightarrow> 'z mach_scheme" where
  "acquired l s = s\<lparr>ifl := False, ncli := ncli s + 1,
     intena := (if ncli s = 0 then ifl s else intena s),
     locks := (locks s)(l := (locks s l)\<lparr>locked := 1, lcpu := Some (cpu s)\<rparr>)\<rparr>"

definition released :: "lockid \<Rightarrow> 'z mach_scheme \<Rightarrow> 'z mach_scheme" where
  "released l s = s\<lparr>ifl := (ncli s = 1 \<and> intena s), ncli := ncli s - 1,
     locks := (locks s)(l := (locks s l)\<lparr>locked := 0, lcpu := None\<rparr>)\<rparr>"

definition free_lock :: "lockid \<Rightarrow> 'z mach_scheme \<Rightarrow> bool" where
  "free_lock l s \<longleftrightarrow> locked (locks s l) = 0 \<and> lcpu (locks s l) = None"

text \<open>Well-formed interrupt state: nesting is never negative, and nested means disabled.\<close>

definition mach_ok :: "'z mach_scheme \<Rightarrow> bool" where
  "mach_ok s \<longleftrightarrow> 0 \<le> ncli s \<and> (0 < ncli s \<longrightarrow> \<not> ifl s)"

lemma acquire_eq:
  "acquire l s =
    (if holding l s then Panic ''acquire'' else if locked (locks s l) \<noteq> 0 then Spin
     else Ok () (acquired l s))"
  by (simp add: acquire_def kdefs pushcli_def holding_def xchg_def acquired_def Let_def)

lemma release_eq:
  "release l s =
    (if \<not> holding l s then Panic ''release''
     else if ifl s then Panic ''popcli - interruptible'' else if ncli s < 1 then Panic ''popcli''
     else Ok () (released l s))"
  by (auto simp: release_def kdefs popcli_def holding_def xchg_def released_def Let_def
      intro!: mach.equality)

lemma wp_acquire [wp_rules]:
  "wp (acquire l) Q s = (locked (locks s l) = 0 \<and> Q () (acquired l s))"
  by (auto simp: wp_def acquire_eq holding_def holding_by_def)

lemma wp_release [wp_rules]:
  "wp (release l) Q s = (holding l s \<and> \<not> ifl s \<and> 0 < ncli s \<and> Q () (released l s))"
  by (auto simp: wp_def release_eq)

lemma acquired_simps [simp]:
  "holding l (acquired l s)" "\<not> ifl (acquired l s)" "ncli (acquired l s) = ncli s + 1"
  "cpu (acquired l s) = cpu s"
  by (simp_all add: acquired_def holding_def holding_by_def)

lemma released_simps [simp]:
  "free_lock l (released l s)" "ncli (released l s) = ncli s - 1" "cpu (released l s) = cpu s"
  by (simp_all add: released_def free_lock_def)

lemma free_lock_upd [simp]:
  "free_lock l s \<Longrightarrow> (locks s)(l := (locks s l)\<lparr>locked := 0, lcpu := None\<rparr>) = locks s"
  by (auto simp: free_lock_def fun_eq_iff intro: spinlock.equality)

lemma released_acquired:
  "free_lock l s \<Longrightarrow> mach_ok s \<Longrightarrow>
   released l (acquired l s) = s\<lparr>intena := (if ncli s = 0 then ifl s else intena s)\<rparr>"
  by (auto simp: released_def acquired_def free_lock_def mach_ok_def fun_eq_iff
      intro!: mach.equality spinlock.equality)

text \<open>
  \<open>intena\<close> is meaningful only while interrupts are nested. A state is settled when, on the
  outermost level, it agrees with the interrupt flag; every critical section that starts
  there gives back exactly the machine state it found. A state is idle when moreover no
  lock is taken at all, which is how system-call code runs between critical sections.
\<close>

definition settled :: "'z mach_scheme \<Rightarrow> bool" where
  "settled s \<longleftrightarrow> mach_ok s \<and> (ncli s = 0 \<longrightarrow> intena s = ifl s)"

definition idle :: "'z mach_scheme \<Rightarrow> bool" where
  "idle s \<longleftrightarrow> ncli s = 0 \<and> intena s = ifl s \<and> (\<forall>l. free_lock l s)"

lemma idle_settled: "idle s \<Longrightarrow> settled s"
  by (simp add: idle_def settled_def mach_ok_def)

lemma idle_free: "idle s \<Longrightarrow> free_lock l s"
  by (simp add: idle_def)

lemma idle_cong: "ncli t = ncli s \<Longrightarrow> intena t = intena s \<Longrightarrow> ifl t = ifl s \<Longrightarrow> locks t = locks s
    \<Longrightarrow> idle t = idle s"
  by (simp add: idle_def free_lock_def)

lemma settled_cong: "ncli t = ncli s \<Longrightarrow> intena t = intena s \<Longrightarrow> ifl t = ifl s \<Longrightarrow> settled t = settled s"
  by (simp add: settled_def mach_ok_def)

lemma settled_acquired [simp]: "settled s \<Longrightarrow> settled (acquired l s)"
  by (simp add: settled_def mach_ok_def)

lemma free_acquired [simp]: "k \<noteq> l \<Longrightarrow> free_lock k (acquired l s) = free_lock k s"
  by (simp add: free_lock_def acquired_def)

text \<open>
  A state transformer that neither reads nor writes the machine layer. Between
  \<^verbatim>\<open>acquire\<close> and \<^verbatim>\<open>release\<close> it acts as if the lock had not been taken.
\<close>

definition above_mach :: "('z mach_scheme \<Rightarrow> 'z mach_scheme) \<Rightarrow> bool" where
  "above_mach f \<longleftrightarrow> (\<forall>s i n e l. f (s\<lparr>ifl := i, ncli := n, intena := e, locks := l\<rparr>)
     = (f s)\<lparr>ifl := i, ncli := n, intena := e, locks := l\<rparr>)"

lemma above_machD:
  "above_mach f \<Longrightarrow> f (s\<lparr>ifl := i, ncli := n, intena := e, locks := l\<rparr>)
     = (f s)\<lparr>ifl := i, ncli := n, intena := e, locks := l\<rparr>"
  by (simp add: above_mach_def)

lemma above_mach_sel:
  assumes "above_mach f"
  shows "ifl (f s) = ifl s" "ncli (f s) = ncli s" "intena (f s) = intena s" "locks (f s) = locks s"
proof -
  have "f s = (f s)\<lparr>ifl := ifl s, ncli := ncli s, intena := intena s, locks := locks s\<rparr>"
    using above_machD [OF assms, where s = s and i = "ifl s" and n = "ncli s" and e = "intena s" and l = "locks s"] by simp
  then show "ifl (f s) = ifl s" "ncli (f s) = ncli s" "intena (f s) = intena s" "locks (f s) = locks s"
    by (metis mach.select_convs mach.surjective mach.update_convs)+
qed

lemma above_mach_id [simp]: "above_mach (\<lambda>s. s)"
  by (simp add: above_mach_def)

lemma above_mach_comp: "above_mach f \<Longrightarrow> above_mach g \<Longrightarrow> above_mach (\<lambda>s. g (f s))"
  by (simp add: above_mach_def)

lemma acquire_free: "free_lock l s \<Longrightarrow> acquire l s = Ok () (acquired l s)"
  by (simp add: acquire_eq free_lock_def holding_def holding_by_def)

lemma crit_release:
  assumes "settled s" "free_lock l s" "above_mach f" "\<And>s. cpu (f s) = cpu s"
  shows "release l (f (acquired l s)) = Ok () (f s)"
proof -
  have "holding l (f (acquired l s)) \<and> \<not> ifl (f (acquired l s)) \<and> ncli (f (acquired l s)) = ncli s + 1"
    using assms by (simp add: holding_def above_mach_sel acquired_def holding_by_def)
  moreover have "released l (f (acquired l s)) = f s"
    using assms(1,2) above_mach_sel [OF assms(3), of s]
    by (auto simp: released_def acquired_def above_machD [OF assms(3)] settled_def mach_ok_def
        intro!: mach.equality)
  moreover have "0 \<le> ncli s" using assms by (simp add: settled_def mach_ok_def)
  ultimately show ?thesis by (simp add: release_eq)
qed

lemmas crit_release_id = crit_release [OF _ _ above_mach_id, simplified]

lemma crit_modK:
  assumes "settled s" "free_lock l s" "above_mach f" "\<And>s. cpu (f s) = cpu s"
  shows "seqK (acquire l) (seqK (modK f) (release l)) s = Ok () (f s)"
  using assms by (simp add: kdefs acquire_free crit_release)

text \<open>Running a routine \<open>n\<close> times in a row.\<close>

primrec repeatK :: "nat \<Rightarrow> (unit, 's) kern \<Rightarrow> (unit, 's) kern" where
  "repeatK 0 m = ret ()"
| "repeatK (Suc n) m = seqK m (repeatK n m)"

lemma repeatK_pushcli:
  "0 < ncli s \<Longrightarrow> \<not> ifl s \<Longrightarrow> repeatK n pushcli s = Ok () (s\<lparr>ncli := ncli s + int n\<rparr>)"
  by (induction n arbitrary: s) (auto simp: kdefs pushcli_def Let_def)

lemma repeatK_popcli:
  "int n \<le> ncli s \<Longrightarrow> \<not> ifl s \<Longrightarrow>
   repeatK n popcli s = Ok () (s\<lparr>ncli := ncli s - int n, ifl := (0 < n \<and> ncli s = int n \<and> intena s)\<rparr>)"
proof (induction n arbitrary: s)
  case 0
  then show ?case by (auto simp: kdefs intro: mach.equality)
next
  case (Suc n)
  show ?case
  proof (cases "ncli s = 1")
    case True
    with Suc.prems have "n = 0" by simp
    with True Suc.prems show ?thesis by (simp add: kdefs popcli_def Let_def)
  next
    case False
    let ?t = "s\<lparr>ncli := ncli s - 1\<rparr>"
    have "popcli s = Ok () ?t" using False Suc.prems by (simp add: popcli_def Let_def)
    moreover have "repeatK n popcli ?t =
        Ok () (?t\<lparr>ncli := ncli ?t - int n, ifl := (0 < n \<and> ncli ?t = int n \<and> intena ?t)\<rparr>)"
      using Suc.prems by (intro Suc.IH) simp_all
    ultimately show ?thesis using False Suc.prems
      by (auto simp: kdefs intro!: mach.equality)
  qed
qed

section \<open>Interleaved processors\<close>

text \<open>
  One lock and any number of processors, each at a point of \<^verbatim>\<open>acquire\<close>/\<^verbatim>\<open>release\<close> between two
  shared-memory accesses: \<open>Out\<close> (not using the lock), \<open>Spinning\<close> (past the \<^verbatim>\<open>holding\<close>
  check, before a successful \<^verbatim>\<open>xchg\<close>), \<open>Won\<close> (\<^verbatim>\<open>xchg\<close> returned 0, \<^verbatim>\<open>lk->cpu\<close> not yet written),
  \<open>Held\<close> (critical section), \<open>Cleared\<close> (in \<^verbatim>\<open>release\<close>, \<^verbatim>\<open>lk->cpu\<close> reset, lock word still set).
  \<open>Dead\<close> is a processor in \<^verbatim>\<open>panic\<close>.
\<close>

datatype lpc = Out | Spinning | Won | Held | Cleared | Dead

record lsys =
  the_lock :: spinlock
  cpu_pc :: "nat \<Rightarrow> lpc"

definition lsys_init :: "string \<Rightarrow> lsys" where
  "lsys_init name = \<lparr>the_lock = \<lparr>locked = 0, lname = name, lcpu = None\<rparr>, cpu_pc = (\<lambda>_. Out)\<rparr>"

inductive lock_step :: "lsys \<Rightarrow> lsys \<Rightarrow> bool" where
  enter: "cpu_pc s c = Out \<Longrightarrow>
    lock_step s (s\<lparr>cpu_pc := (cpu_pc s)(c := if holding_by c (the_lock s) then Dead else Spinning)\<rparr>)"
| xchg_one: "cpu_pc s c = Spinning \<Longrightarrow> xchg 1 (the_lock s) = (old, lk') \<Longrightarrow>
    lock_step s (s\<lparr>the_lock := lk', cpu_pc := (cpu_pc s)(c := if old \<noteq> 0 then Spinning else Won)\<rparr>)"
| record_cpu: "cpu_pc s c = Won \<Longrightarrow>
    lock_step s (s\<lparr>the_lock := (the_lock s)\<lparr>lcpu := Some c\<rparr>, cpu_pc := (cpu_pc s)(c := Held)\<rparr>)"
| leave: "cpu_pc s c = Held \<Longrightarrow>
    lock_step s (if holding_by c (the_lock s)
      then s\<lparr>the_lock := (the_lock s)\<lparr>lcpu := None\<rparr>, cpu_pc := (cpu_pc s)(c := Cleared)\<rparr>
      else s\<lparr>cpu_pc := (cpu_pc s)(c := Dead)\<rparr>)"
| xchg_zero: "cpu_pc s c = Cleared \<Longrightarrow>
    lock_step s (s\<lparr>the_lock := snd (xchg 0 (the_lock s)), cpu_pc := (cpu_pc s)(c := Out)\<rparr>)"

inductive lock_reach :: "string \<Rightarrow> lsys \<Rightarrow> bool" for name where
  start: "lock_reach name (lsys_init name)"
| step: "lock_reach name s \<Longrightarrow> lock_step s t \<Longrightarrow> lock_reach name t"

text \<open>
  Either nobody owns the lock: its word is 0, \<^verbatim>\<open>lk->cpu\<close> is null and every processor is outside
  or spinning; or exactly one processor is between its two successful exchanges: the word
  is set, \<^verbatim>\<open>lk->cpu\<close> names that processor during its critical section and is null before
  and after, and every other processor is outside or spinning.
\<close>

definition waiting :: "lpc \<Rightarrow> bool" where
  "waiting p \<longleftrightarrow> p = Out \<or> p = Spinning"

definition unowned :: "lsys \<Rightarrow> bool" where
  "unowned s \<longleftrightarrow> locked (the_lock s) = 0 \<and> lcpu (the_lock s) = None \<and> (\<forall>c. waiting (cpu_pc s c))"

definition owned_by :: "nat \<Rightarrow> lsys \<Rightarrow> bool" where
  "owned_by c s \<longleftrightarrow> locked (the_lock s) \<noteq> 0 \<and> (cpu_pc s c = Won \<or> cpu_pc s c = Held \<or> cpu_pc s c = Cleared)
     \<and> lcpu (the_lock s) = (if cpu_pc s c = Held then Some c else None) \<and> (\<forall>d. d \<noteq> c \<longrightarrow> waiting (cpu_pc s d))"

definition lock_inv :: "lsys \<Rightarrow> bool" where
  "lock_inv s \<longleftrightarrow> unowned s \<or> (\<exists>c. owned_by c s)"

lemma unowned_pc: "unowned s \<Longrightarrow> cpu_pc s c = p \<Longrightarrow> p = Out \<or> p = Spinning"
  by (auto simp: unowned_def waiting_def)

lemma unowned_step: "lock_step s t \<Longrightarrow> unowned s \<Longrightarrow> lock_inv t"
proof (induction rule: lock_step.induct)
  case (enter s c)
  then have "unowned (s\<lparr>cpu_pc := (cpu_pc s)(c := if holding_by c (the_lock s) then Dead else Spinning)\<rparr>)"
    by (simp add: unowned_def waiting_def holding_by_def)
  then show ?case by (simp add: lock_inv_def)
next
  case (xchg_one s c old lk')
  then have "owned_by c (s\<lparr>the_lock := lk', cpu_pc := (cpu_pc s)(c := if old \<noteq> 0 then Spinning else Won)\<rparr>)"
    by (auto simp: unowned_def owned_by_def xchg_def)
  then show ?case by (auto simp: lock_inv_def)
qed (auto dest: unowned_pc)

lemma owned_step: "lock_step s t \<Longrightarrow> owned_by w s \<Longrightarrow> lock_inv t"
proof (induction rule: lock_step.induct)
  case (enter s c)
  then have "c \<noteq> w" by (auto simp: owned_by_def)
  with enter have "owned_by w (s\<lparr>cpu_pc := (cpu_pc s)(c := if holding_by c (the_lock s) then Dead else Spinning)\<rparr>)"
    by (auto simp: owned_by_def waiting_def holding_by_def)
  then show ?case by (auto simp: lock_inv_def)
next
  case (xchg_one s c old lk')
  then have "c \<noteq> w" by (auto simp: owned_by_def)
  with xchg_one have "owned_by w (s\<lparr>the_lock := lk', cpu_pc := (cpu_pc s)(c := if old \<noteq> 0 then Spinning else Won)\<rparr>)"
    by (auto simp: owned_by_def waiting_def xchg_def)
  then show ?case by (auto simp: lock_inv_def)
next
  case (record_cpu s c)
  then have "c = w" by (auto simp: owned_by_def waiting_def)
  with record_cpu have "owned_by w (s\<lparr>the_lock := (the_lock s)\<lparr>lcpu := Some c\<rparr>, cpu_pc := (cpu_pc s)(c := Held)\<rparr>)"
    by (simp add: owned_by_def)
  then show ?case by (auto simp: lock_inv_def)
next
  case (leave s c)
  then have "c = w" by (auto simp: owned_by_def waiting_def)
  with leave have "holding_by c (the_lock s)"
    and "owned_by w (s\<lparr>the_lock := (the_lock s)\<lparr>lcpu := None\<rparr>, cpu_pc := (cpu_pc s)(c := Cleared)\<rparr>)"
    by (simp_all add: owned_by_def holding_by_def)
  then show ?case by (auto simp: lock_inv_def)
next
  case (xchg_zero s c)
  then have "c = w" by (auto simp: owned_by_def waiting_def)
  with xchg_zero have "unowned (s\<lparr>the_lock := snd (xchg 0 (the_lock s)), cpu_pc := (cpu_pc s)(c := Out)\<rparr>)"
    by (auto simp: owned_by_def unowned_def xchg_def waiting_def)
  then show ?case by (auto simp: lock_inv_def)
qed

lemma lock_reach_inv: "lock_reach name s \<Longrightarrow> lock_inv s"
proof (induction rule: lock_reach.induct)
  case start
  show ?case by (simp add: lock_inv_def unowned_def lsys_init_def waiting_def)
next
  case (step s t)
  then show ?case using unowned_step owned_step unfolding lock_inv_def by blast
qed

section \<open>Properties\<close>

text \<open>
  C2: spin locks exclude. In every state that any interleaving of any number of processors
  on one lock reaches, at most one processor is in its critical section, \<^verbatim>\<open>holding\<close> answers
  yes exactly for that processor, and neither the check in \<^verbatim>\<open>acquire\<close> nor the one in
  \<^verbatim>\<open>release\<close> has panicked.
\<close>

theorem spinlock_mutual_exclusion:
  assumes "lock_reach name s"
  shows "(cpu_pc s c = Held \<longrightarrow> cpu_pc s d = Held \<longrightarrow> c = d)
    \<and> (holding_by c (the_lock s) \<longleftrightarrow> cpu_pc s c = Held) \<and> cpu_pc s c \<noteq> Dead"
proof -
  from lock_reach_inv [OF assms] consider "unowned s" | w where "owned_by w s"
    unfolding lock_inv_def by blast
  then show ?thesis
  proof cases
    case 1
    then show ?thesis by (auto simp: unowned_def waiting_def holding_by_def dest: spec [of _ c])
  next
    case 2
    then have "x \<noteq> w \<Longrightarrow> waiting (cpu_pc s x)" for x by (simp add: owned_by_def)
    with 2 show ?thesis
      by (cases "c = w"; cases "d = w") (auto simp: owned_by_def waiting_def holding_by_def)
  qed
qed

lemma lock_reach_example:
  "lock_reach ''x'' \<lparr>the_lock = \<lparr>locked = 1, lname = ''x'', lcpu = Some 3\<rparr>, cpu_pc = (\<lambda>_. Out)(3 := Held)\<rparr>"
proof -
  let ?s0 = "lsys_init ''x''"
  let ?s1 = "?s0\<lparr>cpu_pc := (cpu_pc ?s0)(3 := Spinning)\<rparr>"
  let ?s2 = "?s1\<lparr>the_lock := (the_lock ?s1)\<lparr>locked := 1\<rparr>, cpu_pc := (cpu_pc ?s1)(3 := Won)\<rparr>"
  let ?s3 = "?s2\<lparr>the_lock := (the_lock ?s2)\<lparr>lcpu := Some 3\<rparr>, cpu_pc := (cpu_pc ?s2)(3 := Held)\<rparr>"
  have "lock_step ?s0 ?s1"
    using lock_step.enter [of ?s0 3] by (simp add: lsys_init_def holding_by_def)
  moreover have "lock_step ?s1 ?s2"
    using lock_step.xchg_one [of ?s1 3] by (simp add: lsys_init_def xchg_def)
  moreover have "lock_step ?s2 ?s3"
    using lock_step.record_cpu [of ?s2 3] by (simp add: lsys_init_def)
  ultimately have "lock_reach ''x'' ?s3"
    by (meson lock_reach.start lock_reach.step)
  then show ?thesis by (simp add: lsys_init_def)
qed

theorem spinlock_mutual_exclusion_witness:
  "holding_by 3 \<lparr>locked = 1, lname = ''x'', lcpu = Some 3\<rparr>"
  using spinlock_mutual_exclusion [OF lock_reach_example, of 3 3] by simp



end
