(* ===== verification/Kalloc.thy ===== *)
theory Kalloc
  imports Spinlock
begin

text \<open>
  \<^verbatim>\<open>kernel/kalloc.c\<close>: the physical page allocator. The free list is threaded through the
  free pages themselves: the first eight bytes of a free page hold the address of the
  next one. The locale \<open>page_allocator\<close> states what the rest of the kernel relies on, and
  the interpretation at the end discharges it for \<^verbatim>\<open>kalloc\<close> and \<^verbatim>\<open>kfree\<close>.
\<close>

section \<open>Layout constants\<close>

definition PGSIZE :: addr where
  "PGSIZE = 4096"

definition PHYSTOP :: addr where
  "PHYSTOP = 0xE000000"

definition v2p :: "addr \<Rightarrow> addr" where
  "v2p a = a - KERNBASE"

definition p2v :: "addr \<Rightarrow> addr" where
  "p2v a = a + KERNBASE"

definition PGROUNDUP :: "addr \<Rightarrow> addr" where
  "PGROUNDUP sz = (sz + (PGSIZE - 1)) AND NOT (PGSIZE - 1)"

definition PGROUNDDOWN :: "addr \<Rightarrow> addr" where
  "PGROUNDDOWN a = a AND NOT (PGSIZE - 1)"

section \<open>State and operations\<close>

text \<open>
  Memory, the linker symbol \<^verbatim>\<open>end\<close> (a constant of the linked kernel, here a field that no
  operation writes) and the anonymous struct \<^verbatim>\<open>kmem\<close>.
\<close>

record kmem_st = mach +
  mem :: mem
  kend :: addr
  use_lock :: bool
  freelist :: addr

definition kmem_acquire :: "(unit, 'z kmem_st_scheme) kern" where
  "kmem_acquire = bindK (getK use_lock) (\<lambda>u. whenK u (acquire L_kmem))"

definition kmem_release :: "(unit, 'z kmem_st_scheme) kern" where
  "kmem_release = bindK (getK use_lock) (\<lambda>u. whenK u (release L_kmem))"

definition kfree :: "addr \<Rightarrow> (unit, 'z kmem_st_scheme) kern" where
  "kfree v =
    bindK (getK kend) (\<lambda>e.
      if v mod PGSIZE \<noteq> 0 \<or> v < e \<or> v2p v \<ge> PHYSTOP then panic ''kfree''
      else
        seqK (modK (\<lambda>s. s\<lparr>mem := memset (mem s) v 1 4096\<rparr>))
       (seqK kmem_acquire
       (seqK (modK (\<lambda>s. s\<lparr>mem := store64 (mem s) v (freelist s), freelist := v\<rparr>))
             kmem_release)))"

definition kalloc :: "(addr, 'z kmem_st_scheme) kern" where
  "kalloc =
    seqK kmem_acquire
   (bindK (getK freelist) (\<lambda>r.
    seqK (whenK (r \<noteq> 0) (modK (\<lambda>s. s\<lparr>freelist := load64 (mem s) r\<rparr>)))
   (seqK kmem_release
         (ret r))))"

lemma kfree_Ok_bound: "kfree v s = Ok u t \<Longrightarrow> unat v + 4096 < 2 ^ 64"
proof -
  assume "kfree v s = Ok u t"
  then have "v2p v < PHYSTOP" by (auto simp: kfree_def kdefs not_less split: if_splits)
  then have "unat (v - KERNBASE) < 0xE000000" by (simp add: v2p_def PHYSTOP_def word_less_nat_alt)
  then show ?thesis by (auto simp: KERNBASE_def unat_sub_if_size word_size split: if_splits)
qed

function (sequential) freerange_loop :: "addr \<Rightarrow> addr \<Rightarrow> (unit, 'z kmem_st_scheme) kern" where
  "freerange_loop p vend s =
    (if p + PGSIZE \<le> vend
     then (case kfree p s of Ok u t \<Rightarrow> freerange_loop (p + PGSIZE) vend t
           | Panic e \<Rightarrow> Panic e | Swtch t \<Rightarrow> Swtch t | Spin \<Rightarrow> Spin)
     else Ok () s)"
  by pat_completeness auto
termination
proof (relation "measure (\<lambda>(p, _, _). 2 ^ 64 - unat p)")
  fix p vend :: addr and s :: "'z kmem_st_scheme" and u t
  assume "kfree p s = Ok u t"
  then have "unat p + 4096 < 2 ^ 64" by (rule kfree_Ok_bound)
  then have "unat (p + PGSIZE) = unat p + 4096"
    by (simp add: PGSIZE_def unat_plus_if_size word_size)
  then show "((p + PGSIZE, vend, t), (p, vend, s)) \<in> measure (\<lambda>(p, _, _). 2 ^ 64 - unat p)"
    using unat_lt_exp [of p] by simp
qed simp

declare freerange_loop.simps [simp del]

definition freerange :: "addr \<Rightarrow> addr \<Rightarrow> (unit, 'z kmem_st_scheme) kern" where
  "freerange vstart vend = freerange_loop (PGROUNDUP vstart) vend"

definition kinit1 :: "addr \<Rightarrow> addr \<Rightarrow> (unit, 'z kmem_st_scheme) kern" where
  "kinit1 vstart vend =
    seqK (initlock L_kmem ''kmem'')
   (seqK (modK (\<lambda>s. s\<lparr>use_lock := False\<rparr>))
         (freerange vstart vend))"

definition kinit2 :: "addr \<Rightarrow> addr \<Rightarrow> (unit, 'z kmem_st_scheme) kern" where
  "kinit2 vstart vend =
    seqK (freerange vstart vend)
         (modK (\<lambda>s. s\<lparr>use_lock := True\<rparr>))"

section \<open>The free list as a HOL list\<close>

fun flist :: "mem \<Rightarrow> addr \<Rightarrow> addr list \<Rightarrow> bool" where
  "flist m a [] = (a = 0)"
| "flist m a (x # xs) = (a = x \<and> x \<noteq> 0 \<and> flist m (load64 m x) xs)"

definition pg_aligned :: "addr \<Rightarrow> bool" where
  "pg_aligned x \<longleftrightarrow> x mod PGSIZE = 0"

definition valid_page :: "'z kmem_st_scheme \<Rightarrow> addr \<Rightarrow> bool" where
  "valid_page s v \<longleftrightarrow> pg_aligned v \<and> kend s \<le> v \<and> v2p v < PHYSTOP"

text \<open>The allocator's lock is free and the interrupt state well formed, so it can be entered.\<close>

definition kmem_ready :: "'z kmem_st_scheme \<Rightarrow> bool" where
  "kmem_ready s \<longleftrightarrow> mach_ok s \<and> (use_lock s \<longrightarrow> free_lock L_kmem s)"

definition kmem_rep :: "'z kmem_st_scheme \<Rightarrow> addr list \<Rightarrow> bool" where
  "kmem_rep s xs \<longleftrightarrow> kmem_ready s \<and> flist (mem s) (freelist s) xs \<and> distinct xs
     \<and> (\<forall>x \<in> set xs. valid_page s x)"

lemma page_distance:
  assumes "pg_aligned x" "pg_aligned v" "x \<noteq> v" "unat off < 4096"
  shows "4096 \<le> unat (x + off - v)"
proof -
  obtain a b where u: "unat x = 4096 * a" "unat v = 4096 * b"
    using assms(1,2) unat_mod [of x 4096] unat_mod [of v 4096]
    by (auto simp: pg_aligned_def PGSIZE_def elim!: dvdE)
  with assms(3) have ne: "a \<noteq> b" by (auto simp: word_unat_eq_iff)
  obtain d where d: "unat (x - v) = 4096 * d" "d \<noteq> 0" "d < 2 ^ 52"
  proof (cases "b \<le> a")
    case True
    with u have "unat (x - v) = 4096 * (a - b)" by (simp add: unat_sub_if_size diff_mult_distrib2)
    with True ne show ?thesis using u unat_lt_exp [of x] by (intro that [of "a - b"]) simp_all
  next
    case False
    with u have "unat (x - v) = 4096 * a + 2 ^ 64 - 4096 * b" by (simp add: unat_sub_if_size word_size)
    also have "\<dots> = 4096 * (a + 2 ^ 52 - b)" by simp
    finally show ?thesis using False u unat_lt_exp [of v] by (intro that [of "a + 2 ^ 52 - b"]) simp_all
  qed
  have "unat ((x - v) + off) = unat (x - v) + unat off"
    using d assms(4) by (simp add: unat_plus_if_size word_size)
  moreover have "x + off - v = (x - v) + off" by simp
  ultimately have "unat (x + off - v) = 4096 * d + unat off" by (simp only: d(1))
  with d(2) show ?thesis by simp
qed

lemma memset_other_page:
  assumes "pg_aligned x" "pg_aligned v" "x \<noteq> v" "unat off < 4096"
  shows "memset m v c 4096 (x + off) = m (x + off)"
  using page_distance [OF assms] by (simp add: memset_at)

lemma store64_other_page:
  assumes "pg_aligned x" "pg_aligned v" "x \<noteq> v" "unat off < 4096"
  shows "store64 m v w (x + off) = m (x + off)"
  using page_distance [OF assms] by (simp add: store64_other)

lemma load64_other_page:
  assumes "pg_aligned x" "pg_aligned v" "x \<noteq> v"
  shows "load64 (store64 (memset m v c 4096) v w) x = load64 m x"
proof (rule load64_cong)
  fix i :: nat assume "i < 8"
  then have "unat (of_nat i :: addr) < 4096" by (simp add: unat_of_nat_small)
  with assms show "store64 (memset m v c 4096) v w (x + of_nat i) = m (x + of_nat i)"
    by (simp add: store64_other_page memset_other_page)
qed

lemma flist_upd:
  assumes "pg_aligned v" "v \<notin> set xs" "\<forall>x \<in> set xs. pg_aligned x" "flist m a xs"
  shows "flist (store64 (memset m v c 4096) v w) a xs"
  using assms by (induction xs arbitrary: a) (auto simp: load64_other_page)

lemma valid_page_neq_0: "valid_page s v \<Longrightarrow> v \<noteq> 0"
  by (auto simp: valid_page_def v2p_def KERNBASE_def PHYSTOP_def)

section \<open>What the kernel relies on\<close>

text \<open>
  An allocator hands out the pages of an abstract list one at a time, and takes pages
  back. \<open>rep s ps\<close>: in state \<open>s\<close> the free pages are \<open>ps\<close>, in the order they will be used.
\<close>

locale page_allocator =
  fixes alloc :: "(addr, 's) kern"
    and free :: "addr \<Rightarrow> (unit, 's) kern"
    and rep :: "'s \<Rightarrow> addr list \<Rightarrow> bool"
    and page :: "'s \<Rightarrow> addr \<Rightarrow> bool"
  assumes alloc_none: "rep s [] \<Longrightarrow> wp alloc (\<lambda>r t. r = 0 \<and> rep t []) s"
    and alloc_some: "rep s (p # ps) \<Longrightarrow>
      wp alloc (\<lambda>r t. r = p \<and> rep t ps \<and> (\<forall>q. page t q = page s q)) s"
    and rep_distinct: "rep s ps \<Longrightarrow> distinct ps"
    and rep_page: "rep s ps \<Longrightarrow> p \<in> set ps \<Longrightarrow> page s p"
    and page_nonzero: "page s p \<Longrightarrow> p \<noteq> 0"
    and free_ok: "rep s ps \<Longrightarrow> page s p \<Longrightarrow> p \<notin> set ps \<Longrightarrow>
      wp (free p) (\<lambda>_ t. rep t (p # ps) \<and> (\<forall>q. page t q = page s q)) s"
begin

text \<open>A client that allocates \<open>n\<close> pages, as page-table set-up and stack creation do.\<close>

primrec alloc_many :: "nat \<Rightarrow> (addr list, 's) kern" where
  "alloc_many 0 = ret []"
| "alloc_many (Suc n) = bindK alloc (\<lambda>p. bindK (alloc_many n) (\<lambda>ps. ret (p # ps)))"

lemma alloc_many_fresh:
  "rep s (ps @ qs) \<Longrightarrow> wp (alloc_many (length ps)) (\<lambda>r t. r = ps \<and> rep t qs) s"
proof (induction ps arbitrary: s)
  case Nil
  then show ?case by (simp add: wp_rules)
next
  case (Cons p ps)
  from Cons.prems have "wp alloc (\<lambda>r t. r = p \<and> rep t (ps @ qs) \<and> (\<forall>q. page t q = page s q)) s"
    by (intro alloc_some) simp
  then show ?case
    by (auto simp: wp_rules elim!: wp_mono dest: Cons.IH)
qed

lemma alloc_free:
  assumes "rep s (p # ps)"
  shows "wp (bindK alloc free) (\<lambda>_ t. rep t (p # ps)) s"
proof -
  have "page s p" "p \<notin> set ps" using rep_page [OF assms] rep_distinct [OF assms] by auto
  with alloc_some [OF assms] show ?thesis
    by (auto simp: wp_rules elim!: wp_mono intro: wp_mono [OF free_ok])
qed

lemma free_alloc:
  assumes "rep s ps" and "page s p" and "p \<notin> set ps"
  shows "wp (seqK (free p) alloc) (\<lambda>r t. r = p \<and> rep t ps) s"
  using free_ok [OF assms] by (auto simp: wp_rules elim!: wp_mono intro: wp_mono [OF alloc_some])

lemma alloc_fails_only_when_empty:
  assumes "rep s ps"
  shows "wp alloc (\<lambda>r t. r = 0 \<longleftrightarrow> ps = []) s"
proof (cases ps)
  case Nil
  with assms show ?thesis by (auto intro: wp_mono [OF alloc_none])
next
  case (Cons p qs)
  with assms have "p \<noteq> 0" using rep_page page_nonzero by fastforce
  with assms Cons show ?thesis by (auto intro: wp_mono [OF alloc_some])
qed

end

section \<open>The code implements the contract\<close>

lemma kmem_ready_frame [simp]:
  "kmem_ready (s\<lparr>mem := m, freelist := a\<rparr>) = kmem_ready s" "kmem_ready (s\<lparr>freelist := a\<rparr>) = kmem_ready s"
  "kmem_ready (s\<lparr>mem := m\<rparr>) = kmem_ready s" "kmem_ready (s\<lparr>intena := i\<rparr>) = kmem_ready s"
  by (simp_all add: kmem_ready_def mach_ok_def free_lock_def)

lemma valid_page_frame [simp]:
  "valid_page (s\<lparr>mem := m, freelist := a\<rparr>) = valid_page s" "valid_page (s\<lparr>freelist := a\<rparr>) = valid_page s"
  "valid_page (s\<lparr>mem := m\<rparr>) = valid_page s"
  by (simp_all add: valid_page_def fun_eq_iff)

text \<open>After a critical section of the allocator only the saved interrupt flag may differ.\<close>

definition kmem_exit :: "'z kmem_st_scheme \<Rightarrow> 'z kmem_st_scheme" where
  "kmem_exit s = (if use_lock s then s\<lparr>intena := (if ncli s = 0 then ifl s else intena s)\<rparr> else s)"

lemma kmem_exit_simps [simp]:
  "mem (kmem_exit s) = mem s" "freelist (kmem_exit s) = freelist s" "kend (kmem_exit s) = kend s"
  "use_lock (kmem_exit s) = use_lock s" "kmem_ready (kmem_exit s) = kmem_ready s"
  "valid_page (kmem_exit s) = valid_page s"
  by (auto simp: kmem_exit_def kmem_ready_frame valid_page_def)

lemma kmem_exit_settled: "settled s \<Longrightarrow> kmem_exit s = s"
  by (simp add: kmem_exit_def settled_def)

lemma kmem_crit:
  assumes "kmem_ready s"
  shows "seqK kmem_acquire (seqK (modK (\<lambda>s. s\<lparr>mem := F (mem s) (freelist s), freelist := G (mem s) (freelist s)\<rparr>))
      kmem_release) s = Ok () (kmem_exit (s\<lparr>mem := F (mem s) (freelist s), freelist := G (mem s) (freelist s)\<rparr>))"
proof (cases "use_lock s")
  case True
  with assms have "free_lock L_kmem s" "mach_ok s" by (simp_all add: kmem_ready_def)
  with True show ?thesis
    by (auto simp: kdefs kmem_acquire_def kmem_release_def acquire_eq release_eq acquired_def
      released_def holding_def holding_by_def kmem_exit_def mach_ok_def
      intro!: kmem_st.equality) (simp_all add: free_lock_def)
next
  case False
  then show ?thesis by (simp add: kdefs kmem_acquire_def kmem_release_def kmem_exit_def)
qed

lemma kfree_eq:
  assumes "kmem_ready s"
  shows "kfree v s =
    (if valid_page s v
     then Ok () (kmem_exit (s\<lparr>mem := store64 (memset (mem s) v 1 4096) v (freelist s), freelist := v\<rparr>))
     else Panic ''kfree'')"
proof -
  let ?s = "s\<lparr>mem := memset (mem s) v 1 4096\<rparr>"
  have "kmem_ready ?s" using assms by (simp add: kmem_ready_def mach_ok_def free_lock_def)
  note crit = kmem_crit [OF this, where F = "\<lambda>m f. store64 m v f" and G = "\<lambda>_ _. v"]
  have guard: "(v mod PGSIZE \<noteq> 0 \<or> v < kend s \<or> v2p v \<ge> PHYSTOP) = (\<not> valid_page s v)"
    unfolding valid_page_def pg_aligned_def by (metis not_less)
  show ?thesis unfolding kfree_def bindK_def [of "getK kend"] getK_def res.case guard
    using crit by (simp add: seqK_def [of "modK (\<lambda>s. s\<lparr>mem := memset (mem s) v 1 4096\<rparr>)"]
      bindK_def [of "modK (\<lambda>s. s\<lparr>mem := memset (mem s) v 1 4096\<rparr>)"] modK_def [of _ s] panic_def)
qed

lemma kalloc_eq:
  assumes "kmem_ready s"
  shows "kalloc s = Ok (freelist s) (kmem_exit
    (if freelist s = 0 then s else s\<lparr>freelist := load64 (mem s) (freelist s)\<rparr>))"
proof (cases "use_lock s")
  case True
  with assms have "free_lock L_kmem s" "mach_ok s" by (simp_all add: kmem_ready_def)
  with True show ?thesis
    by (auto simp: kalloc_def kdefs kmem_acquire_def kmem_release_def acquire_eq release_eq acquired_def
      released_def holding_def holding_by_def kmem_exit_def mach_ok_def
      intro!: kmem_st.equality) (simp_all add: free_lock_def)
next
  case False
  then show ?thesis by (simp add: kalloc_def kdefs kmem_acquire_def kmem_release_def kmem_exit_def)
qed

interpretation kalloc: page_allocator kalloc kfree kmem_rep valid_page
proof unfold_locales
  fix s :: "'z kmem_st_scheme"
  show "wp kalloc (\<lambda>r t. r = 0 \<and> kmem_rep t []) s" if "kmem_rep s []"
    using that by (simp add: wp_def kmem_rep_def kalloc_eq)
next
  fix s :: "'z kmem_st_scheme" and p ps
  assume "kmem_rep s (p # ps)"
  then show "wp kalloc (\<lambda>r t. r = p \<and> kmem_rep t ps \<and> (\<forall>q. valid_page t q = valid_page s q)) s"
    by (auto simp: wp_def kmem_rep_def kalloc_eq)
next
  fix s :: "'z kmem_st_scheme" and p ps
  assume rep: "kmem_rep s ps" and p: "valid_page s p" "p \<notin> set ps"
  then have "flist (store64 (memset (mem s) p 1 4096) p (freelist s)) (freelist s) ps"
    by (intro flist_upd) (auto simp: kmem_rep_def valid_page_def)
  with rep p valid_page_neq_0 [OF p(1)]
  show "wp (kfree p) (\<lambda>_ t. kmem_rep t (p # ps) \<and> (\<forall>q. valid_page t q = valid_page s q)) s"
    by (auto simp: wp_def kmem_rep_def kfree_eq load64_store64)
qed (auto simp: kmem_rep_def valid_page_neq_0)

section \<open>Handing the boot memory to the allocator\<close>

definition range_pages :: "addr \<Rightarrow> nat \<Rightarrow> addr list" where
  "range_pages p n = map (\<lambda>i. p + of_nat i * PGSIZE) [0..<n]"

lemma range_pages_Suc: "range_pages p (Suc n) = p # range_pages (p + PGSIZE) n"
  by (simp add: range_pages_def upt_conv_Cons map_Suc_upt [symmetric] algebra_simps del: upt_Suc)

lemma freerange_loop_ok:
  assumes "kmem_rep s ps" "unat p + n * 4096 \<le> unat vend" "unat vend < unat p + Suc n * 4096"
    "unat p + Suc n * 4096 < 2 ^ 64"
    "\<forall>q \<in> set (range_pages p n). valid_page s q" "distinct (range_pages p n @ ps)"
  shows "wp (freerange_loop p vend) (\<lambda>_ t. kmem_rep t (rev (range_pages p n) @ ps)) s"
  using assms
proof (induction n arbitrary: p s ps)
  case 0
  then have "unat (p + PGSIZE) = unat p + 4096" by (simp add: PGSIZE_def unat_plus_if_size word_size)
  with 0 have "\<not> p + PGSIZE \<le> vend" by (simp add: word_le_nat_alt)
  then have "freerange_loop p vend s = Ok () s" by (subst freerange_loop.simps) simp
  with 0 show ?case by (simp add: wp_def range_pages_def)
next
  case (Suc n)
  have up: "unat (p + PGSIZE) = unat p + 4096"
    using Suc.prems(4) by (simp add: PGSIZE_def unat_plus_if_size word_size)
  with Suc.prems(2) have le: "p + PGSIZE \<le> vend" by (simp add: word_le_nat_alt)
  have "wp (kfree p) (\<lambda>_ t. kmem_rep t (p # ps) \<and> (\<forall>q. valid_page t q = valid_page s q)) s"
    using Suc.prems by (intro kalloc.free_ok) (auto simp: range_pages_Suc)
  then obtain u t where t: "kfree p s = Ok u t" "kmem_rep t (p # ps)" "\<forall>q. valid_page t q = valid_page s q"
    by (auto simp: wp_returns)
  have "wp (freerange_loop (p + PGSIZE) vend)
      (\<lambda>_ t. kmem_rep t (rev (range_pages (p + PGSIZE) n) @ p # ps)) t"
    using t Suc.prems up by (intro Suc.IH) (auto simp: range_pages_Suc)
  moreover have "freerange_loop p vend s = freerange_loop (p + PGSIZE) vend t"
    using le by (subst freerange_loop.simps) (simp add: t(1))
  ultimately show ?case by (simp add: wp_def range_pages_Suc)
qed

section \<open>Properties\<close>

text \<open>
  C4. The allocator is a stack of pages. When the free list represents the pages \<open>ps\<close>, kalloc
  returns 0 exactly when there is none and otherwise removes and returns the first, without
  touching memory; kfree pushes any valid page that is not already free; it panics on every
  address that is unaligned, below the kernel's end or beyond PHYSTOP; and freeing a page
  and allocating again gives that page back with the rest of the list unchanged.
\<close>

theorem kalloc_is_page_stack:
  assumes "kmem_rep s ps"
  shows "wp kalloc (\<lambda>r t. r = (case ps of [] \<Rightarrow> 0 | p # _ \<Rightarrow> p) \<and> (r = 0 \<longleftrightarrow> ps = [])
           \<and> kmem_rep t (tl ps) \<and> mem t = mem s) s
    \<and> (\<forall>p. valid_page s p \<and> p \<notin> set ps \<longrightarrow>
           wp (kfree p) (\<lambda>_ t. kmem_rep t (p # ps)) s
         \<and> wp (seqK (kfree p) kalloc) (\<lambda>r t. r = p \<and> kmem_rep t ps) s)
    \<and> (\<forall>p. \<not> valid_page s p \<longrightarrow> kfree p s = Panic ''kfree'')"
proof (intro conjI allI impI)
  have "wp kalloc (\<lambda>r t. r = (case ps of [] \<Rightarrow> 0 | p # _ \<Rightarrow> p) \<and> kmem_rep t (tl ps)) s"
    using assms by (cases ps) (auto intro: wp_mono [OF kalloc.alloc_none] wp_mono [OF kalloc.alloc_some])
  moreover have "wp kalloc (\<lambda>r t. mem t = mem s) s"
    using assms by (simp add: kmem_rep_def wp_def kalloc_eq)
  ultimately show "wp kalloc (\<lambda>r t. r = (case ps of [] \<Rightarrow> 0 | p # _ \<Rightarrow> p) \<and> (r = 0 \<longleftrightarrow> ps = [])
      \<and> kmem_rep t (tl ps) \<and> mem t = mem s) s"
    using kalloc.alloc_fails_only_when_empty [OF assms] by (auto simp: wp_returns)
next
  fix p assume p: "valid_page s p \<and> p \<notin> set ps"
  with assms show "wp (kfree p) (\<lambda>_ t. kmem_rep t (p # ps)) s"
    by (auto intro: wp_mono [OF kalloc.free_ok])
  from p assms show "wp (seqK (kfree p) kalloc) (\<lambda>r t. r = p \<and> kmem_rep t ps) s"
    by (intro kalloc.free_alloc) auto
next
  fix p assume "\<not> valid_page s p"
  with assms show "kfree p s = Panic ''kfree''" by (simp add: kmem_rep_def kfree_eq)
qed

definition kmem_boot :: "kmem_st" where
  "kmem_boot = \<lparr>cpu = 0, ncli = 0, intena = False, ifl = False,
     locks = (\<lambda>_. \<lparr>locked = 0, lname = ''kmem'', lcpu = None\<rparr>), mem = (\<lambda>_. 0),
     kend = 0xFFFFFFFF80110000, use_lock = True, freelist = 0\<rparr>"

lemma kmem_boot_rep: "kmem_rep kmem_boot []"
  by (simp add: kmem_rep_def kmem_boot_def kmem_ready_def mach_ok_def free_lock_def)

theorem kalloc_is_page_stack_witness:
  "kmem_rep kmem_boot [] \<and> valid_page kmem_boot 0xFFFFFFFF80200000
   \<and> wp (kfree 0xFFFFFFFF80200000) (\<lambda>_ t. kmem_rep t [0xFFFFFFFF80200000]) kmem_boot"
proof -
  have v: "valid_page kmem_boot 0xFFFFFFFF80200000"
    by (simp add: kmem_boot_def valid_page_def pg_aligned_def PGSIZE_def v2p_def KERNBASE_def PHYSTOP_def)
  with kalloc_is_page_stack [OF kmem_boot_rep] kmem_boot_rep show ?thesis by auto
qed

text \<open>
  C5. freerange hands over every whole page between the rounded-up start and the end, each
  exactly once: with \<open>n\<close> the number of whole pages in the range, the free list becomes
  those \<open>n\<close> pages, last one first, in front of what was free before.
\<close>

theorem freerange_frees_whole_pages:
  assumes "kmem_rep s ps"
    and "unat (PGROUNDUP vstart) + n * 4096 \<le> unat vend"
    and "unat vend < unat (PGROUNDUP vstart) + Suc n * 4096"
    and "unat (PGROUNDUP vstart) + Suc n * 4096 < 2 ^ 64"
    and "list_all (valid_page s) (range_pages (PGROUNDUP vstart) n)"
    and "distinct (range_pages (PGROUNDUP vstart) n @ ps)"
  shows "wp (freerange vstart vend) (\<lambda>_ t. kmem_rep t (rev (range_pages (PGROUNDUP vstart) n) @ ps)) s"
  unfolding freerange_def using assms by (intro freerange_loop_ok) (auto simp: list_all_iff)

theorem freerange_frees_whole_pages_witness:
  "PGROUNDUP 0xFFFFFFFF80200010 = 0xFFFFFFFF80201000
   \<and> wp (freerange 0xFFFFFFFF80200010 0xFFFFFFFF80203800)
      (\<lambda>_ t. kmem_rep t [0xFFFFFFFF80202000, 0xFFFFFFFF80201000]) kmem_boot"
proof -
  have r: "PGROUNDUP 0xFFFFFFFF80200010 = 0xFFFFFFFF80201000"
    by (simp add: PGROUNDUP_def PGSIZE_def)
  have l: "range_pages 0xFFFFFFFF80201000 2 = [0xFFFFFFFF80201000, 0xFFFFFFFF80202000]"
    by (simp add: range_pages_def PGSIZE_def eval_nat_numeral)
  have "wp (freerange 0xFFFFFFFF80200010 0xFFFFFFFF80203800)
      (\<lambda>_ t. kmem_rep t (rev (range_pages (PGROUNDUP 0xFFFFFFFF80200010) 2) @ [])) kmem_boot"
    using kmem_boot_rep by (intro freerange_frees_whole_pages) (simp_all add: r l, simp_all add:
      kmem_boot_def valid_page_def pg_aligned_def PGSIZE_def v2p_def KERNBASE_def PHYSTOP_def)
  then show ?thesis by (simp add: r l)
qed

end
