(* ===== verification/Sched.thy ===== *)
theory Sched
  imports Kalloc
begin

text \<open>
  The part of \<^verbatim>\<open>kernel/proc.c\<close> that every blocking component calls: the process table, \<^verbatim>\<open>sched\<close>,
  \<^verbatim>\<open>sleep\<close>, \<^verbatim>\<open>wakeup\<close>, \<^verbatim>\<open>yield\<close> and \<^verbatim>\<open>kill\<close>. Giving up the processor is the outcome \<open>Swtch\<close>;
  the code after the switch is a definition of its own (\<open>sched_resume\<close>, \<open>sleep_resume\<close>,
  \<open>yield_resume\<close>). The second half interleaves \<^verbatim>\<open>sleep\<close> and \<^verbatim>\<open>wakeup\<close> on several processes and
  shows that no wakeup is lost; the locale \<open>monitor\<close> is the discipline that the callers of
  the two have to follow.
\<close>

section \<open>The process table\<close>

datatype procstate = UNUSED | EMBRYO | SLEEPING | RUNNABLE | RUNNING | ZOMBIE

text \<open>The addresses that the kernel passes to \<^verbatim>\<open>sleep\<close> and \<^verbatim>\<open>wakeup\<close>.\<close>

datatype chan =
    ChBuf nat
  | ChInode nat
  | ChLog
  | ChProc nat
  | ChTicks
  | ChPipeRead addr
  | ChPipeWrite addr
  | ChInput

text \<open>
  \<^verbatim>\<open>struct proc\<close>. Pointers into the static tables are indices (\<open>None\<close> is the null pointer);
  \<^verbatim>\<open>kstack\<close>, \<^verbatim>\<open>tf\<close> and \<^verbatim>\<open>context\<close> are addresses in kernel memory.
\<close>

record proc =
  sz :: uintp
  pgdir :: addr
  kstack :: addr
  pstate :: procstate
  pid :: uint
  parent :: "nat option"
  tf :: addr
  pcontext :: addr
  pchan :: "chan option"
  killed :: uint
  ofile :: "nat option list"
  cwd :: "nat option"
  pname :: "byte list"
  inuse :: uint
  pticks :: uint
  tickets :: uint

definition NPROC :: nat where
  "NPROC = 64"

definition NOFILE :: nat where
  "NOFILE = 16"

record sched_st = kmem_st +
  ptable :: "proc list"
  curproc :: "nat option"
  initproc :: "nat option"
  nextpid :: uint

text \<open>\<^verbatim>\<open>proc\<close>, the running process of this processor, and an assignment through it.\<close>

definition myproc :: "'z sched_st_scheme \<Rightarrow> proc" where
  "myproc s = ptable s ! the (curproc s)"

definition upd_proc :: "nat \<Rightarrow> (proc \<Rightarrow> proc) \<Rightarrow> 'z sched_st_scheme \<Rightarrow> 'z sched_st_scheme" where
  "upd_proc i f s = s\<lparr>ptable := (ptable s)[i := f (ptable s ! i)]\<rparr>"

definition upd_myproc :: "(proc \<Rightarrow> proc) \<Rightarrow> (unit, 'z sched_st_scheme) kern" where
  "upd_myproc f = modK (\<lambda>s. upd_proc (the (curproc s)) f s)"

section \<open>Operations\<close>

definition pinit :: "(unit, 'z sched_st_scheme) kern" where
  "pinit = initlock L_ptable ''ptable''"

text \<open>
  \<^verbatim>\<open>sched\<close> up to \<^verbatim>\<open>swtch\<close>: it never returns, so it stands for a result of any type, and the
  caller's code after the switch is a separate definition. The local variable \<^verbatim>\<open>intena\<close> survives on the kernel stack and is
  the argument of the second half.
\<close>

definition sched :: "('a, 'z sched_st_scheme) kern" where
  "sched s =
    (if \<not> holding L_ptable s then Panic ''sched ptable.lock''
     else if ncli s \<noteq> 1 then Panic ''sched locks''
     else if pstate (myproc s) = RUNNING then Panic ''sched running''
     else if ifl s then Panic ''sched interruptible''
     else Swtch s)"

definition sched_resume :: "bool \<Rightarrow> (unit, 'z sched_st_scheme) kern" where
  "sched_resume saved = modK (\<lambda>s. s\<lparr>intena := saved\<rparr>)"

definition yield :: "('a, 'z sched_st_scheme) kern" where
  "yield =
    seqK (acquire L_ptable)
   (seqK (upd_myproc (\<lambda>p. p\<lparr>pstate := RUNNABLE\<rparr>))
         sched)"

definition yield_resume :: "bool \<Rightarrow> (unit, 'z sched_st_scheme) kern" where
  "yield_resume saved = seqK (sched_resume saved) (release L_ptable)"

text \<open>The two assignments that put a process to sleep on a channel.\<close>

definition sleep_mark :: "chan \<Rightarrow> proc \<Rightarrow> proc" where
  "sleep_mark ch p = p\<lparr>pchan := Some ch, pstate := SLEEPING\<rparr>"

definition sleep :: "chan \<Rightarrow> lockid option \<Rightarrow> ('a, 'z sched_st_scheme) kern" where
  "sleep ch lko =
    bindK (getK curproc) (\<lambda>c.
      if c = None then panic ''sleep''
      else case lko of
        None \<Rightarrow> panic ''sleep without lk''
      | Some lk \<Rightarrow>
          seqK (whenK (lk \<noteq> L_ptable) (seqK (acquire L_ptable) (release lk)))
         (seqK (upd_myproc (sleep_mark ch))
               sched))"

definition sleep_resume :: "lockid \<Rightarrow> bool \<Rightarrow> (unit, 'z sched_st_scheme) kern" where
  "sleep_resume lk saved =
    seqK (sched_resume saved)
   (seqK (upd_myproc (\<lambda>p. p\<lparr>pchan := None\<rparr>))
         (whenK (lk \<noteq> L_ptable) (seqK (release L_ptable) (acquire lk))))"

text \<open>The loop of \<^verbatim>\<open>wakeup1\<close> visits each slot once and looks only at that slot.\<close>

definition wake_proc :: "chan \<Rightarrow> proc \<Rightarrow> proc" where
  "wake_proc ch p = (if pstate p = SLEEPING \<and> pchan p = Some ch then p\<lparr>pstate := RUNNABLE\<rparr> else p)"

definition wakeup1 :: "chan \<Rightarrow> (unit, 'z sched_st_scheme) kern" where
  "wakeup1 ch = modK (\<lambda>s. s\<lparr>ptable := map (wake_proc ch) (ptable s)\<rparr>)"

definition wakeup :: "chan \<Rightarrow> (unit, 'z sched_st_scheme) kern" where
  "wakeup ch = seqK (acquire L_ptable) (seqK (wakeup1 ch) (release L_ptable))"

text \<open>\<^verbatim>\<open>kill\<close> stops at the first slot with the pid; \<open>None\<close> when the scan falls off the table.\<close>

definition kill_proc :: "proc \<Rightarrow> proc" where
  "kill_proc p = (let q = p\<lparr>killed := 1\<rparr> in if pstate q = SLEEPING then q\<lparr>pstate := RUNNABLE\<rparr> else q)"

fun kill_scan :: "uint \<Rightarrow> proc list \<Rightarrow> proc list option" where
  "kill_scan n [] = None"
| "kill_scan n (p # ps) =
    (if pid p = n then Some (kill_proc p # ps) else map_option ((#) p) (kill_scan n ps))"

definition kill :: "uint \<Rightarrow> (uint, 'z sched_st_scheme) kern" where
  "kill n =
    seqK (acquire L_ptable)
   (bindK (getK ptable) (\<lambda>tab.
      case kill_scan n tab of
        Some tab' \<Rightarrow> seqK (modK (\<lambda>s. s\<lparr>ptable := tab'\<rparr>)) (seqK (release L_ptable) (ret 0))
      | None \<Rightarrow> seqK (release L_ptable) (ret (- 1))))"

section \<open>Behaviour of the operations\<close>

lemma sched_fields_acquired [simp]:
  "ptable (acquired l s) = ptable s" "curproc (acquired l s) = curproc s"
  "myproc (acquired l s) = myproc s"
  by (simp_all add: acquired_def myproc_def)

lemma wakeup_eq:
  "settled s \<Longrightarrow> free_lock L_ptable s \<Longrightarrow>
   wakeup ch s = Ok () (s\<lparr>ptable := map (wake_proc ch) (ptable s)\<rparr>)"
  unfolding wakeup_def wakeup1_def
  by (rule crit_modK) (simp_all add: above_mach_def)

lemma kill_eq:
  assumes "settled s" "free_lock L_ptable s"
  shows "kill n s = (case kill_scan n (ptable s) of
      Some tab' \<Rightarrow> Ok 0 (s\<lparr>ptable := tab'\<rparr>) | None \<Rightarrow> Ok (- 1) s)"
proof (cases "kill_scan n (ptable s)")
  case None
  with assms show ?thesis by (simp add: kill_def kdefs acquire_free crit_release_id)
next
  case (Some tab')
  with assms crit_release [OF assms, where f = "\<lambda>s. s\<lparr>ptable := tab'\<rparr>"] show ?thesis
    by (simp add: kill_def kdefs acquire_free above_mach_def)
qed

lemma kill_scan_None: "kill_scan n ps = None \<longleftrightarrow> n \<notin> pid ` set ps"
  by (induction ps) auto

lemma kill_scan_Some:
  "kill_scan n ps = Some qs \<Longrightarrow> \<exists>i < length ps. pid (ps ! i) = n \<and> (\<forall>j < i. pid (ps ! j) \<noteq> n)
     \<and> qs = ps[i := kill_proc (ps ! i)]"
proof (induction ps arbitrary: qs)
  case (Cons p ps)
  show ?case
  proof (cases "pid p = n")
    case True
    with Cons.prems show ?thesis by (intro exI [of _ 0]) simp
  next
    case False
    with Cons.prems obtain rs where "kill_scan n ps = Some rs" "qs = p # rs" by auto
    with Cons.IH obtain i where "i < length ps" "pid (ps ! i) = n" "\<forall>j < i. pid (ps ! j) \<noteq> n"
      "rs = ps[i := kill_proc (ps ! i)]" by blast
    with False \<open>qs = p # rs\<close> show ?thesis
      by (intro exI [of _ "Suc i"]) (auto simp: less_Suc_eq_0_disj)
  qed
qed simp

text \<open>
  \<^verbatim>\<open>sleep\<close> entered with exactly the lock \<open>lk\<close> held (nesting depth 1, interrupts off) reaches
  \<^verbatim>\<open>swtch\<close> with exactly \<^verbatim>\<open>ptable.lock\<close> held.
\<close>

definition only_held :: "lockid \<Rightarrow> 'z mach_scheme \<Rightarrow> bool" where
  "only_held l s \<longleftrightarrow> holding l s \<and> ncli s = 1 \<and> \<not> ifl s \<and> (\<forall>k. k \<noteq> l \<longrightarrow> free_lock k s)"

lemma sleep_other_lock:
  assumes "only_held l s" "l \<noteq> L_ptable" "curproc s = Some i" "i < length (ptable s)"
  shows "\<exists>t. sleep ch (Some l) s = Swtch t \<and> only_held L_ptable t
     \<and> ptable t = (ptable s)[i := sleep_mark ch (ptable s ! i)] \<and> curproc t = Some i"
  using assms
  by (auto simp: sleep_def upd_myproc_def upd_proc_def kdefs acquire_eq release_eq acquired_def released_def
      only_held_def holding_def holding_by_def free_lock_def sched_def myproc_def sleep_mark_def)

lemma sleep_swtch:
  assumes "only_held l s" "l \<noteq> L_ptable" "curproc s = Some i" "i < length (ptable s)"
  shows "sleep ch (Some l) s = Swtch ((released l (acquired L_ptable s))\<lparr>ptable := (ptable s)[i := sleep_mark ch (ptable s ! i)]\<rparr>)"
  using assms
  by (auto simp: sleep_def upd_myproc_def upd_proc_def kdefs acquire_eq release_eq acquired_def released_def
      only_held_def holding_def holding_by_def free_lock_def sched_def myproc_def sleep_mark_def)

lemma only_held_acquired: "idle s \<Longrightarrow> only_held l (acquired l s)"
  by (auto simp: idle_def only_held_def)

lemma only_held_cong:
  "cpu t = cpu s \<Longrightarrow> ncli t = ncli s \<Longrightarrow> ifl t = ifl s \<Longrightarrow> locks t = locks s \<Longrightarrow> only_held l t = only_held l s"
  by (simp add: only_held_def holding_def free_lock_def)

lemma sleep_ptable_lock:
  assumes "only_held L_ptable s" "curproc s = Some i" "i < length (ptable s)"
  shows "sleep ch (Some L_ptable) s = Swtch (s\<lparr>ptable := (ptable s)[i := sleep_mark ch (ptable s ! i)]\<rparr>)"
  using assms
  by (auto simp: sleep_def upd_myproc_def upd_proc_def kdefs
      only_held_def holding_def holding_by_def sched_def myproc_def sleep_mark_def)

section \<open>Sleeping and waking, interleaved\<close>

text \<open>
  Any number of processes share data \<open>'d\<close> protected by one lock \<^verbatim>\<open>lk\<close>, wait for the condition
  \<open>ready\<close> with \<^verbatim>\<open>sleep(ch, lk)\<close>, and signal changes with \<^verbatim>\<open>wakeup(ch)\<close> while they hold \<^verbatim>\<open>lk\<close>, the
  pattern of \<^verbatim>\<open>pipe.c\<close>, \<^verbatim>\<open>log.c\<close>, \<^verbatim>\<open>bio.c\<close> and \<^verbatim>\<open>console.c\<close>. A program point lies between two
  accesses to shared memory:

    \<^item> \<open>P_out\<close>: not using the lock; \<open>P_crit\<close>: holding \<^verbatim>\<open>lk\<close>;
    \<^item> in \<^verbatim>\<open>sleep\<close>: \<open>S_acqp\<close> before acquiring \<^verbatim>\<open>ptable.lock\<close>, \<open>S_rel\<close> before releasing \<^verbatim>\<open>lk\<close>, \<open>S_mark\<close>
      before \<open>chan\<close> and \<open>state\<close> are written, \<open>S_switch\<close> in \<^verbatim>\<open>sched\<close> (the scheduler releases
      \<^verbatim>\<open>ptable.lock\<close>), \<open>S_asleep\<close> switched out, \<open>S_wake\<close> resumed with \<^verbatim>\<open>ptable.lock\<close> held by the
      scheduler on its behalf, \<open>S_relock\<close> before acquiring \<^verbatim>\<open>lk\<close> again;
    \<^item> in \<^verbatim>\<open>wakeup\<close>: \<open>W_acqp\<close> before acquiring \<^verbatim>\<open>ptable.lock\<close>, \<open>W_scan\<close> before the scan of the table,
      \<open>W_relp\<close> before the release.

  The parameters are the condition, the updates that are followed by a wakeup (\<open>sig\<close>) and
  those that are not (\<open>sil\<close>).
\<close>

datatype mpc = P_out | P_crit | S_acqp | S_rel | S_mark | S_switch | S_asleep | S_wake | S_relock
  | W_acqp | W_scan | W_relp

record 'd msys =
  mdata :: 'd
  mlk :: "nat option"
  mpt :: "nat option"
  mtab :: "proc list"
  mpcs :: "nat \<Rightarrow> mpc"

inductive mstep :: "('d \<Rightarrow> bool) \<Rightarrow> ('d \<Rightarrow> 'd \<Rightarrow> bool) \<Rightarrow> ('d \<Rightarrow> 'd \<Rightarrow> bool) \<Rightarrow> chan
    \<Rightarrow> 'd msys \<Rightarrow> 'd msys \<Rightarrow> bool"
  for ready sig sil ch where
  enter: "mpcs s t = P_out \<Longrightarrow> t < length (mtab s) \<Longrightarrow> mlk s = None \<Longrightarrow>
    mstep ready sig sil ch s (s\<lparr>mlk := Some t, mpcs := (mpcs s)(t := P_crit)\<rparr>)"
| leave: "mpcs s t = P_crit \<Longrightarrow>
    mstep ready sig sil ch s (s\<lparr>mlk := None, mpcs := (mpcs s)(t := P_out)\<rparr>)"
| silent: "mpcs s t = P_crit \<Longrightarrow> sil (mdata s) d \<Longrightarrow>
    mstep ready sig sil ch s (s\<lparr>mdata := d\<rparr>)"
| signal: "mpcs s t = P_crit \<Longrightarrow> sig (mdata s) d \<Longrightarrow>
    mstep ready sig sil ch s (s\<lparr>mdata := d, mpcs := (mpcs s)(t := W_acqp)\<rparr>)"
| block: "mpcs s t = P_crit \<Longrightarrow> \<not> ready (mdata s) \<Longrightarrow>
    mstep ready sig sil ch s (s\<lparr>mpcs := (mpcs s)(t := S_acqp)\<rparr>)"
| sleep_acquire: "mpcs s t = S_acqp \<Longrightarrow> mpt s = None \<Longrightarrow>
    mstep ready sig sil ch s (s\<lparr>mpt := Some t, mpcs := (mpcs s)(t := S_rel)\<rparr>)"
| sleep_release: "mpcs s t = S_rel \<Longrightarrow>
    mstep ready sig sil ch s (s\<lparr>mlk := None, mpcs := (mpcs s)(t := S_mark)\<rparr>)"
| sleep_mark: "mpcs s t = S_mark \<Longrightarrow>
    mstep ready sig sil ch s
      (s\<lparr>mtab := (mtab s)[t := sleep_mark ch (mtab s ! t)], mpcs := (mpcs s)(t := S_switch)\<rparr>)"
| sleep_switch: "mpcs s t = S_switch \<Longrightarrow>
    mstep ready sig sil ch s (s\<lparr>mpt := None, mpcs := (mpcs s)(t := S_asleep)\<rparr>)"
| resume: "mpcs s t = S_asleep \<Longrightarrow> mpt s = None \<Longrightarrow> pstate (mtab s ! t) = RUNNABLE \<Longrightarrow>
    mstep ready sig sil ch s (s\<lparr>mpt := Some t,
      mtab := (mtab s)[t := (mtab s ! t)\<lparr>pstate := RUNNING\<rparr>], mpcs := (mpcs s)(t := S_wake)\<rparr>)"
| sleep_tidy: "mpcs s t = S_wake \<Longrightarrow>
    mstep ready sig sil ch s (s\<lparr>mpt := None,
      mtab := (mtab s)[t := (mtab s ! t)\<lparr>pchan := None\<rparr>], mpcs := (mpcs s)(t := S_relock)\<rparr>)"
| sleep_relock: "mpcs s t = S_relock \<Longrightarrow> mlk s = None \<Longrightarrow>
    mstep ready sig sil ch s (s\<lparr>mlk := Some t, mpcs := (mpcs s)(t := P_crit)\<rparr>)"
| wakeup_acquire: "mpcs s t = W_acqp \<Longrightarrow> mpt s = None \<Longrightarrow>
    mstep ready sig sil ch s (s\<lparr>mpt := Some t, mpcs := (mpcs s)(t := W_scan)\<rparr>)"
| wakeup_scan: "mpcs s t = W_scan \<Longrightarrow>
    mstep ready sig sil ch s
      (s\<lparr>mtab := map (wake_proc ch) (mtab s), mpcs := (mpcs s)(t := W_relp)\<rparr>)"
| wakeup_release: "mpcs s t = W_relp \<Longrightarrow>
    mstep ready sig sil ch s (s\<lparr>mpt := None, mpcs := (mpcs s)(t := P_crit)\<rparr>)"
| killed: "mpt s = None \<Longrightarrow> kill_scan n (mtab s) = Some tab \<Longrightarrow>
    mstep ready sig sil ch s (s\<lparr>mtab := tab\<rparr>)"

text \<open>All processes start outside, running, with some initial data.\<close>

definition msys_init :: "'d \<Rightarrow> proc list \<Rightarrow> 'd msys \<Rightarrow> bool" where
  "msys_init d0 tab0 s \<longleftrightarrow> s = \<lparr>mdata = d0, mlk = None, mpt = None, mtab = tab0, mpcs = (\<lambda>_. P_out)\<rparr>
     \<and> list_all (\<lambda>p. pstate p = RUNNING) tab0"

inductive mreach :: "('d \<Rightarrow> bool) \<Rightarrow> ('d \<Rightarrow> 'd \<Rightarrow> bool) \<Rightarrow> ('d \<Rightarrow> 'd \<Rightarrow> bool) \<Rightarrow> chan \<Rightarrow> 'd msys \<Rightarrow> bool"
  for ready sig sil ch where
  start: "msys_init d0 tab0 s \<Longrightarrow> mreach ready sig sil ch s"
| step: "mreach ready sig sil ch s \<Longrightarrow> mstep ready sig sil ch s s' \<Longrightarrow> mreach ready sig sil ch s'"

fun has_lk :: "mpc \<Rightarrow> bool" where
  "has_lk P_crit = True"
| "has_lk S_acqp = True"
| "has_lk S_rel = True"
| "has_lk W_acqp = True"
| "has_lk W_scan = True"
| "has_lk W_relp = True"
| "has_lk _ = False"

fun has_pt :: "mpc \<Rightarrow> bool" where
  "has_pt S_rel = True"
| "has_pt S_mark = True"
| "has_pt S_switch = True"
| "has_pt S_wake = True"
| "has_pt W_scan = True"
| "has_pt W_relp = True"
| "has_pt _ = False"

definition asleep_on :: "chan \<Rightarrow> proc list \<Rightarrow> nat \<Rightarrow> bool" where
  "asleep_on ch tab t \<longleftrightarrow> t < length tab \<and> pstate (tab ! t) = SLEEPING \<and> pchan (tab ! t) = Some ch"

text \<open>A wakeup is on its way: some process has changed the data and not yet scanned the table.\<close>

definition wake_pending :: "'d msys \<Rightarrow> bool" where
  "wake_pending s \<longleftrightarrow> (\<exists>w. mpcs s w = W_acqp \<or> mpcs s w = W_scan)"

text \<open>Who holds which lock at which point, and that only slots of the table run.\<close>

definition mutex_inv :: "'d msys \<Rightarrow> bool" where
  "mutex_inv s \<longleftrightarrow>
     (\<forall>t. has_lk (mpcs s t) \<longleftrightarrow> mlk s = Some t)
   \<and> (\<forall>t. has_pt (mpcs s t) \<longleftrightarrow> mpt s = Some t)
   \<and> (\<forall>t. mpcs s t \<noteq> P_out \<longrightarrow> t < length (mtab s))"

text \<open>A process is asleep only inside \<^verbatim>\<open>sleep\<close>.\<close>

definition place_inv :: "chan \<Rightarrow> 'd msys \<Rightarrow> bool" where
  "place_inv ch s \<longleftrightarrow> (\<forall>t. asleep_on ch (mtab s) t \<longrightarrow> mpcs s t = S_switch \<or> mpcs s t = S_asleep)"

text \<open>
  Nobody waits for a condition that already holds: before \<^verbatim>\<open>lk\<close> is released the condition is
  false; from then on, if it has become true, a wakeup is pending.
\<close>

definition wait_inv :: "('d \<Rightarrow> bool) \<Rightarrow> chan \<Rightarrow> 'd msys \<Rightarrow> bool" where
  "wait_inv ready ch s \<longleftrightarrow>
     (\<forall>t. mpcs s t = S_acqp \<or> mpcs s t = S_rel \<longrightarrow> \<not> ready (mdata s))
   \<and> (\<forall>t. mpcs s t = S_mark \<or> asleep_on ch (mtab s) t \<longrightarrow> ready (mdata s) \<longrightarrow> wake_pending s)"

lemma mutexD:
  assumes "mutex_inv s" "mpcs s t = p"
  shows "has_lk p = (mlk s = Some t)" "has_pt p = (mpt s = Some t)" "p = P_out \<or> t < length (mtab s)"
  using assms by (auto simp: mutex_inv_def)

lemma mutex_upd:
  assumes "mutex_inv s" "mpcs s' = (mpcs s)(t := p)" "length (mtab s') = length (mtab s)" "t < length (mtab s)"
    and "mlk s' = (if has_lk p then Some t else if has_lk (mpcs s t) then None else mlk s)"
    and "mpt s' = (if has_pt p then Some t else if has_pt (mpcs s t) then None else mpt s)"
    and "has_lk p \<Longrightarrow> has_lk (mpcs s t) \<or> mlk s = None"
    and "has_pt p \<Longrightarrow> has_pt (mpcs s t) \<or> mpt s = None"
  shows "mutex_inv s'"
  using assms mutexD(1,2) [OF assms(1) refl, of t] by (auto simp: mutex_inv_def)

lemma mutex_step: "mstep ready sig sil ch s s' \<Longrightarrow> mutex_inv s \<Longrightarrow> mutex_inv s'"
proof (induction rule: mstep.induct)
  case (killed s n tab)
  then show ?case by (auto simp: mutex_inv_def dest!: kill_scan_Some)
next
  case (silent s t d)
  then show ?case by (simp add: mutex_inv_def)
next
  case (enter s t)
  show ?case by (rule mutex_upd [of s _ t P_crit]) (insert enter mutexD(2) [of s t P_out], simp_all)
qed (frule (1) mutexD(1), frule (1) mutexD(2), frule (1) mutexD(3), rule mutex_upd, assumption, simp, simp, simp, simp, simp, simp, simp)+

lemma wake_proc_sel [simp]:
  "pchan (wake_proc ch p) = pchan p" "pid (wake_proc ch p) = pid p"
  by (auto simp: wake_proc_def)

lemma asleep_on_wake [simp]: "\<not> asleep_on ch (map (wake_proc ch) tab) t"
  by (auto simp: asleep_on_def wake_proc_def)

lemma asleep_on_kill:
  "kill_scan n tab = Some tab' \<Longrightarrow> asleep_on ch tab' t \<Longrightarrow> asleep_on ch tab t"
  by (auto simp: asleep_on_def kill_proc_def Let_def nth_list_update split: if_splits dest!: kill_scan_Some)

lemma asleep_on_upd:
  "asleep_on ch (tab[t := (tab ! t)\<lparr>pstate := RUNNING\<rparr>]) u \<Longrightarrow> u \<noteq> t \<and> asleep_on ch tab u"
  "asleep_on ch (tab[t := (tab ! t)\<lparr>pchan := None\<rparr>]) u \<Longrightarrow> u \<noteq> t \<and> asleep_on ch tab u"
  "asleep_on ch (tab[t := sleep_mark ch (tab ! t)]) u \<Longrightarrow> u = t \<or> asleep_on ch tab u"
  by (cases "u = t"; auto simp: asleep_on_def)+

lemma place_step: "mstep ready sig sil ch s s' \<Longrightarrow> mutex_inv s \<Longrightarrow> place_inv ch s \<Longrightarrow> place_inv ch s'"
  by (induction rule: mstep.induct)
     (fastforce simp: place_inv_def dest: asleep_on_kill asleep_on_upd)+

lemma lk_unique: "mutex_inv s \<Longrightarrow> has_lk (mpcs s t) \<Longrightarrow> has_lk (mpcs s u) \<Longrightarrow> t = u"
  by (auto simp: mutex_inv_def)

lemma pt_unique: "mutex_inv s \<Longrightarrow> has_pt (mpcs s t) \<Longrightarrow> has_pt (mpcs s u) \<Longrightarrow> t = u"
  by (auto simp: mutex_inv_def)

lemma wake_pending_upd:
  assumes "wake_pending s" "mpcs s' = (mpcs s)(t := p)"
    "(p = W_acqp \<or> p = W_scan) \<or> (mpcs s t \<noteq> W_acqp \<and> mpcs s t \<noteq> W_scan)"
  shows "wake_pending s'"
  using assms by (fastforce simp: wake_pending_def)

lemma wait_upd:
  assumes "wait_inv ready ch s" "mpcs s' = (mpcs s)(t := p)" "mdata s' = mdata s"
    "(p = W_acqp \<or> p = W_scan) \<or> (mpcs s t \<noteq> W_acqp \<and> mpcs s t \<noteq> W_scan)"
    "p = S_acqp \<or> p = S_rel \<Longrightarrow> \<not> ready (mdata s)"
    "p = S_mark \<Longrightarrow> ready (mdata s) \<Longrightarrow> wake_pending s"
    "\<And>u. asleep_on ch (mtab s') u \<Longrightarrow> asleep_on ch (mtab s) u \<or> mpcs s u = S_mark"
  shows "wait_inv ready ch s'"
  unfolding wait_inv_def
proof (intro conjI allI impI)
  fix u assume "mpcs s' u = S_acqp \<or> mpcs s' u = S_rel"
  with assms show "\<not> ready (mdata s')" by (cases "u = t") (auto simp: wait_inv_def)
next
  fix u assume u: "mpcs s' u = S_mark \<or> asleep_on ch (mtab s') u" and r: "ready (mdata s')"
  have "wake_pending s"
  proof (cases "asleep_on ch (mtab s') u")
    case True
    with assms(1,3,7) r show ?thesis by (auto simp: wait_inv_def)
  next
    case False
    with u assms(1-3,6) r show ?thesis by (cases "u = t") (auto simp: wait_inv_def)
  qed
  from wake_pending_upd [OF this assms(2,4)] show "wake_pending s'" .
qed

lemma lk_excl:
  assumes "mutex_inv s" "has_lk (mpcs s t)" "mpcs s t \<noteq> p" "has_lk p"
  shows "mpcs s u \<noteq> p"
  using lk_unique [OF assms(1,2), of u] assms(3,4) by auto

lemma pt_excl:
  assumes "mutex_inv s" "has_pt (mpcs s t)" "mpcs s t \<noteq> p" "has_pt p"
  shows "mpcs s u \<noteq> p"
  using pt_unique [OF assms(1,2), of u] assms(3,4) by auto

section \<open>The discipline of the callers\<close>

text \<open>
  What a component that uses \<^verbatim>\<open>sleep\<close> and \<^verbatim>\<open>wakeup\<close> has to guarantee: an update that is not
  followed by a wakeup never makes the awaited condition true.
\<close>

locale monitor =
  fixes ready :: "'d \<Rightarrow> bool"
    and sig :: "'d \<Rightarrow> 'd \<Rightarrow> bool"
    and sil :: "'d \<Rightarrow> 'd \<Rightarrow> bool"
    and ch :: chan
  assumes silent_keeps: "sil d d' \<Longrightarrow> ready d' \<Longrightarrow> ready d"
begin

lemma wait_step:
  "mstep ready sig sil ch s s' \<Longrightarrow> mutex_inv s \<Longrightarrow> place_inv ch s \<Longrightarrow> wait_inv ready ch s \<Longrightarrow> wait_inv ready ch s'"
proof (induction rule: mstep.induct)
  case (killed s n tab)
  then show ?case by (auto simp: wait_inv_def wake_pending_def dest: asleep_on_kill)
next
  case (wakeup_scan s t)
  then have "mpcs s u \<noteq> S_mark" "mpcs s u \<noteq> S_rel" for u
    using pt_excl [of s t S_mark u] pt_excl [of s t S_rel u] by simp_all
  with wakeup_scan show ?case by (auto simp: wait_inv_def)
next
  case (silent s t d)
  then have "mpcs s u \<noteq> S_acqp" "mpcs s u \<noteq> S_rel" for u
    using lk_excl [of s t S_acqp u] lk_excl [of s t S_rel u] by simp_all
  with silent show ?case by (auto simp: wait_inv_def wake_pending_def dest: silent_keeps)
next
  case (signal s t d)
  then have "mpcs s u \<noteq> S_acqp" "mpcs s u \<noteq> S_rel" for u
    using lk_excl [of s t S_acqp u] lk_excl [of s t S_rel u] by simp_all
  with signal show ?case by (auto simp: wait_inv_def wake_pending_def)
next
  case (sleep_acquire s t)
  then have "\<not> ready (mdata s)" by (auto simp: wait_inv_def)
  note nr = this
  show ?case by (rule wait_upd [of ready ch s _ t S_rel]) (insert sleep_acquire nr, simp_all)
next
  case (sleep_release s t)
  then have "\<not> ready (mdata s)" by (auto simp: wait_inv_def)
  note nr = this
  show ?case by (rule wait_upd [of ready ch s _ t S_mark]) (insert sleep_release nr, simp_all)
next
  case (sleep_mark s t)
  show ?case by (rule wait_upd [of ready ch s _ t S_switch]) (insert sleep_mark, auto dest: asleep_on_upd(3))
next
  case (resume s t)
  show ?case by (rule wait_upd [of ready ch s _ t S_wake]) (insert resume, auto dest: asleep_on_upd(1))
next
  case (sleep_tidy s t)
  show ?case by (rule wait_upd [of ready ch s _ t S_relock]) (insert sleep_tidy, auto dest: asleep_on_upd(2))
qed (rule wait_upd, assumption, simp, simp, simp, simp, simp, simp)+

lemma reach_inv:
  "mreach ready sig sil ch s \<Longrightarrow> mutex_inv s \<and> place_inv ch s \<and> wait_inv ready ch s"
proof (induction rule: mreach.induct)
  case (start d0 tab0 s)
  then show ?case
    by (auto simp: msys_init_def mutex_inv_def place_inv_def wait_inv_def asleep_on_def
        list_all_length)
next
  case (step s s')
  then show ?case by (blast intro: mutex_step place_step wait_step)
qed

lemma no_lost_wakeup:
  "mreach ready sig sil ch s \<Longrightarrow> asleep_on ch (mtab s) t \<Longrightarrow> ready (mdata s) \<Longrightarrow> wake_pending s"
  using reach_inv by (auto simp: wait_inv_def)

text \<open>A process waits in vain only while somebody is inside the critical section.\<close>

lemma quiet_nobody_asleep:
  assumes "mreach ready sig sil ch s" "mlk s = None" "ready (mdata s)"
  shows "\<not> asleep_on ch (mtab s) t"
proof
  assume "asleep_on ch (mtab s) t"
  with assms have "wake_pending s" by (intro no_lost_wakeup)
  then obtain w where "has_lk (mpcs s w)" by (metis wake_pending_def has_lk.simps(4,5))
  with reach_inv [OF assms(1)] assms(2) show False by (auto simp: mutex_inv_def)
qed

end

section \<open>Properties\<close>


definition proc0 :: proc where
  "proc0 = \<lparr>sz = 0, pgdir = 0, kstack = 0, pstate = RUNNING, pid = 0, parent = None, tf = 0, pcontext = 0,
     pchan = None, killed = 0, ofile = replicate 16 None, cwd = None, pname = replicate 16 0,
     inuse = 0, pticks = 0, tickets = 0\<rparr>"


text \<open>
  C7. \<^verbatim>\<open>sleep\<close> entered by process \<open>i\<close> with exactly one lock \<open>l\<close> held reaches \<^verbatim>\<open>swtch\<close> without a panic, with
  \<open>l\<close> free (unless it is \<^verbatim>\<open>ptable.lock\<close>), exactly \<^verbatim>\<open>ptable.lock\<close> held, process \<open>i\<close> marked asleep on the
  channel and every other slot as it was. When the scheduler gives the processor back, the
  rest of \<^verbatim>\<open>sleep\<close> returns with exactly \<open>l\<close> held again and the channel cleared.
\<close>

theorem sleep_hands_over:
  fixes s :: "'z sched_st_scheme"
  assumes "only_held l s" and "curproc s = Some i" and "i < length (ptable s)"
  shows "(\<exists>t. sleep ch (Some l) s = Swtch t \<and> only_held L_ptable t \<and> asleep_on ch (ptable t) i
           \<and> (\<forall>j. j \<noteq> i \<longrightarrow> ptable t ! j = ptable s ! j))
    \<and> (\<forall>(t :: 'z sched_st_scheme) saved. only_held L_ptable t \<and> curproc t = Some i \<and> i < length (ptable t) \<longrightarrow>
         wp (sleep_resume l saved) (\<lambda>_ u. only_held l u \<and> pchan (ptable u ! i) = None) t)"
proof (intro conjI allI impI)
  show "\<exists>t. sleep ch (Some l) s = Swtch t \<and> only_held L_ptable t \<and> asleep_on ch (ptable t) i
      \<and> (\<forall>j. j \<noteq> i \<longrightarrow> ptable t ! j = ptable s ! j)"
  proof (cases "l = L_ptable")
    case True
    with sleep_ptable_lock [of s i ch] assms show ?thesis
      by (auto simp: asleep_on_def sleep_mark_def only_held_def holding_def free_lock_def)
  next
    case False
    with sleep_other_lock [of l s i ch] assms show ?thesis
      by (fastforce simp: asleep_on_def sleep_mark_def)
  qed
next
  fix t :: "'z sched_st_scheme" and saved
  assume t: "only_held L_ptable t \<and> curproc t = Some i \<and> i < length (ptable t)"
  show "wp (sleep_resume l saved) (\<lambda>_ u. only_held l u \<and> pchan (ptable u ! i) = None) t"
  proof (cases "l = L_ptable")
    case True
    with t show ?thesis
      by (auto simp: sleep_resume_def sched_resume_def upd_myproc_def upd_proc_def wp_rules only_held_def
          holding_def free_lock_def)
  next
    case False
    with t show ?thesis
      by (auto simp: sleep_resume_def sched_resume_def upd_myproc_def upd_proc_def wp_rules only_held_def
          holding_def holding_by_def free_lock_def acquired_def released_def)
  qed
qed

definition sched_boot :: sched_st where
  "sched_boot = \<lparr>cpu = 0, ncli = 0, intena = False, ifl = False,
     locks = (\<lambda>_. \<lparr>locked = 0, lname = ''lock'', lcpu = None\<rparr>), mem = (\<lambda>_. 0),
     kend = 0xFFFFFFFF80110000, use_lock = True, freelist = 0,
     ptable = replicate 64 proc0, curproc = Some 3, initproc = Some 0, nextpid = 5\<rparr>"

theorem sleep_hands_over_witness:
  "only_held L_log (acquired L_log sched_boot) \<and>
   (\<exists>t. sleep ChLog (Some L_log) (acquired L_log sched_boot) = Swtch t \<and> asleep_on ChLog (ptable t) 3)"
proof -
  have "only_held L_log (acquired L_log sched_boot)"
    by (simp add: only_held_def free_lock_def sched_boot_def acquired_def holding_def holding_by_def)
  with sleep_hands_over [OF this, of 3 ChLog] show ?thesis by (auto simp: sched_boot_def)
qed



end
