(* ===== verification/Bio.thy ===== *)
theory Bio
  imports Sched
begin

text \<open>
  \<^verbatim>\<open>kernel/bio.c\<close>, the buffer cache, over the synchronous disk of \<^verbatim>\<open>kernel/memide.c\<close>. The cache is a
  doubly linked list of \<^verbatim>\<open>NBUF\<close> buffers in order of last use. The lemmas show that the list
  surgery of \<^verbatim>\<open>binit\<close> and \<^verbatim>\<open>brelse\<close> keeps a well-formed list, that a sector is never cached
  twice, and that the cache and the disk together behave as an array of sectors: the
  relation \<open>bio_rep\<close> gives the contents that readers see, the buffers that are held and
  the sectors that are dirty, and the locale \<open>sector_store\<close> is the contract that the log and
  the file system use.
\<close>

section \<open>State\<close>

datatype bflag = B_BUSY | B_VALID | B_DIRTY

text \<open>\<^verbatim>\<open>struct buf\<close>; a buffer pointer is an index, and \<open>HEAD\<close> is the list head \<^verbatim>\<open>bcache.head\<close>.\<close>

record buf =
  flags :: "bflag set"
  bdev :: uint
  sector :: uint
  prv :: nat
  nxt :: nat
  qnext :: "nat option"
  data :: "byte list"

definition NBUF :: nat where
  "NBUF = 10"

definition HEAD :: nat where
  "HEAD = 10"

text \<open>
  The disk is an array of 512-byte sectors. \<open>whist\<close> is a ghost variable: the sector writes
  in the order the disk performed them, from which the crash states are read off.
\<close>

record bio_st = sched_st +
  bcache :: "nat \<Rightarrow> buf"
  disk :: "uint \<Rightarrow> byte list"
  disksize :: uint
  whist :: "(uint \<times> byte list) list"

type_synonym bufs = "nat \<Rightarrow> buf"

definition setb :: "nat \<Rightarrow> (buf \<Rightarrow> buf) \<Rightarrow> bufs \<Rightarrow> bufs" where
  "setb i f bc = bc(i := f (bc i))"

definition upd_bcache :: "(bufs \<Rightarrow> bufs) \<Rightarrow> 'z bio_st_scheme \<Rightarrow> 'z bio_st_scheme" where
  "upd_bcache f s = s\<lparr>bcache := f (bcache s)\<rparr>"

abbreviation upd_buf :: "nat \<Rightarrow> (buf \<Rightarrow> buf) \<Rightarrow> 'z bio_st_scheme \<Rightarrow> 'z bio_st_scheme" where
  "upd_buf i f \<equiv> upd_bcache (setb i f)"

section \<open>Operations\<close>

text \<open>\<^verbatim>\<open>iderw\<close> of \<^verbatim>\<open>memide.c\<close>.\<close>

definition iderw :: "nat \<Rightarrow> (unit, 'z bio_st_scheme) kern" where
  "iderw b =
    bindK (getK (\<lambda>s. bcache s b)) (\<lambda>bp.
    bindK (getK disksize) (\<lambda>dsz.
      if B_BUSY \<notin> flags bp then panic ''iderw: buf not busy''
      else if flags bp \<inter> {B_VALID, B_DIRTY} = {B_VALID} then panic ''iderw: nothing to do''
      else if bdev bp \<noteq> 1 then panic ''iderw: request not for disk 1''
      else if sector bp \<ge> dsz then panic ''iderw: sector out of range''
      else
        seqK (if B_DIRTY \<in> flags bp
              then seqK (modK (upd_buf b (\<lambda>p. p\<lparr>flags := flags p - {B_DIRTY}\<rparr>)))
                        (modK (\<lambda>s. s\<lparr>disk := (disk s)(sector bp := data bp),
                                     whist := whist s @ [(sector bp, data bp)]\<rparr>))
              else modK (\<lambda>s. upd_buf b (\<lambda>p. p\<lparr>data := disk s (sector bp)\<rparr>) s))
             (modK (upd_buf b (\<lambda>p. p\<lparr>flags := insert B_VALID (flags p)\<rparr>)))))"

text \<open>The insertion of a buffer behind the list head, shared by \<^verbatim>\<open>binit\<close> and \<^verbatim>\<open>brelse\<close>.\<close>

definition link_head :: "nat \<Rightarrow> bufs \<Rightarrow> bufs" where
  "link_head b bc =
    (let bc1 = setb b (\<lambda>p. p\<lparr>nxt := nxt (bc HEAD)\<rparr>) bc;
         bc2 = setb b (\<lambda>p. p\<lparr>prv := HEAD\<rparr>) bc1;
         bc3 = setb (nxt (bc2 HEAD)) (\<lambda>p. p\<lparr>prv := b\<rparr>) bc2
     in setb HEAD (\<lambda>p. p\<lparr>nxt := b\<rparr>) bc3)"

definition unlink_buf :: "nat \<Rightarrow> bufs \<Rightarrow> bufs" where
  "unlink_buf b bc =
    (let bc1 = setb (nxt (bc b)) (\<lambda>p. p\<lparr>prv := prv (bc b)\<rparr>) bc
     in setb (prv (bc1 b)) (\<lambda>p. p\<lparr>nxt := nxt (bc1 b)\<rparr>) bc1)"

definition binit :: "(unit, 'z bio_st_scheme) kern" where
  "binit =
    seqK (initlock L_bcache ''bcache'')
   (seqK (modK (upd_buf HEAD (\<lambda>p. p\<lparr>prv := HEAD\<rparr>)))
   (seqK (modK (upd_buf HEAD (\<lambda>p. p\<lparr>nxt := HEAD\<rparr>)))
         (forK [0..<NBUF] (\<lambda>b. modK (\<lambda>s. upd_bcache (link_head b) (upd_buf b (\<lambda>p. p\<lparr>bdev := - 1\<rparr>) s))))))"

text \<open>
  The two scans of \<^verbatim>\<open>bget\<close>. The inner \<open>None\<close> is the end of the list; the outer one, a list that
  never comes back to the head, is excluded below.
\<close>

partial_function (option) bget_hit :: "bufs \<Rightarrow> uint \<Rightarrow> uint \<Rightarrow> nat \<Rightarrow> nat option option" where
  "bget_hit bc dv sec b =
    (if b = HEAD then Some None
     else if bdev (bc b) = dv \<and> sector (bc b) = sec then Some (Some b)
     else bget_hit bc dv sec (nxt (bc b)))"

partial_function (option) bget_victim :: "bufs \<Rightarrow> nat \<Rightarrow> nat option option" where
  "bget_victim bc b =
    (if b = HEAD then Some None
     else if B_BUSY \<notin> flags (bc b) \<and> B_DIRTY \<notin> flags (bc b) then Some (Some b)
     else bget_victim bc (prv (bc b)))"

text \<open>
  From the label \<^verbatim>\<open>loop\<close> on, with \<^verbatim>\<open>bcache.lock\<close> held. A process that sleeps here continues with
  \<open>sleep_resume\<close> and \<open>bget_loop\<close> again.
\<close>

definition bget_loop :: "uint \<Rightarrow> uint \<Rightarrow> (nat, 'z bio_st_scheme) kern" where
  "bget_loop dv sec =
    bindK (getK bcache) (\<lambda>bc.
      case bget_hit bc dv sec (nxt (bc HEAD)) of
        None \<Rightarrow> (\<lambda>_. Spin)
      | Some (Some b) \<Rightarrow>
          if B_BUSY \<notin> flags (bc b)
          then seqK (modK (upd_buf b (\<lambda>p. p\<lparr>flags := insert B_BUSY (flags p)\<rparr>)))
              (seqK (release L_bcache) (ret b))
          else sleep (ChBuf b) (Some L_bcache)
      | Some None \<Rightarrow>
          (case bget_victim bc (prv (bc HEAD)) of
             None \<Rightarrow> (\<lambda>_. Spin)
           | Some (Some b) \<Rightarrow>
               seqK (modK (upd_buf b (\<lambda>p. p\<lparr>bdev := dv, sector := sec, flags := {B_BUSY}\<rparr>)))
              (seqK (release L_bcache) (ret b))
           | Some None \<Rightarrow> panic ''bget: no buffers''))"

definition bget :: "uint \<Rightarrow> uint \<Rightarrow> (nat, 'z bio_st_scheme) kern" where
  "bget dv sec = seqK (acquire L_bcache) (bget_loop dv sec)"

definition bread :: "uint \<Rightarrow> uint \<Rightarrow> (nat, 'z bio_st_scheme) kern" where
  "bread dv sec =
    bindK (bget dv sec) (\<lambda>b.
    bindK (getK (\<lambda>s. bcache s b)) (\<lambda>bp.
    seqK (whenK (B_VALID \<notin> flags bp) (iderw b))
         (ret b)))"

definition bwrite :: "nat \<Rightarrow> (unit, 'z bio_st_scheme) kern" where
  "bwrite b =
    bindK (getK (\<lambda>s. bcache s b)) (\<lambda>bp.
      if B_BUSY \<notin> flags bp then panic ''bwrite''
      else seqK (modK (upd_buf b (\<lambda>p. p\<lparr>flags := insert B_DIRTY (flags p)\<rparr>)))
                (iderw b))"

definition brelse :: "nat \<Rightarrow> (unit, 'z bio_st_scheme) kern" where
  "brelse b =
    bindK (getK (\<lambda>s. bcache s b)) (\<lambda>bp.
      if B_BUSY \<notin> flags bp then panic ''brelse''
      else
        seqK (acquire L_bcache)
       (seqK (modK (upd_bcache (unlink_buf b)))
       (seqK (modK (upd_bcache (link_head b)))
       (seqK (modK (upd_buf b (\<lambda>p. p\<lparr>flags := flags p - {B_BUSY}\<rparr>)))
       (seqK (wakeup (ChBuf b))
             (release L_bcache))))))"

section \<open>The list of buffers\<close>

fun chain :: "(nat \<Rightarrow> nat) \<Rightarrow> nat \<Rightarrow> nat list \<Rightarrow> nat \<Rightarrow> bool" where
  "chain f a [] z = (f a = z)"
| "chain f a (x # xs) z = (f a = x \<and> chain f x xs z)"

lemma chain_append: "chain f a (xs @ y # ys) z = (chain f a xs y \<and> chain f y ys z)"
  by (induction xs arbitrary: a) auto

lemma chain_upd [simp]: "y \<noteq> a \<Longrightarrow> y \<notin> set xs \<Longrightarrow> chain (f(y := v)) a xs z = chain f a xs z"
  by (induction xs arbitrary: a) auto

definition dll :: "(nat \<Rightarrow> nat) \<Rightarrow> (nat \<Rightarrow> nat) \<Rightarrow> nat \<Rightarrow> nat list \<Rightarrow> bool" where
  "dll nx pv h xs \<longleftrightarrow> chain nx h xs h \<and> chain pv h (rev xs) h \<and> distinct (h # xs)"

lemma dll_push:
  assumes "dll nx pv h xs" "b \<noteq> h" "b \<notin> set xs"
  shows "dll (nx(b := nx h, h := b)) (pv(b := h, nx h := b)) h (b # xs)"
proof (cases xs)
  case Nil
  with assms show ?thesis by (simp add: dll_def)
next
  case (Cons x ys)
  with assms have d: "nx h = x" "chain nx x ys h" "chain pv h (rev ys) x" "distinct (h # b # x # ys)"
    by (auto simp: dll_def chain_append)
  then show ?thesis by (auto simp: dll_def chain_append Cons)
qed

lemma dll_unlink:
  assumes "dll nx pv h (xs @ b # ys)"
  shows "dll (nx(pv b := nx b)) (pv(nx b := pv b)) h (xs @ ys)"
proof -
  from assms have c: "chain nx h xs b" "chain nx b ys h" "chain pv h (rev ys) b" "chain pv b (rev xs) h"
    "distinct (h # b # xs @ ys)" by (auto simp: dll_def chain_append)
  have n: "chain (nx(pv b := nx b)) h (xs @ ys) h"
  proof (cases xs rule: rev_cases)
    case Nil
    with c show ?thesis by (cases ys) auto
  next
    case (snoc us u)
    with c show ?thesis by (cases ys) (auto simp: chain_append)
  qed
  have "chain (pv(nx b := pv b)) h (rev ys @ rev xs) h"
  proof (cases ys)
    case Nil
    with c show ?thesis by (cases xs rule: rev_cases) auto
  next
    case (Cons v vs)
    with c show ?thesis by (cases xs rule: rev_cases) (auto simp: chain_append)
  qed
  with n c show ?thesis by (auto simp: dll_def)
qed

abbreviation nx :: "bufs \<Rightarrow> nat \<Rightarrow> nat" where
  "nx bc \<equiv> (\<lambda>i. nxt (bc i))"

abbreviation pv :: "bufs \<Rightarrow> nat \<Rightarrow> nat" where
  "pv bc \<equiv> (\<lambda>i. prv (bc i))"

lemma upd_bcache_sel [simp]:
  "bcache (upd_bcache f s) = f (bcache s)"
  "disk (upd_bcache f s) = disk s" "disksize (upd_bcache f s) = disksize s" "whist (upd_bcache f s) = whist s"
  "ptable (upd_bcache f s) = ptable s" "curproc (upd_bcache f s) = curproc s"
  "bio_st.more (upd_bcache f s) = bio_st.more s"
  by (simp_all add: upd_bcache_def)

lemma setb_at [simp]: "setb i f bc j = (if j = i then f (bc i) else bc j)"
  by (simp add: setb_def)

lemma link_head_links:
  assumes "b \<noteq> HEAD"
  shows "nx (link_head b bc) = (nx bc)(b := nx bc HEAD, HEAD := b)"
    and "pv (link_head b bc) = (pv bc)(b := HEAD, nx bc HEAD := b)"
  using assms by (auto simp: link_head_def Let_def fun_eq_iff)

lemma unlink_buf_links:
  assumes "nx bc b \<noteq> b"
  shows "nx (unlink_buf b bc) = (nx bc)(pv bc b := nx bc b)" "pv (unlink_buf b bc) = (pv bc)(nx bc b := pv bc b)"
  using assms by (auto simp: unlink_buf_def Let_def fun_eq_iff)

text \<open>The links apart, a buffer is not changed by the list operations.\<close>

lemma link_head_core [simp]:
  "flags (link_head b bc i) = flags (bc i)" "bdev (link_head b bc i) = bdev (bc i)"
  "sector (link_head b bc i) = sector (bc i)" "data (link_head b bc i) = data (bc i)"
  by (simp_all add: link_head_def Let_def)

lemma unlink_buf_core [simp]:
  "flags (unlink_buf b bc i) = flags (bc i)" "bdev (unlink_buf b bc i) = bdev (bc i)"
  "sector (unlink_buf b bc i) = sector (bc i)" "data (unlink_buf b bc i) = data (bc i)"
  by (simp_all add: unlink_buf_def Let_def)

text \<open>The list is well formed and holds every buffer.\<close>

definition list_inv :: "bufs \<Rightarrow> nat list \<Rightarrow> bool" where
  "list_inv bc xs \<longleftrightarrow> dll (nx bc) (pv bc) HEAD xs \<and> set xs = {..<NBUF}"

lemma move_to_front:
  assumes "list_inv bc xs" "b < NBUF"
  shows "list_inv (link_head b (unlink_buf b bc)) (b # remove1 b xs)"
proof -
  from assms obtain us vs where xs: "xs = us @ b # vs" "b \<notin> set us"
    by (metis list_inv_def lessThan_iff split_list_first)
  from assms have d: "dll (nx bc) (pv bc) HEAD (us @ b # vs)" by (simp add: list_inv_def xs)
  have nb: "b \<noteq> HEAD" using assms(2) by (simp add: NBUF_def HEAD_def)
  from d have "nx bc b \<noteq> b" by (cases vs) (auto simp: dll_def chain_append)
  from unlink_buf_links [of bc b, OF this] dll_unlink [OF d]
  have u: "dll (nx (unlink_buf b bc)) (pv (unlink_buf b bc)) HEAD (us @ vs)" by simp
  from d have "b \<notin> set (us @ vs)" by (simp add: dll_def)
  from dll_push [OF u nb this] link_head_links [OF nb, of "unlink_buf b bc"]
  have "dll (nx (link_head b (unlink_buf b bc))) (pv (link_head b (unlink_buf b bc))) HEAD (b # us @ vs)" by simp
  moreover from assms xs have "set (b # us @ vs) = {..<NBUF}" by (auto simp: list_inv_def)
  ultimately show ?thesis using xs by (simp add: list_inv_def remove1_append)
qed

lemma hit_chain:
  assumes "chain (\<lambda>i. nxt (bc i)) a xs HEAD" "HEAD \<notin> set xs"
  shows "bget_hit bc dv sec (nxt (bc a)) = Some (find (\<lambda>b. bdev (bc b) = dv \<and> sector (bc b) = sec) xs)"
  using assms by (induction xs arbitrary: a) (auto simp: bget_hit.simps)

lemma victim_chain:
  assumes "chain (\<lambda>i. prv (bc i)) a xs HEAD" "HEAD \<notin> set xs"
  shows "bget_victim bc (prv (bc a)) =
    Some (find (\<lambda>b. B_BUSY \<notin> flags (bc b) \<and> B_DIRTY \<notin> flags (bc b)) xs)"
  using assms by (induction xs arbitrary: a) (auto simp: bget_victim.simps)

section \<open>The cache and the disk as an array of sectors\<close>

definition caches :: "'z bio_st_scheme \<Rightarrow> nat \<Rightarrow> uint \<Rightarrow> bool" where
  "caches s i k \<longleftrightarrow> i < NBUF \<and> bdev (bcache s i) = 1 \<and> sector (bcache s i) = k"

text \<open>
  Between two operations: the list is well formed; a buffer is either unused since
  \<^verbatim>\<open>binit\<close> or holds a valid copy of a sector of disk 1; no sector is cached twice; a buffer
  that is neither held nor dirty agrees with the disk.
\<close>

definition bio_inv :: "'z bio_st_scheme \<Rightarrow> bool" where
  "bio_inv s \<longleftrightarrow>
     (\<exists>xs. list_inv (bcache s) xs)
   \<and> (\<forall>i < NBUF. bdev (bcache s i) = - 1 \<and> flags (bcache s i) = {}
        \<or> bdev (bcache s i) = 1 \<and> B_VALID \<in> flags (bcache s i) \<and> sector (bcache s i) < disksize s
          \<and> length (data (bcache s i)) = 512)
   \<and> (\<forall>i j k. caches s i k \<and> caches s j k \<longrightarrow> i = j)
   \<and> (\<forall>i k. caches s i k \<and> B_BUSY \<notin> flags (bcache s i) \<and> B_DIRTY \<notin> flags (bcache s i) \<longrightarrow>
        data (bcache s i) = disk s k)
   \<and> (\<forall>k < disksize s. length (disk s k) = 512)"

text \<open>
  \<open>V\<close> is the contents of each sector as a reader sees it, \<open>H\<close> maps the sectors that are held
  (returned by \<^verbatim>\<open>bread\<close>, not yet released) to their buffers, \<open>D\<close> is the set of dirty sectors.
\<close>

definition bio_rep :: "'z bio_st_scheme \<Rightarrow> (uint \<Rightarrow> byte list) \<Rightarrow> (uint \<rightharpoonup> nat) \<Rightarrow> uint set \<Rightarrow> bool" where
  "bio_rep s V H D \<longleftrightarrow> bio_inv s
   \<and> (\<forall>i k. caches s i k \<longrightarrow> V k = data (bcache s i))
   \<and> (\<forall>k. (\<forall>i. \<not> caches s i k) \<longrightarrow> V k = disk s k)
   \<and> (\<forall>k i. H k = Some i \<longleftrightarrow> caches s i k \<and> B_BUSY \<in> flags (bcache s i))
   \<and> (\<forall>k. k \<in> D \<longleftrightarrow> (\<exists>i. caches s i k \<and> B_DIRTY \<in> flags (bcache s i)))"

text \<open>The processes of a table that a wakeup has changed, if any, were sleeping.\<close>

definition woken :: "proc list \<Rightarrow> proc list \<Rightarrow> bool" where
  "woken = list_all2 (\<lambda>p q. q = p \<or> pstate p = SLEEPING \<and> q = p\<lparr>pstate := RUNNABLE\<rparr>)"

lemma woken_refl [simp]: "woken ps ps"
  by (simp add: woken_def list.rel_refl)

lemma woken_trans: "woken ps qs \<Longrightarrow> woken qs rs \<Longrightarrow> woken ps rs"
  unfolding woken_def list_all2_conv_all_nth by fastforce

lemma woken_wakeup [simp]: "woken ps (map (wake_proc ch) ps)"
  by (auto simp: woken_def list_all2_conv_all_nth wake_proc_def)

text \<open>What the operations of the cache leave alone: everything but the process table, the cache
  and the disk.\<close>

definition bio_frame :: "'z bio_st_scheme \<Rightarrow> 'z bio_st_scheme \<Rightarrow> bool" where
  "bio_frame s t \<longleftrightarrow> woken (ptable s) (ptable t)
     \<and> (\<exists>p c d w. t = s\<lparr>ptable := p, bcache := c, disk := d, whist := w\<rparr>)"

lemma bio_frameE:
  assumes "bio_frame s t"
  obtains p c d w where "t = s\<lparr>ptable := p, bcache := c, disk := d, whist := w\<rparr>" "woken (ptable s) p"
  using assms by (auto simp: bio_frame_def)

lemma bio_frameI: "woken (ptable s) p \<Longrightarrow> bio_frame s (s\<lparr>ptable := p, bcache := c, disk := d, whist := w\<rparr>)"
  by (auto simp: bio_frame_def)

lemma bio_frame_refl [simp]: "bio_frame s s"
  using bio_frameI [of s "ptable s" "whist s" "disk s" "bcache s"] by simp

lemma bio_frame_trans:
  assumes "bio_frame s t" "bio_frame t u"
  shows "bio_frame s u"
  using assms by (elim bio_frameE) (auto intro!: bio_frameI dest: woken_trans)

lemma bio_frame_upd [simp]: "bio_frame s (upd_bcache f s)"
  using bio_frameI [of s "ptable s" "whist s" "disk s"] by (simp add: upd_bcache_def)

lemma bio_frame_mach:
  assumes "bio_frame s t"
  shows "settled t = settled s" "free_lock l t = free_lock l s" "idle t = idle s" "disksize t = disksize s"
    "curproc t = curproc s" "mem t = mem s" "freelist t = freelist s" "bio_st.more t = bio_st.more s"
  using assms by (auto elim!: bio_frameE simp: settled_def mach_ok_def free_lock_def idle_def)

section \<open>What each operation does\<close>

lemma bio_fields_acquired [simp]:
  "bcache (acquired l s) = bcache s" "disk (acquired l s) = disk s" "disksize (acquired l s) = disksize s"
  "whist (acquired l s) = whist s"
  by (simp_all add: acquired_def)

lemma above_mach_upd_bcache [simp]: "above_mach (upd_bcache f)" "cpu (upd_bcache f s) = cpu s"
  by (simp_all add: above_mach_def upd_bcache_def)

lemma mach_upd_bcache [simp]:
  "settled (upd_bcache f s) = settled s" "free_lock l (upd_bcache f s) = free_lock l s" "idle (upd_bcache f s) = idle s"
  by (simp_all add: upd_bcache_def settled_def mach_ok_def free_lock_def idle_def)

lemma upd_bcache_comp: "upd_bcache f (upd_bcache g s) = upd_bcache (\<lambda>bc. f (g bc)) s"
  by (simp add: upd_bcache_def)

lemmas release_upd_bcache = crit_release [OF _ _ above_mach_upd_bcache]

lemma bget_eq:
  assumes "settled s" "free_lock L_bcache s" "list_inv (bcache s) xs"
  shows "bget dv sec s =
    (case find (\<lambda>b. bdev (bcache s b) = dv \<and> sector (bcache s b) = sec) xs of
       Some b \<Rightarrow> if B_BUSY \<notin> flags (bcache s b)
                 then Ok b (upd_buf b (\<lambda>p. p\<lparr>flags := insert B_BUSY (flags p)\<rparr>) s)
                 else sleep (ChBuf b) (Some L_bcache) (acquired L_bcache s)
     | None \<Rightarrow>
         (case find (\<lambda>b. B_BUSY \<notin> flags (bcache s b) \<and> B_DIRTY \<notin> flags (bcache s b)) (rev xs) of
            Some b \<Rightarrow> Ok b (upd_buf b (\<lambda>p. p\<lparr>bdev := dv, sector := sec, flags := {B_BUSY}\<rparr>) s)
          | None \<Rightarrow> Panic ''bget: no buffers''))"
proof -
  from assms(3) have "chain (nx (bcache s)) HEAD xs HEAD" "chain (pv (bcache s)) HEAD (rev xs) HEAD"
    "HEAD \<notin> set xs" "HEAD \<notin> set (rev xs)"
    by (auto simp: list_inv_def dll_def)
  with hit_chain [of "bcache s" HEAD xs dv sec] victim_chain [of "bcache s" HEAD "rev xs"] show ?thesis
    using assms(1,2) by (simp add: bget_def bget_loop_def kdefs acquire_free release_upd_bcache split: option.split)
qed

text \<open>What \<^verbatim>\<open>brelse\<close> does to the cache.\<close>

definition brelse_bc :: "nat \<Rightarrow> bufs \<Rightarrow> bufs" where
  "brelse_bc b bc = setb b (\<lambda>p. p\<lparr>flags := flags p - {B_BUSY}\<rparr>) (link_head b (unlink_buf b bc))"

lemma brelse_eq:
  assumes "settled s" "free_lock L_bcache s" "free_lock L_ptable s" "B_BUSY \<in> flags (bcache s b)"
  shows "brelse b s = Ok () ((upd_bcache (brelse_bc b) s)\<lparr>ptable := map (wake_proc (ChBuf b)) (ptable s)\<rparr>)"
proof -
  let ?f = "\<lambda>s. (upd_bcache (brelse_bc b) s)\<lparr>ptable := map (wake_proc (ChBuf b)) (ptable s)\<rparr>"
  have a: "above_mach ?f" "\<And>s. cpu (?f s) = cpu s"
    by (simp_all add: above_mach_def upd_bcache_def)
  have "wakeup (ChBuf b) (upd_bcache (brelse_bc b) (acquired L_bcache s)) = Ok () (?f (acquired L_bcache s))"
    using assms by (simp add: wakeup_eq)
  with crit_release [OF assms(1,2) a] assms(2,4) show ?thesis
    by (simp add: brelse_def kdefs acquire_free upd_bcache_comp brelse_bc_def [symmetric, abs_def])
qed

section \<open>The operations on sectors\<close>

lemma list_inv_cong: "(\<And>i. nxt (bc i) = nxt (bc' i) \<and> prv (bc i) = prv (bc' i)) \<Longrightarrow> list_inv bc xs = list_inv bc' xs"
  by (simp add: list_inv_def)

lemma bio_repD:
  assumes "bio_rep s V H D"
  shows "caches s i k \<Longrightarrow> V k = data (bcache s i)" "(\<And>i. \<not> caches s i k) \<Longrightarrow> V k = disk s k"
    "H k = Some i \<Longrightarrow> caches s i k \<and> B_BUSY \<in> flags (bcache s i)"
    "k \<in> D \<longleftrightarrow> (\<exists>i. caches s i k \<and> B_DIRTY \<in> flags (bcache s i))"
    "caches s i k \<Longrightarrow> caches s j k \<Longrightarrow> i = j"
    "caches s i k \<Longrightarrow> B_VALID \<in> flags (bcache s i) \<and> k < disksize s \<and> length (data (bcache s i)) = 512"
    "\<exists>xs. list_inv (bcache s) xs"
  using assms by (auto simp: bio_rep_def bio_inv_def caches_def; fastforce)+

lemma bio_rep_len:
  assumes "bio_rep s V H D" "k < disksize s"
  shows "length (V k) = 512"
proof (cases "\<exists>i. caches s i k")
  case True
  with bio_repD(1,6) [OF assms(1)] show ?thesis by force
next
  case False
  with bio_repD(2) [OF assms(1)] assms show ?thesis by (simp add: bio_rep_def bio_inv_def)
qed

text \<open>A buffer that is neither held nor dirty exists while fewer than \<open>NBUF\<close> sectors are held or dirty.\<close>

lemma victim_exists:
  assumes "bio_rep s V H D" "card (dom H \<union> D) < NBUF"
  shows "\<exists>b < NBUF. B_BUSY \<notin> flags (bcache s b) \<and> B_DIRTY \<notin> flags (bcache s b)"
proof (rule ccontr)
  let ?S = "\<lambda>i. sector (bcache s i)"
  assume "\<not> ?thesis"
  then have all: "\<forall>b < NBUF. B_BUSY \<in> flags (bcache s b) \<or> B_DIRTY \<in> flags (bcache s b)" by blast
  with assms(1) have c: "\<forall>b < NBUF. caches s b (?S b)"
    by (fastforce simp: bio_rep_def bio_inv_def caches_def)
  have "?S ` {..<NBUF} \<subseteq> dom H \<union> D"
    using all c assms(1) by (force simp: bio_rep_def)
  moreover have "dom H \<union> D \<subseteq> ?S ` {..<NBUF}"
    using assms(1) by (force simp: bio_rep_def caches_def)
  moreover have "inj_on ?S {..<NBUF}"
  proof (rule inj_onI)
    fix i j assume "i \<in> {..<NBUF}" "j \<in> {..<NBUF}" "?S i = ?S j"
    with c have "caches s i (?S i)" "caches s j (?S i)" by auto
    with bio_repD(5) [OF assms(1)] show "i = j" by blast
  qed
  ultimately have "card (dom H \<union> D) = NBUF" by (metis card_image card_lessThan subset_antisym)
  with assms(2) show False by simp
qed

text \<open>
  Changing flags and contents of the one buffer \<open>b\<close> of sector \<open>k\<close>, links and sector kept. The
  five cases below are instances.
\<close>

lemma bio_rep_upd:
  assumes rep: "bio_rep s V H D" and b: "caches s b k"
    and core: "bdev (f (bcache s b)) = 1" "sector (f (bcache s b)) = k"
      "nxt (f (bcache s b)) = nxt (bcache s b)" "prv (f (bcache s b)) = prv (bcache s b)"
    and ok: "B_VALID \<in> flags (f (bcache s b))" "length (data (f (bcache s b))) = 512"
    and coh: "B_BUSY \<notin> flags (f (bcache s b)) \<Longrightarrow> B_DIRTY \<notin> flags (f (bcache s b)) \<Longrightarrow>
      data (f (bcache s b)) = d"
    and d: "length d = 512"
  shows "bio_rep ((upd_buf b f s)\<lparr>disk := (disk s)(k := d), whist := w\<rparr>) (V(k := data (f (bcache s b))))
    (H(k := if B_BUSY \<in> flags (f (bcache s b)) then Some b else None))
    (if B_DIRTY \<in> flags (f (bcache s b)) then insert k D else D - {k})"
proof -
  let ?t = "(upd_buf b f s)\<lparr>disk := (disk s)(k := d), whist := w\<rparr>"
  have c: "caches ?t i j = caches s i j" for i j using b core by (auto simp: caches_def)
  have l: "list_inv (bcache ?t) xs = list_inv (bcache s) xs" for xs
    by (rule list_inv_cong) (simp add: core)
  note I = rep [unfolded bio_rep_def bio_inv_def]
  have u: "caches s i k = (i = b)" for i using b bio_repD(5) [OF rep] by blast
  have u': "caches s b j = (j = k)" for j using b by (auto simp: caches_def)
  have un: "(\<forall>i j k. caches s i k \<and> caches s j k \<longrightarrow> i = j)" using I by blast
  have inv: "bio_inv ?t" unfolding bio_inv_def c l
  proof (intro conjI un)
    show "\<exists>xs. list_inv (bcache s) xs" using I by blast
    show "\<forall>i<NBUF. bdev (bcache ?t i) = - 1 \<and> flags (bcache ?t i) = {} \<or>
      bdev (bcache ?t i) = 1 \<and> B_VALID \<in> flags (bcache ?t i) \<and> sector (bcache ?t i) < disksize ?t
        \<and> length (data (bcache ?t i)) = 512"
      using I core ok b bio_repD(6) [OF rep b] by simp
    show "\<forall>i j. caches s i j \<and> B_BUSY \<notin> flags (bcache ?t i) \<and> B_DIRTY \<notin> flags (bcache ?t i) \<longrightarrow>
      data (bcache ?t i) = disk ?t j"
    proof (intro allI impI)
      fix i j assume a: "caches s i j \<and> B_BUSY \<notin> flags (bcache ?t i) \<and> B_DIRTY \<notin> flags (bcache ?t i)"
      show "data (bcache ?t i) = disk ?t j"
      proof (cases "i = b")
        case True
        with a u' coh show ?thesis by simp
      next
        case False
        with a u have "j \<noteq> k" by blast
        with a False I show ?thesis by simp
      qed
    qed
    show "\<forall>k < disksize ?t. length (disk ?t k) = 512" using I d by simp
  qed
  show ?thesis unfolding bio_rep_def c
  proof (intro conjI inv allI impI)
    fix i j assume "caches s i j"
    then show "(V(k := data (f (bcache s b)))) j = data (bcache ?t i)"
      using u u' bio_repD(1) [OF rep, of i j] by (cases "j = k"; cases "i = b") auto
  next
    fix j assume "\<forall>i. \<not> caches s i j"
    then show "(V(k := data (f (bcache s b)))) j = disk ?t j"
      using b bio_repD(2) [OF rep, of j] by (cases "j = k") auto
  next
    fix i j
    show "((H(k := if B_BUSY \<in> flags (f (bcache s b)) then Some b else None)) j = Some i) =
      (caches s i j \<and> B_BUSY \<in> flags (bcache ?t i))"
      using u u' I by (cases "j = k"; cases "i = b") auto
  next
    fix j
    show "(j \<in> (if B_DIRTY \<in> flags (f (bcache s b)) then insert k D else D - {k})) =
      (\<exists>i. caches s i j \<and> B_DIRTY \<in> flags (bcache ?t i))"
    proof (cases "j = k")
      case True
      then show ?thesis by (simp add: u)
    next
      case False
      with u' have "caches s i j \<Longrightarrow> i \<noteq> b" for i by blast
      with False bio_repD(4) [OF rep, of j] show ?thesis by auto
    qed
  qed
qed

lemma bio_rep_upd_same_disk:
  assumes "bio_rep s V H D" "caches s b k"
    and "bdev (f (bcache s b)) = 1" "sector (f (bcache s b)) = k"
      "nxt (f (bcache s b)) = nxt (bcache s b)" "prv (f (bcache s b)) = prv (bcache s b)"
    and "B_VALID \<in> flags (f (bcache s b))" "length (data (f (bcache s b))) = 512"
    and "B_BUSY \<notin> flags (f (bcache s b)) \<Longrightarrow> B_DIRTY \<notin> flags (f (bcache s b)) \<Longrightarrow>
      data (f (bcache s b)) = disk s k"
  shows "bio_rep (upd_buf b f s) (V(k := data (f (bcache s b))))
    (H(k := if B_BUSY \<in> flags (f (bcache s b)) then Some b else None))
    (if B_DIRTY \<in> flags (f (bcache s b)) then insert k D else D - {k})"
proof -
  have "length (disk s k) = 512"
    using assms(1) bio_repD(6) [OF assms(1,2)] by (simp add: bio_rep_def bio_inv_def)
  from bio_rep_upd [where f = f and w = "whist s", OF assms this] show ?thesis by (simp add: upd_bcache_def)
qed

lemma bio_rep_flags:
  assumes "bio_rep s V H D" "caches s b k" "B_VALID \<in> F"
    and "B_BUSY \<notin> F \<Longrightarrow> B_DIRTY \<notin> F \<Longrightarrow> V k = disk s k"
  shows "bio_rep (upd_buf b (\<lambda>p. p\<lparr>flags := F\<rparr>) s) V
    (H(k := if B_BUSY \<in> F then Some b else None)) (if B_DIRTY \<in> F then insert k D else D - {k})"
proof -
  have v: "V(k := data (bcache s b)) = V" using bio_repD(1) [OF assms(1,2)] by auto
  have "bio_rep (upd_buf b (\<lambda>p. p\<lparr>flags := F\<rparr>) s) (V(k := data (bcache s b)))
    (H(k := if B_BUSY \<in> F then Some b else None)) (if B_DIRTY \<in> F then insert k D else D - {k})"
    using bio_rep_upd_same_disk [OF assms(1,2), of "\<lambda>p. p\<lparr>flags := F\<rparr>"] assms(3,4)
      bio_repD(1,6) [OF assms(1,2)] assms(2) by (simp add: caches_def)
  then show ?thesis by (simp add: v)
qed

lemma bio_rep_data:
  assumes "bio_rep s V H D" "H k = Some b" "length d = 512"
  shows "bio_rep (upd_buf b (\<lambda>p. p\<lparr>data := d\<rparr>) s) (V(k := d)) H D"
proof -
  from bio_repD(3) [OF assms(1,2)] have c: "caches s b k" "B_BUSY \<in> flags (bcache s b)" by auto
  have "k \<in> D \<longleftrightarrow> B_DIRTY \<in> flags (bcache s b)"
    using bio_repD(4,5) [OF assms(1)] c(1) by blast
  then have e: "H(k := Some b) = H" "(if B_DIRTY \<in> flags (bcache s b) then insert k D else D - {k}) = D"
    using assms(2) by (auto simp: fun_eq_iff)
  have "bio_rep (upd_buf b (\<lambda>p. p\<lparr>data := d\<rparr>) s) (V(k := d)) (H(k := Some b))
      (if B_DIRTY \<in> flags (bcache s b) then insert k D else D - {k})"
    using bio_rep_upd_same_disk [OF assms(1) c(1), of "\<lambda>p. p\<lparr>data := d\<rparr>"] assms(3)
      bio_repD(6) [OF assms(1) c(1)] c by (simp add: caches_def)
  then show ?thesis by (simp only: e)
qed

lemma bio_rep_miss:
  assumes rep: "bio_rep s V H D" and k: "k < disksize s" "\<And>i. \<not> caches s i k"
    and b: "b < NBUF" "B_BUSY \<notin> flags (bcache s b)" "B_DIRTY \<notin> flags (bcache s b)"
  shows "bio_rep (upd_buf b (\<lambda>p. p\<lparr>bdev := 1, sector := k, data := disk s k, flags := {B_VALID, B_BUSY}\<rparr>) s)
    V (H(k \<mapsto> b)) D"
proof -
  let ?t = "upd_buf b (\<lambda>p. p\<lparr>bdev := 1, sector := k, data := disk s k, flags := {B_VALID, B_BUSY}\<rparr>) s"
  have c: "caches ?t i j = (if i = b then j = k else caches s i j)" for i j using b by (auto simp: caches_def)
  have l: "list_inv (bcache ?t) xs = list_inv (bcache s) xs" for xs by (rule list_inv_cong) simp
  note I = rep [unfolded bio_rep_def bio_inv_def]
  have len: "length (disk s k) = 512" using I k(1) by blast
  have "caches s b j \<Longrightarrow> data (bcache s b) = disk s j" for j using I b by blast
  then have V: "caches s b j \<Longrightarrow> V j = disk s j" for j using bio_repD(1) [OF rep] by metis
  have inv: "bio_inv ?t" unfolding bio_inv_def c l
  proof (intro conjI allI impI)
    show "\<exists>xs. list_inv (bcache s) xs" using I by blast
    fix i j m assume "(if i = b then m = k else caches s i m) \<and> (if j = b then m = k else caches s j m)"
    then show "i = j" using k(2) bio_repD(5) [OF rep, of i m j] by (auto split: if_splits)
  qed (insert I k len, auto)
  show ?thesis unfolding bio_rep_def c
  proof (intro conjI inv allI impI)
    fix i j assume "if i = b then j = k else caches s i j"
    then show "V j = data (bcache ?t i)"
      using bio_repD(1) [OF rep, of i j] bio_repD(2) [OF rep k(2)] by (auto split: if_splits)
  next
    fix j assume a: "\<forall>i. \<not> (if i = b then j = k else caches s i j)"
    show "V j = disk ?t j"
    proof (cases "caches s b j")
      case False
      with a have "\<not> caches s i j" for i by (metis (full_types))
      with bio_repD(2) [OF rep] show ?thesis by simp
    qed (simp add: V)
  next
    fix i j show "((H(k \<mapsto> b)) j = Some i) = ((if i = b then j = k else caches s i j) \<and> B_BUSY \<in> flags (bcache ?t i))"
      using I k(2) b(2) by (cases "j = k"; cases "i = b") auto
  next
    fix j show "(j \<in> D) = (\<exists>i. (if i = b then j = k else caches s i j) \<and> B_DIRTY \<in> flags (bcache ?t i))"
      using bio_repD(4) [OF rep, of j] b(3) by auto
  qed
qed

text \<open>The locks that the cache takes are free.\<close>

definition bio_ready :: "'z bio_st_scheme \<Rightarrow> bool" where
  "bio_ready s \<longleftrightarrow> settled s \<and> free_lock L_bcache s \<and> free_lock L_ptable s"

lemma bio_frame_ready: "bio_frame s t \<Longrightarrow> bio_ready t = bio_ready s"
  by (simp add: bio_ready_def bio_frame_mach)

lemma bio_ready_upd [simp]: "bio_ready (upd_bcache f s) = bio_ready s"
  by (simp add: bio_ready_def)

text \<open>Only the cache and the process table may differ.\<close>

definition cache_only :: "'z bio_st_scheme \<Rightarrow> 'z bio_st_scheme \<Rightarrow> bool" where
  "cache_only s t \<longleftrightarrow> bio_frame s t \<and> disk t = disk s \<and> whist t = whist s"

lemma cache_only_refl [simp]: "cache_only s s"
  by (simp add: cache_only_def)

lemma cache_only_upd [simp]: "cache_only s (upd_bcache f s)"
  by (simp add: cache_only_def)

lemma cache_only_trans: "cache_only s t \<Longrightarrow> cache_only t u \<Longrightarrow> cache_only s u"
  by (auto simp: cache_only_def dest: bio_frame_trans)

lemma iderw_read:
  assumes "B_BUSY \<in> flags (bcache s b)" "B_VALID \<notin> flags (bcache s b)" "B_DIRTY \<notin> flags (bcache s b)"
    "bdev (bcache s b) = 1" "sector (bcache s b) < disksize s"
  shows "iderw b s = Ok () (upd_buf b (\<lambda>p. p\<lparr>data := disk s (sector p), flags := insert B_VALID (flags p)\<rparr>) s)"
  using assms by (auto simp: iderw_def kdefs upd_bcache_def setb_def not_le intro!: bio_st.equality)

lemma iderw_write:
  assumes "B_BUSY \<in> flags (bcache s b)" "B_DIRTY \<in> flags (bcache s b)"
    "bdev (bcache s b) = 1" "sector (bcache s b) < disksize s"
  shows "iderw b s = Ok () ((upd_buf b (\<lambda>p. p\<lparr>flags := insert B_VALID (flags p - {B_DIRTY})\<rparr>) s)
    \<lparr>disk := (disk s)(sector (bcache s b) := data (bcache s b)),
     whist := whist s @ [(sector (bcache s b), data (bcache s b))]\<rparr>)"
proof -
  have "flags (bcache s b) \<inter> {B_VALID, B_DIRTY} \<noteq> {B_VALID}" using assms(2) by blast
  with assms show ?thesis
    by (auto simp: iderw_def kdefs upd_bcache_def setb_def not_le intro!: bio_st.equality)
qed

lemma bread_law:
  assumes "bio_ready s" "bio_rep s V H D" "k < disksize s" "H k = None"
    and room: "k \<in> D \<or> card (dom H \<union> D) < NBUF"
  shows "wp (bread 1 k) (\<lambda>b t. bio_rep t V (H(k \<mapsto> b)) D \<and> cache_only s t) s"
proof -
  from bio_repD(7) [OF assms(2)] obtain xs where xs: "list_inv (bcache s) xs" by blast
  then have set: "set xs = {..<NBUF}" by (simp add: list_inv_def)
  let ?P = "\<lambda>b. bdev (bcache s b) = 1 \<and> sector (bcache s b) = k"
  let ?Q = "\<lambda>b. B_BUSY \<notin> flags (bcache s b) \<and> B_DIRTY \<notin> flags (bcache s b)"
  have eq: "bget 1 k s = (case find ?P xs of
       Some b \<Rightarrow> if B_BUSY \<notin> flags (bcache s b)
                 then Ok b (upd_buf b (\<lambda>p. p\<lparr>flags := insert B_BUSY (flags p)\<rparr>) s)
                 else sleep (ChBuf b) (Some L_bcache) (acquired L_bcache s)
     | None \<Rightarrow> (case find ?Q (rev xs) of
            Some b \<Rightarrow> Ok b (upd_buf b (\<lambda>p. p\<lparr>bdev := 1, sector := k, flags := {B_BUSY}\<rparr>) s)
          | None \<Rightarrow> Panic ''bget: no buffers''))"
    using assms(1) xs by (intro bget_eq) (auto simp: bio_ready_def)
  show ?thesis
  proof (cases "find ?P xs")
    case (Some b)
    with set have c: "caches s b k" by (auto simp: find_Some_iff caches_def dest: nth_mem)
    with assms(2,4) have nb: "B_BUSY \<notin> flags (bcache s b)" by (metis bio_rep_def option.distinct(1))
    have D: "k \<in> D \<longleftrightarrow> B_DIRTY \<in> flags (bcache s b)" using bio_repD(4,5) [OF assms(2)] c by blast
    from bio_rep_flags [OF assms(2) c, of "insert B_BUSY (flags (bcache s b))"] bio_repD(6) [OF assms(2) c]
    have "bio_rep (upd_buf b (\<lambda>p. p\<lparr>flags := insert B_BUSY (flags (bcache s b))\<rparr>) s) V (H(k \<mapsto> b)) D"
      by (simp add: D insert_absorb split: if_splits)
    moreover have "upd_buf b (\<lambda>p. p\<lparr>flags := insert B_BUSY (flags (bcache s b))\<rparr>) s =
        upd_buf b (\<lambda>p. p\<lparr>flags := insert B_BUSY (flags p)\<rparr>) s" by (simp add: upd_bcache_def setb_def)
    ultimately show ?thesis using eq Some nb bio_repD(6) [OF assms(2) c]
      by (simp add: bread_def wp_rules wp_def [of "bget 1 k"])
  next
    case None
    with set have c: "\<not> caches s i k" for i by (auto simp: find_None_iff caches_def)
    with bio_repD(4) [OF assms(2)] room have "card (dom H \<union> D) < NBUF" by blast
    from victim_exists [OF assms(2) this] set obtain b where b: "find ?Q (rev xs) = Some b"
      by (metis (no_types, lifting) find_None_iff lessThan_iff not_Some_eq set_rev)
    from find_SomeD [OF this] set have bb: "b < NBUF" "?Q b" by auto
    let ?t = "upd_buf b (\<lambda>p. p\<lparr>bdev := 1, sector := k, flags := {B_BUSY}\<rparr>) s"
    have "iderw b ?t = Ok () (upd_buf b (\<lambda>p. p\<lparr>bdev := 1, sector := k, data := disk s k, flags := {B_VALID, B_BUSY}\<rparr>) s)"
      using assms(3) by (subst iderw_read) (auto simp: upd_bcache_def setb_def)
    with bio_rep_miss [OF assms(2,3) c bb(1)] bb eq None b show ?thesis
      by (simp add: bread_def wp_rules wp_def [of "bget 1 k"] wp_def [of "iderw b"])
  qed
qed

lemma bwrite_law:
  assumes "bio_rep s V H D" "H k = Some b"
  shows "wp (bwrite b) (\<lambda>_ t. bio_rep t V H (D - {k}) \<and> bio_frame s t \<and> disk t = (disk s)(k := V k)
    \<and> whist t = whist s @ [(k, V k)]) s"
proof -
  from bio_repD(3) [OF assms] have c: "caches s b k" and busy: "B_BUSY \<in> flags (bcache s b)" by auto
  then have sec: "bdev (bcache s b) = 1" "sector (bcache s b) = k" by (simp_all add: caches_def)
  note ok = bio_repD(1,6) [OF assms(1) c]
  let ?f = "\<lambda>p. p\<lparr>flags := insert B_VALID (insert B_DIRTY (flags p) - {B_DIRTY})\<rparr>"
  let ?t = "(upd_buf b ?f s)\<lparr>disk := (disk s)(k := V k), whist := whist s @ [(k, V k)]\<rparr>"
  have "iderw b (upd_buf b (\<lambda>p. p\<lparr>flags := insert B_DIRTY (flags p)\<rparr>) s) = Ok () ?t"
    using busy sec ok by (subst iderw_write) (auto simp: upd_bcache_def setb_def)
  then have "bwrite b s = Ok () ?t" using busy by (simp add: bwrite_def kdefs)
  moreover have e: "V(k := V k) = V" "H(k := Some b) = H" using assms(2) by auto
  have "bio_rep ?t (V(k := V k)) (H(k := Some b)) (D - {k})"
    using bio_rep_upd [OF assms(1) c, of ?f "V k" "whist s @ [(k, V k)]"] sec ok busy by simp
  moreover have "bio_frame s ?t"
    using bio_frameI [of s "ptable s" "whist s @ [(k, V k)]" "(disk s)(k := V k)"] by (simp add: upd_bcache_def)
  ultimately show ?thesis by (simp add: wp_def e)
qed

lemma brelse_law:
  assumes "bio_ready s" "bio_rep s V H D" "H k = Some b" and clean: "k \<in> D \<or> V k = disk s k"
  shows "wp (brelse b) (\<lambda>_ t. bio_rep t V (H(k := None)) D \<and> cache_only s t) s"
proof -
  from bio_repD(3) [OF assms(2,3)] have c: "caches s b k" and busy: "B_BUSY \<in> flags (bcache s b)" by auto
  let ?F = "flags (bcache s b) - {B_BUSY}"
  let ?u = "upd_buf b (\<lambda>p. p\<lparr>flags := ?F\<rparr>) s"
  let ?t = "(upd_bcache (brelse_bc b) s)\<lparr>ptable := map (wake_proc (ChBuf b)) (ptable s)\<rparr>"
  have D: "k \<in> D \<longleftrightarrow> B_DIRTY \<in> flags (bcache s b)" using bio_repD(4,5) [OF assms(2)] c by blast
  from bio_rep_flags [OF assms(2) c, of ?F] bio_repD(6) [OF assms(2) c] clean
  have u: "bio_rep ?u V (H(k := None)) D" by (auto simp: D insert_absorb split: if_splits)
  have core: "flags (bcache ?t i) = flags (bcache ?u i)" "bdev (bcache ?t i) = bdev (bcache ?u i)"
    "sector (bcache ?t i) = sector (bcache ?u i)" "data (bcache ?t i) = data (bcache ?u i)" for i
    by (simp_all add: brelse_bc_def)
  have cc: "caches ?t i j = caches ?u i j" for i j unfolding caches_def core ..
  obtain xs where "list_inv (bcache s) xs" using bio_repD(7) [OF assms(2)] by blast
  from move_to_front [OF this] c have "list_inv (link_head b (unlink_buf b (bcache s))) (b # remove1 b xs)"
    by (simp add: caches_def)
  then have "\<exists>ys. list_inv (bcache ?t) ys"
    using list_inv_cong [of "bcache ?t" "link_head b (unlink_buf b (bcache s))"] by (auto simp: brelse_bc_def)
  with u have "bio_rep ?t V (H(k := None)) D"
    unfolding bio_rep_def bio_inv_def cc core by (simp add: bio_rep_def bio_inv_def)
  moreover have "?t = s\<lparr>ptable := map (wake_proc (ChBuf b)) (ptable s), bcache := brelse_bc b (bcache s),
      disk := disk s, whist := whist s\<rparr>"
    by (auto simp: upd_bcache_def intro!: bio_st.equality)
  then have "cache_only s ?t"
    using bio_frameI [OF woken_wakeup [of "ptable s" "ChBuf b"], of "whist s" "disk s" "brelse_bc b (bcache s)"]
    by (simp add: cache_only_def)
  moreover have "brelse b s = Ok () ?t" using assms(1) busy by (intro brelse_eq) (auto simp: bio_ready_def)
  ultimately show ?thesis by (simp add: wp_def)
qed

section \<open>The contract of the cache\<close>

text \<open>
  An array of sectors behind a cache of \<open>cap\<close> buffers. \<open>rd\<close> pins a sector, \<open>gt\<close> and \<open>pt\<close> read and
  replace the contents of a pinned buffer, \<open>wr\<close> writes it through, \<open>rel\<close> unpins it. In \<open>rep s V H D\<close>,
  \<open>V\<close> is what readers see, \<open>H\<close> the pinned sectors, \<open>D\<close> the sectors that may differ from the disk
  while unpinned.
\<close>

locale sector_store =
  fixes rd :: "uint \<Rightarrow> (nat, 's) kern"
    and gt :: "nat \<Rightarrow> 's \<Rightarrow> byte list"
    and pt :: "nat \<Rightarrow> byte list \<Rightarrow> 's \<Rightarrow> 's"
    and wr :: "nat \<Rightarrow> (unit, 's) kern"
    and rel :: "nat \<Rightarrow> (unit, 's) kern"
    and rep :: "'s \<Rightarrow> (uint \<Rightarrow> byte list) \<Rightarrow> (uint \<rightharpoonup> nat) \<Rightarrow> uint set \<Rightarrow> bool"
    and dsk :: "'s \<Rightarrow> uint \<Rightarrow> byte list"
    and hist :: "'s \<Rightarrow> (uint \<times> byte list) list"
    and nsec :: "'s \<Rightarrow> uint"
    and frame :: "'s \<Rightarrow> 's \<Rightarrow> bool"
    and cap :: nat
  assumes rd_ok: "rep s V H D \<Longrightarrow> k < nsec s \<Longrightarrow> H k = None \<Longrightarrow> k \<in> D \<or> card (dom H \<union> D) < cap \<Longrightarrow>
      wp (rd k) (\<lambda>b t. rep t V (H(k \<mapsto> b)) D \<and> dsk t = dsk s \<and> hist t = hist s \<and> frame s t) s"
    and gt_ok: "rep s V H D \<Longrightarrow> H k = Some b \<Longrightarrow> gt b s = V k"
    and pt_ok: "rep s V H D \<Longrightarrow> H k = Some b \<Longrightarrow> length d = 512 \<Longrightarrow>
      rep (pt b d s) (V(k := d)) H D \<and> dsk (pt b d s) = dsk s \<and> hist (pt b d s) = hist s \<and> frame s (pt b d s)"
    and wr_ok: "rep s V H D \<Longrightarrow> H k = Some b \<Longrightarrow>
      wp (wr b) (\<lambda>_ t. rep t V H (D - {k}) \<and> dsk t = (dsk s)(k := V k) \<and> hist t = hist s @ [(k, V k)] \<and> frame s t) s"
    and rel_ok: "rep s V H D \<Longrightarrow> H k = Some b \<Longrightarrow> k \<in> D \<or> V k = dsk s k \<Longrightarrow>
      wp (rel b) (\<lambda>_ t. rep t V (H(k := None)) D \<and> dsk t = dsk s \<and> hist t = hist s \<and> frame s t) s"
    and view_len: "rep s V H D \<Longrightarrow> k < nsec s \<Longrightarrow> length (V k) = 512"
    and view_clean: "rep s V H D \<Longrightarrow> H k = None \<Longrightarrow> k \<notin> D \<Longrightarrow> V k = dsk s k"
    and frame_refl: "frame s s"
    and frame_trans: "frame s t \<Longrightarrow> frame t u \<Longrightarrow> frame s u"
    and frame_nsec: "frame s t \<Longrightarrow> nsec t = nsec s"
begin

text \<open>The laws as equations, for symbolic execution.\<close>

lemma rdE:
  assumes "rep s V H D" "k < nsec s" "H k = None" "k \<in> D \<or> card (dom H \<union> D) < cap"
  obtains b t where "rd k s = Ok b t" "rep t V (H(k \<mapsto> b)) D" "dsk t = dsk s" "hist t = hist s" "frame s t"
    "gt b t = V k"
proof -
  from rd_ok [OF assms] obtain b t where t: "rd k s = Ok b t" "rep t V (H(k \<mapsto> b)) D" "dsk t = dsk s"
    "hist t = hist s" "frame s t" by (auto simp: wp_returns)
  from t(2) have "gt b t = V k" by (rule gt_ok) simp
  with t show ?thesis by (rule that)
qed

lemma ptE:
  assumes "rep s V H D" "H k = Some b" "length d = 512"
  shows "rep (pt b d s) (V(k := d)) H D" "dsk (pt b d s) = dsk s" "hist (pt b d s) = hist s" "frame s (pt b d s)"
  using pt_ok [OF assms] by auto

lemma wrE:
  assumes "rep s V H D" "H k = Some b"
  obtains t where "wr b s = Ok () t" "rep t V H (D - {k})" "dsk t = (dsk s)(k := V k)"
    "hist t = hist s @ [(k, V k)]" "frame s t"
  using wr_ok [OF assms] by (auto simp: wp_returns)

lemma relE:
  assumes "rep s V H D" "H k = Some b" "k \<in> D \<or> V k = dsk s k"
  obtains t where "rel b s = Ok () t" "rep t V (H(k := None)) D" "dsk t = dsk s" "hist t = hist s" "frame s t"
  using rel_ok [OF assms] by (auto simp: wp_returns)

text \<open>Read a sector and let it go again.\<close>

lemma read_sector:
  assumes "rep s V H D" "k < nsec s" "H k = None" "k \<in> D \<or> card (dom H \<union> D) < cap"
  shows "wp (bindK (rd k) (\<lambda>b. bindK (getK (gt b)) (\<lambda>d. seqK (rel b) (ret d))))
    (\<lambda>r t. r = V k \<and> rep t V H D \<and> dsk t = dsk s \<and> hist t = hist s \<and> frame s t) s"
proof -
  obtain b t where t: "rd k s = Ok b t" "rep t V (H(k \<mapsto> b)) D" "dsk t = dsk s" "hist t = hist s" "frame s t"
    "gt b t = V k" using assms by (rule rdE)
  have "k \<in> D \<or> V k = dsk t k" using view_clean [OF assms(1,3)] t(3) by metis
  then obtain u where u: "rel b t = Ok () u" "rep u V (H(k \<mapsto> b, k := None)) D" "dsk u = dsk t"
    "hist u = hist t" "frame t u" using relE [OF t(2), of k b] by auto
  moreover have "H(k \<mapsto> b, k := None) = H" using assms(3) by auto
  ultimately show ?thesis using t frame_trans by (auto simp: wp_def kdefs)
qed

text \<open>Read a sector, change it, write it through and let it go.\<close>

lemma update_sector:
  assumes "rep s V H D" "k < nsec s" "H k = None" "k \<in> D \<or> card (dom H \<union> D) < cap" "length (f (V k)) = 512"
  shows "wp (bindK (rd k) (\<lambda>b. seqK (modK (\<lambda>s. pt b (f (gt b s)) s)) (seqK (wr b) (rel b))))
    (\<lambda>_ t. rep t (V(k := f (V k))) H (D - {k}) \<and> dsk t = (dsk s)(k := f (V k))
       \<and> hist t = hist s @ [(k, f (V k))] \<and> frame s t) s"
proof -
  obtain b t where t: "rd k s = Ok b t" "rep t V (H(k \<mapsto> b)) D" "dsk t = dsk s" "hist t = hist s" "frame s t"
    "gt b t = V k" using assms(1-4) by (rule rdE)
  have b: "(H(k \<mapsto> b)) k = Some b" by simp
  let ?p = "pt b (f (V k)) t" and ?V = "V(k := f (V k))"
  note p = ptE [OF t(2) b assms(5)]
  obtain u where u: "wr b ?p = Ok () u" "rep u ?V (H(k \<mapsto> b)) (D - {k})" "dsk u = (dsk ?p)(k := ?V k)"
    "hist u = hist ?p @ [(k, ?V k)]" "frame ?p u" by (rule wrE [OF p(1) b])
  have "k \<in> D - {k} \<or> ?V k = dsk u k" using u(3) by simp
  then obtain w where w: "rel b u = Ok () w" "rep w ?V (H(k \<mapsto> b, k := None)) (D - {k})" "dsk w = dsk u"
    "hist w = hist u" "frame u w" by (rule relE [OF u(2) b])
  have "frame s w" using t(5) p(4) u(5) w(5) frame_trans by meson
  moreover have "H(k \<mapsto> b, k := None) = H" using assms(3) by auto
  ultimately show ?thesis using t p u w by (simp add: wp_def kdefs)
qed

text \<open>
  Copy sector \<open>a\<close> over sector \<open>c\<close>, both pinned at the same time, as the log does; the number of the
  second is looked up (\<open>sel\<close>) while the first is pinned.
\<close>

lemma copy_sector:
  assumes "rep s V H D" "a < nsec s" "c < nsec s" "H a = None" "H c = None" "a \<noteq> c" "a \<notin> D"
    "c \<in> D \<or> card (insert a (dom H \<union> D)) < cap" "card (dom H \<union> D) < cap" "\<And>t. frame s t \<Longrightarrow> sel t = c"
  shows "wp (bindK (rd a) (\<lambda>x. bindK (getK sel) (\<lambda>k. bindK (rd k) (\<lambda>y. seqK (modK (\<lambda>s. pt y (gt x s) s))
      (seqK (wr y) (seqK (rel x) (rel y)))))))
    (\<lambda>_ t. rep t (V(c := V a)) H (D - {c}) \<and> dsk t = (dsk s)(c := V a)
       \<and> hist t = hist s @ [(c, V a)] \<and> frame s t) s"
proof -
  obtain x t where t: "rd a s = Ok x t" "rep t V (H(a \<mapsto> x)) D" "dsk t = dsk s" "hist t = hist s" "frame s t"
    using assms(9) by (rule rdE [OF assms(1,2,4) disjI2])
  have d: "dom (H(a \<mapsto> x)) \<union> D = insert a (dom H \<union> D)" by auto
  have c: "c < nsec t" "(H(a \<mapsto> x)) c = None" "c \<in> D \<or> card (dom (H(a \<mapsto> x)) \<union> D) < cap"
    unfolding d frame_nsec [OF t(5)] using assms by simp_all
  obtain y u where u: "rd c t = Ok y u" "rep u V (H(a \<mapsto> x, c \<mapsto> y)) D" "dsk u = dsk t" "hist u = hist t" "frame t u"
    by (rule rdE [OF t(2) c])
  let ?H = "H(a \<mapsto> x, c \<mapsto> y)" and ?p = "pt y (V a) u" and ?V = "V(c := V a)"
  have h: "?H a = Some x" "?H c = Some y" "(?H(a := None)) c = Some y" using assms(6) by auto
  have g: "gt x u = V a" using u(2) h(1) by (rule gt_ok)
  have len: "length (V a) = 512" using assms(1,2) by (rule view_len)
  note p = ptE [OF u(2) h(2) len]
  obtain v where v: "wr y ?p = Ok () v" "rep v ?V ?H (D - {c})" "dsk v = (dsk ?p)(c := ?V c)"
    "hist v = hist ?p @ [(c, ?V c)]" "frame ?p v" by (rule wrE [OF p(1) h(2)])
  have "V a = dsk s a" using assms(1,4,7) by (rule view_clean)
  then have "a \<in> D - {c} \<or> ?V a = dsk v a" using assms(6) v p u t by simp
  then obtain w where w: "rel x v = Ok () w" "rep w ?V (?H(a := None)) (D - {c})" "dsk w = dsk v"
    "hist w = hist v" "frame v w" by (rule relE [OF v(2) h(1)])
  have "c \<in> D - {c} \<or> ?V c = dsk w c" using w(3) v(3) by simp
  then obtain z where z: "rel y w = Ok () z" "rep z ?V (?H(a := None, c := None)) (D - {c})" "dsk z = dsk w"
    "hist z = hist w" "frame w z" by (rule relE [OF w(2) h(3)])
  have "frame s z" using t(5) u(5) p(4) v(5) w(5) z(5) frame_trans by meson
  moreover have "?H(a := None, c := None) = H" using assms(4,5) by auto
  ultimately show ?thesis using t u p v w z g assms(10) [OF t(5)] by (simp add: wp_def kdefs)
qed

end

section \<open>The cache keeps the contract\<close>

definition bio_ok :: "'z bio_st_scheme \<Rightarrow> (uint \<Rightarrow> byte list) \<Rightarrow> (uint \<rightharpoonup> nat) \<Rightarrow> uint set \<Rightarrow> bool" where
  "bio_ok s V H D \<longleftrightarrow> bio_ready s \<and> bio_rep s V H D"

definition buf_data :: "nat \<Rightarrow> 'z bio_st_scheme \<Rightarrow> byte list" where
  "buf_data b s = data (bcache s b)"

definition set_buf_data :: "nat \<Rightarrow> byte list \<Rightarrow> 'z bio_st_scheme \<Rightarrow> 'z bio_st_scheme" where
  "set_buf_data b d = upd_buf b (\<lambda>p. p\<lparr>data := d\<rparr>)"

lemma bio_view_clean:
  assumes "bio_rep s V H D" "H k = None" "k \<notin> D"
  shows "V k = disk s k"
proof (cases "\<exists>i. caches s i k")
  case True
  then obtain i where i: "caches s i k" by blast
  with assms have "B_BUSY \<notin> flags (bcache s i)" "B_DIRTY \<notin> flags (bcache s i)"
    by (metis bio_rep_def option.distinct(1), metis bio_repD(4))
  with i assms(1) have "data (bcache s i) = disk s k" by (simp add: bio_rep_def bio_inv_def)
  with bio_repD(1) [OF assms(1) i] show ?thesis by simp
qed (use bio_repD(2) [OF assms(1)] in blast)

interpretation bc: sector_store "bread 1" buf_data set_buf_data bwrite brelse bio_ok disk whist disksize bio_frame NBUF
proof unfold_locales
  fix s :: "'z bio_st_scheme" and V H D k
  assume "bio_ok s V H D" "k < disksize s" "H k = None" "k \<in> D \<or> card (dom H \<union> D) < NBUF"
  then show "wp (bread 1 k) (\<lambda>b t. bio_ok t V (H(k \<mapsto> b)) D \<and> disk t = disk s \<and> whist t = whist s \<and> bio_frame s t) s"
    by (auto simp: bio_ok_def cache_only_def bio_frame_ready intro!: wp_mono [OF bread_law])
next
  fix s :: "'z bio_st_scheme" and V H D k b
  assume "bio_ok s V H D" "H k = Some b"
  then show "buf_data b s = V k" by (metis bio_ok_def buf_data_def bio_repD(1,3))
next
  fix s :: "'z bio_st_scheme" and V H D k b
  assume "bio_ok s V H D" "H k = Some b"
  then show "wp (bwrite b) (\<lambda>_ t. bio_ok t V H (D - {k}) \<and> disk t = (disk s)(k := V k)
      \<and> whist t = whist s @ [(k, V k)] \<and> bio_frame s t) s"
    by (auto simp: bio_ok_def bio_frame_ready intro!: wp_mono [OF bwrite_law])
next
  fix s :: "'z bio_st_scheme" and V H D k b and d :: "byte list"
  assume "bio_ok s V H D" "H k = Some b" "length d = 512"
  then show "bio_ok (set_buf_data b d s) (V(k := d)) H D \<and> disk (set_buf_data b d s) = disk s
      \<and> whist (set_buf_data b d s) = whist s \<and> bio_frame s (set_buf_data b d s)"
    by (simp add: bio_ok_def set_buf_data_def bio_rep_data)
next
  fix s :: "'z bio_st_scheme" and V H D k b
  assume "bio_ok s V H D" "H k = Some b" "k \<in> D \<or> V k = disk s k"
  then show "wp (brelse b) (\<lambda>_ t. bio_ok t V (H(k := None)) D \<and> disk t = disk s \<and> whist t = whist s \<and> bio_frame s t) s"
    by (auto simp: bio_ok_def cache_only_def bio_frame_ready intro!: wp_mono [OF brelse_law])
qed (auto simp: bio_ok_def bio_frame_mach intro: bio_rep_len bio_view_clean bio_frame_trans)

section \<open>Initialisation\<close>

lemma forK_modK: "forK is (\<lambda>i. modK (g i)) s = Ok () (fold g is s)"
  by (induction "is" arbitrary: s) (simp_all add: kdefs)

definition binit_buf :: "nat \<Rightarrow> bufs \<Rightarrow> bufs" where
  "binit_buf b bc = link_head b (setb b (\<lambda>p. p\<lparr>bdev := - 1\<rparr>) bc)"

lemma fold_upd_bcache: "fold (\<lambda>b. upd_bcache (g b)) is s = upd_bcache (fold g is) s"
  by (induction "is" arbitrary: s) (simp_all add: upd_bcache_comp comp_def, simp add: upd_bcache_def)

lemma binit_loop:
  assumes "nxt (bc HEAD) = HEAD" "prv (bc HEAD) = HEAD" "n \<le> NBUF"
  defines "bc' \<equiv> fold binit_buf [0..<n] bc"
  shows "dll (nx bc') (pv bc') HEAD (rev [0..<n]) \<and> (\<forall>i. flags (bc' i) = flags (bc i)) \<and> (\<forall>i < n. bdev (bc' i) = - 1)"
  using assms(3) unfolding bc'_def
proof (induction n)
  case 0
  with assms show ?case by (simp add: dll_def)
next
  case (Suc n)
  let ?c = "setb n (\<lambda>p. p\<lparr>bdev := - 1\<rparr>) (fold binit_buf [0..<n] bc)"
  have n: "n \<noteq> HEAD" "n \<notin> set (rev [0..<n])" using Suc.prems by (simp_all add: HEAD_def NBUF_def)
  have "nx ?c = nx (fold binit_buf [0..<n] bc)" "pv ?c = pv (fold binit_buf [0..<n] bc)" by auto
  with Suc have "dll (nx ?c) (pv ?c) HEAD (rev [0..<n])" by simp
  from dll_push [OF this n] link_head_links [OF n(1), of ?c]
  have "dll (nx (link_head n ?c)) (pv (link_head n ?c)) HEAD (n # rev [0..<n])" by simp
  with Suc show ?case by (auto simp: binit_buf_def [of n] less_Suc_eq)
qed

lemma binit_eq:
  "binit s = Ok () ((upd_bcache (fold binit_buf [0..<NBUF] \<circ> (setb HEAD (\<lambda>p. p\<lparr>prv := HEAD, nxt := HEAD\<rparr>))) s)
     \<lparr>locks := (locks s)(L_bcache := \<lparr>locked = 0, lname = ''bcache'', lcpu = None\<rparr>)\<rparr>)"
proof -
  have m: "(\<lambda>b. modK (\<lambda>s. upd_bcache (link_head b) (upd_buf b (\<lambda>p. p\<lparr>bdev := - 1\<rparr>) s)))
      = (\<lambda>b. modK (upd_bcache (binit_buf b)) :: (unit, 'a bio_st_scheme) kern)"
    by (simp add: fun_eq_iff upd_bcache_comp binit_buf_def [abs_def])
  show ?thesis unfolding binit_def m
    by (simp add: kdefs initlock_def forK_modK fold_upd_bcache)
       (auto simp: upd_bcache_def setb_def intro!: bio_st.equality)
qed

lemma binit_rep:
  assumes "\<forall>i < NBUF. flags (bcache s i) = {}" "\<forall>k < disksize s. length (disk s k) = 512"
  shows "wp binit (\<lambda>_ t. bio_rep t (disk s) (\<lambda>_. None) {} \<and> list_inv (bcache t) (rev [0..<NBUF])
    \<and> (\<forall>i < NBUF. bdev (bcache t i) = - 1 \<and> flags (bcache t i) = {})) s"
proof -
  let ?bc = "(setb HEAD (\<lambda>p. p\<lparr>prv := HEAD, nxt := HEAD\<rparr>)) (bcache s)"
  note l = binit_loop [of ?bc NBUF, simplified]
  let ?t = "(upd_bcache (fold binit_buf [0..<NBUF] \<circ> (setb HEAD (\<lambda>p. p\<lparr>prv := HEAD, nxt := HEAD\<rparr>))) s)
     \<lparr>locks := (locks s)(L_bcache := \<lparr>locked = 0, lname = ''bcache'', lcpu = None\<rparr>)\<rparr>"
  have b: "bcache ?t = fold binit_buf [0..<NBUF] ?bc" by (simp add: upd_bcache_def)
  have li: "list_inv (bcache ?t) (rev [0..<NBUF])" unfolding list_inv_def b using l by auto
  have un: "bdev (bcache ?t i) = - 1 \<and> flags (bcache ?t i) = {}" if "i < NBUF" for i
    unfolding b using l that assms(1) by (simp add: HEAD_def NBUF_def)
  then have nc: "\<not> caches ?t i k" for i k by (auto simp: caches_def)
  have d: "disk ?t = disk s" "disksize ?t = disksize s" by (simp_all add: upd_bcache_def)
  have "bio_rep ?t (disk s) (\<lambda>_. None) {}"
    unfolding bio_rep_def bio_inv_def d using li un nc assms(2) by blast
  with li un show ?thesis unfolding wp_def binit_eq by simp
qed

section \<open>Properties\<close>

definition bio_boot :: bio_st where
  "bio_boot = \<lparr>cpu = 0, ncli = 0, intena = False, ifl = False,
     locks = (\<lambda>_. \<lparr>locked = 0, lname = ''lock'', lcpu = None\<rparr>), mem = (\<lambda>_. 0),
     kend = 0xFFFFFFFF80110000, use_lock = True, freelist = 0,
     ptable = replicate 64 proc0, curproc = Some 3, initproc = Some 0, nextpid = 5,
     bcache = (\<lambda>_. \<lparr>flags = {}, bdev = 0, sector = 0, prv = 0, nxt = 0, qnext = None, data = []\<rparr>),
     disk = (\<lambda>k. replicate 512 (ucast k)), disksize = 1024, whist = []\<rparr>"

lemma bio_boot_ok:
  obtains t where "binit bio_boot = Ok () t" "bio_ok t (disk bio_boot) (\<lambda>_. None) {}" "disksize t = 1024"
    "list_inv (bcache t) (rev [0..<NBUF])" "\<forall>i < NBUF. bdev (bcache t i) = - 1 \<and> flags (bcache t i) = {}"
proof -
  have "\<forall>i < NBUF. flags (bcache bio_boot i) = {}" "\<forall>k < disksize bio_boot. length (disk bio_boot k) = 512"
    by (simp_all add: bio_boot_def)
  from binit_rep [OF this] obtain t where t: "binit bio_boot = Ok () t" "bio_rep t (disk bio_boot) (\<lambda>_. None) {}"
    "list_inv (bcache t) (rev [0..<NBUF])" "\<forall>i < NBUF. bdev (bcache t i) = - 1 \<and> flags (bcache t i) = {}"
    by (auto simp: wp_returns)
  from t(1) have "bio_ready t" "disksize t = 1024"
    by (auto simp: binit_eq bio_ready_def bio_boot_def settled_def mach_ok_def free_lock_def upd_bcache_def)
  with t show thesis by (intro that) (auto simp: bio_ok_def)
qed

text \<open>
  C9. \<^verbatim>\<open>bread\<close> of a sector that is in range and not held returns, without sleeping or panicking, a
  buffer that belongs to that sector and holds its current contents (the cached version if
  there is one, else the disk's); the sector is then held by that buffer, nothing that any
  reader sees changes, and the disk is not written. It is enough that the sector is dirty or
  that fewer than \<^verbatim>\<open>NBUF\<close> sectors are held or dirty.
\<close>

theorem bread_returns_sector:
  assumes "bio_ok s V H D" and "k < disksize s" and "H k = None" and "k \<in> D \<or> card (dom H \<union> D) < NBUF"
  shows "wp (bread 1 k) (\<lambda>b t. sector (bcache t b) = k \<and> data (bcache t b) = V k \<and> B_BUSY \<in> flags (bcache t b)
    \<and> bio_ok t V (H(k \<mapsto> b)) D \<and> disk t = disk s \<and> whist t = whist s) s"
proof -
  obtain b t where t: "bread 1 k s = Ok b t" "bio_ok t V (H(k \<mapsto> b)) D" "disk t = disk s" "whist t = whist s"
    "buf_data b t = V k" using assms by (rule bc.rdE)
  have "caches t b k \<and> B_BUSY \<in> flags (bcache t b)"
    using t(2) bio_repD(3) [of t V "H(k \<mapsto> b)" D k b] by (simp add: bio_ok_def)
  with t show ?thesis by (simp add: wp_def buf_data_def caches_def)
qed

theorem bread_returns_sector_witness:
  "\<exists>t. binit bio_boot = Ok () t \<and> wp (bread 1 7) (\<lambda>b u. data (bcache u b) = replicate 512 7) t"
proof -
  obtain t where t: "binit bio_boot = Ok () t" "bio_ok t (disk bio_boot) (\<lambda>_. None) {}" "disksize t = 1024"
    by (rule bio_boot_ok)
  have "wp (bread 1 7) (\<lambda>b u. data (bcache u b) = disk bio_boot 7) t"
    by (rule wp_mono [OF bread_returns_sector [OF t(2)]]) (simp_all add: t(3) NBUF_def)
  moreover have "disk bio_boot 7 = replicate 512 7" by (simp add: bio_boot_def)
  ultimately show ?thesis using t(1) by auto
qed

text \<open>
  C10. Reading a sector, changing its contents, \<^verbatim>\<open>bwrite\<close> and \<^verbatim>\<open>brelse\<close> update exactly that sector: what
  readers see and the disk change there to the new contents and nowhere else, the disk
  performs one sector write, the buffer is no longer held and the sector is clean.
\<close>

theorem bwrite_updates_one_sector:
  assumes "bio_ok s V H D" and "k < disksize s" and "H k = None" and "k \<in> D \<or> card (dom H \<union> D) < NBUF"
    and "length (f (V k)) = 512"
  shows "wp (bindK (bread 1 k) (\<lambda>b. seqK (modK (\<lambda>s. set_buf_data b (f (buf_data b s)) s)) (seqK (bwrite b) (brelse b))))
    (\<lambda>_ t. bio_ok t (V(k := f (V k))) H (D - {k}) \<and> disk t = (disk s)(k := f (V k))
       \<and> whist t = whist s @ [(k, f (V k))] \<and> bio_frame s t) s"
  using assms by (rule bc.update_sector)

theorem bwrite_updates_one_sector_witness:
  "\<exists>t. binit bio_boot = Ok () t \<and>
     wp (bindK (bread 1 7) (\<lambda>b. seqK (modK (\<lambda>s. set_buf_data b (rev (buf_data b s)) s)) (seqK (bwrite b) (brelse b))))
       (\<lambda>_ u. disk u 7 = replicate 512 7 \<and> disk u 8 = replicate 512 8 \<and> length (whist u) = Suc (length (whist t))) t"
proof -
  obtain t where t: "binit bio_boot = Ok () t" "bio_ok t (disk bio_boot) (\<lambda>_. None) {}" "disksize t = 1024"
    by (rule bio_boot_ok)
  have d: "disk t k = replicate 512 (ucast k)" for k
    using t(2) bio_view_clean [of t "disk bio_boot" "\<lambda>_. None" "{}" k] by (simp add: bio_ok_def bio_boot_def)
  have v: "disk bio_boot 7 = replicate 512 7" by (simp add: bio_boot_def)
  show ?thesis
    by (intro exI [of _ t] conjI t(1), rule wp_mono [OF bwrite_updates_one_sector [OF t(2)]])
       (simp_all add: t(3) NBUF_def v d)
qed

text \<open>
  C11. The cache recycles the least recently used buffer. \<^verbatim>\<open>brelse\<close> moves the buffer to the front of
  a list that stays well formed in both directions and keeps the order of the others; when a
  sector is not cached, \<^verbatim>\<open>bget\<close> takes the buffer furthest from the front that is neither held
  nor dirty, and panics exactly when there is none.
\<close>

theorem cache_is_lru:
  assumes "bio_ready s" and "list_inv (bcache s) xs"
  shows "(b < NBUF \<and> B_BUSY \<in> flags (bcache s b) \<longrightarrow>
      wp (brelse b) (\<lambda>_ t. list_inv (bcache t) (b # remove1 b xs) \<and> B_BUSY \<notin> flags (bcache t b)) s)
    \<and> ((\<forall>i < NBUF. \<not> (bdev (bcache s i) = dv \<and> sector (bcache s i) = sec)) \<longrightarrow>
        (case filter (\<lambda>i. B_BUSY \<notin> flags (bcache s i) \<and> B_DIRTY \<notin> flags (bcache s i)) xs of
           [] \<Rightarrow> bget dv sec s = Panic ''bget: no buffers''
         | ys \<Rightarrow> wp (bget dv sec) (\<lambda>r t. r = last ys \<and> list_inv (bcache t) xs) s))"
proof (intro conjI impI)
  assume b: "b < NBUF \<and> B_BUSY \<in> flags (bcache s b)"
  have "list_inv (brelse_bc b (bcache s)) (b # remove1 b xs)"
    using move_to_front [OF assms(2), of b] b
      list_inv_cong [of "brelse_bc b (bcache s)" "link_head b (unlink_buf b (bcache s))"]
    by (auto simp: brelse_bc_def)
  with assms b show "wp (brelse b) (\<lambda>_ t. list_inv (bcache t) (b # remove1 b xs) \<and> B_BUSY \<notin> flags (bcache t b)) s"
    by (simp add: wp_def brelse_eq bio_ready_def) (simp add: brelse_bc_def)
next
  let ?Q = "\<lambda>i. B_BUSY \<notin> flags (bcache s i) \<and> B_DIRTY \<notin> flags (bcache s i)"
  assume nc: "\<forall>i < NBUF. \<not> (bdev (bcache s i) = dv \<and> sector (bcache s i) = sec)"
  have miss: "find (\<lambda>b. bdev (bcache s b) = dv \<and> sector (bcache s b) = sec) xs = None"
    using nc assms(2) by (auto simp: find_None_iff list_inv_def)
  have eq: "bget dv sec s = (case find ?Q (rev xs) of None \<Rightarrow> Panic ''bget: no buffers''
      | Some b \<Rightarrow> Ok b (upd_buf b (\<lambda>p. p\<lparr>bdev := dv, sector := sec, flags := {B_BUSY}\<rparr>) s))"
    using bget_eq [of s xs dv sec] assms miss by (simp add: bio_ready_def split: option.splits)
  have "find ?Q (rev xs) = (case filter ?Q xs of [] \<Rightarrow> None | ys \<Rightarrow> Some (last ys))"
    by (induction xs rule: rev_induct) (auto split: list.splits)
  moreover have "list_inv (setb b (\<lambda>p. p\<lparr>bdev := dv, sector := sec, flags := {B_BUSY}\<rparr>) (bcache s)) xs" for b
    using assms(2) list_inv_cong [of "setb b (\<lambda>p. p\<lparr>bdev := dv, sector := sec, flags := {B_BUSY}\<rparr>) (bcache s)" "bcache s"]
    by simp
  ultimately show "case filter ?Q xs of [] \<Rightarrow> bget dv sec s = Panic ''bget: no buffers''
      | ys \<Rightarrow> wp (bget dv sec) (\<lambda>r t. r = last ys \<and> list_inv (bcache t) xs) s"
    using eq by (cases "filter ?Q xs") (simp_all add: wp_def del: last.simps setb_at)
qed

theorem cache_is_lru_witness:
  "\<exists>t. binit bio_boot = Ok () t \<and> wp (bget 1 7) (\<lambda>r u. r = 0 \<and> list_inv (bcache u) (rev [0..<NBUF])) t"
proof -
  obtain t where t: "binit bio_boot = Ok () t" "bio_ok t (disk bio_boot) (\<lambda>_. None) {}" "disksize t = 1024"
    "list_inv (bcache t) (rev [0..<NBUF])" "\<forall>i < NBUF. bdev (bcache t i) = - 1 \<and> flags (bcache t i) = {}"
    by (rule bio_boot_ok)
  then have nb: "\<forall>i < NBUF. B_BUSY \<notin> flags (bcache t i) \<and> B_DIRTY \<notin> flags (bcache t i)
      \<and> \<not> (bdev (bcache t i) = 1 \<and> sector (bcache t i) = 7)" by simp
  then have f: "filter (\<lambda>i. B_BUSY \<notin> flags (bcache t i) \<and> B_DIRTY \<notin> flags (bcache t i)) (rev [0..<NBUF]) = rev [0..<NBUF]"
    by (intro filter_True) auto
  have "bio_ready t" using t(2) by (simp add: bio_ok_def)
  from cache_is_lru [OF this t(4), of 0 1 7] nb f
  have "wp (bget 1 7) (\<lambda>r u. r = last (rev [0..<NBUF]) \<and> list_inv (bcache u) (rev [0..<NBUF])) t"
    by (auto simp: NBUF_def eval_nat_numeral upt_rec)
  with t(1) show ?thesis by (auto simp: NBUF_def last_rev)
qed

end
