(* ===== verification/Layout.thy ===== *)
theory Layout
  imports Cstring
begin

text \<open>
  Reading and writing the fields of C structures that lie inside a block of bytes: the
  casts \<^verbatim>\<open>(struct logheader*) buf->data\<close>, \<^verbatim>\<open>(struct dinode*) bp->data + i\<close>, \<^verbatim>\<open>((uint*) bp->data)[i]\<close> and
  the directory entries. Offsets are those of the natural alignment of the structures.
\<close>

definition slice :: "nat \<Rightarrow> nat \<Rightarrow> 'a list \<Rightarrow> 'a list" where
  "slice i n xs = take n (drop i xs)"

definition splice :: "nat \<Rightarrow> 'a list \<Rightarrow> 'a list \<Rightarrow> 'a list" where
  "splice i ys xs = take i xs @ ys @ drop (i + length ys) xs"

lemma length_slice [simp]: "length (slice i n xs) = min n (length xs - i)"
  by (simp add: slice_def min_def)

lemma length_splice [simp]: "i + length ys \<le> length xs \<Longrightarrow> length (splice i ys xs) = length xs"
  by (simp add: splice_def)

lemma nth_slice: "j < n \<Longrightarrow> i + n \<le> length xs \<Longrightarrow> slice i n xs ! j = xs ! (i + j)"
  by (simp add: slice_def)

lemma nth_splice:
  "i + length ys \<le> length xs \<Longrightarrow> j < length xs \<Longrightarrow>
   splice i ys xs ! j = (if i \<le> j \<and> j < i + length ys then ys ! (j - i) else xs ! j)"
  by (auto simp: splice_def nth_append)

lemma slice_splice_same [simp]: "i + length ys \<le> length xs \<Longrightarrow> n = length ys \<Longrightarrow> slice i n (splice i ys xs) = ys"
  by (simp add: slice_def splice_def)

lemma slice_splice_other:
  assumes "i + length ys \<le> length xs" "j + n \<le> i \<or> i + length ys \<le> j" "j + n \<le> length xs"
  shows "slice j n (splice i ys xs) = slice j n xs"
  using assms by (intro nth_equalityI) (auto simp: nth_slice nth_splice)

lemma splice_slice_id: "i + n \<le> length xs \<Longrightarrow> splice i (slice i n xs) xs = xs"
  by (rule nth_equalityI) (auto simp: nth_splice nth_slice)

lemma splice_all: "length ys = length xs \<Longrightarrow> splice 0 ys xs = ys"
  by (simp add: splice_def)

lemma slice_all: "length xs = n \<Longrightarrow> slice 0 n xs = xs"
  by (simp add: slice_def)

definition bytes16 :: "ushort \<Rightarrow> byte list" where
  "bytes16 w = [ucast w, ucast (drop_bit 8 w)]"

lemma length_bytes16 [simp]: "length (bytes16 w) = 2"
  by (simp add: bytes16_def)

lemma word_of_bytes16 [simp]: "word_of_bytes (bytes16 w) = w"
proof (rule bit_word_eqI)
  fix n assume n: "n < LENGTH(16)"
  have "bytes16 w = map (\<lambda>i. ucast (drop_bit (8 * i) w)) [0..<2]"
    by (simp add: bytes16_def upt_rec)
  with n show "bit (word_of_bytes (bytes16 w) :: ushort) n = bit w n"
    by (auto simp: bit_word_of_bytes bit_simps)
qed

definition get16 :: "nat \<Rightarrow> byte list \<Rightarrow> ushort" where
  "get16 i bs = word_of_bytes (slice i 2 bs)"

definition put16 :: "nat \<Rightarrow> ushort \<Rightarrow> byte list \<Rightarrow> byte list" where
  "put16 i w bs = splice i (bytes16 w) bs"

definition get32 :: "nat \<Rightarrow> byte list \<Rightarrow> uint" where
  "get32 i bs = word_of_bytes (slice i 4 bs)"

definition put32 :: "nat \<Rightarrow> uint \<Rightarrow> byte list \<Rightarrow> byte list" where
  "put32 i w bs = splice i (bytes32 w) bs"

lemma length_put [simp]:
  "i + 2 \<le> length bs \<Longrightarrow> length (put16 i v bs) = length bs"
  "i + 4 \<le> length bs \<Longrightarrow> length (put32 i w bs) = length bs"
  by (simp_all add: put16_def put32_def)

lemma get_put_same [simp]:
  "i + 2 \<le> length bs \<Longrightarrow> get16 i (put16 i v bs) = v"
  "i + 4 \<le> length bs \<Longrightarrow> get32 i (put32 i w bs) = w"
  by (simp_all add: get16_def put16_def get32_def put32_def)

lemma get_put_other:
  "i + 2 \<le> length bs \<Longrightarrow> j + 2 \<le> length bs \<Longrightarrow> j + 2 \<le> i \<or> i + 2 \<le> j \<Longrightarrow> get16 j (put16 i v bs) = get16 j bs"
  "i + 4 \<le> length bs \<Longrightarrow> j + 2 \<le> length bs \<Longrightarrow> j + 2 \<le> i \<or> i + 4 \<le> j \<Longrightarrow> get16 j (put32 i w bs) = get16 j bs"
  "i + 2 \<le> length bs \<Longrightarrow> j + 4 \<le> length bs \<Longrightarrow> j + 4 \<le> i \<or> i + 2 \<le> j \<Longrightarrow> get32 j (put16 i v bs) = get32 j bs"
  "i + 4 \<le> length bs \<Longrightarrow> j + 4 \<le> length bs \<Longrightarrow> j + 4 \<le> i \<or> i + 4 \<le> j \<Longrightarrow> get32 j (put32 i w bs) = get32 j bs"
  by (simp_all add: get16_def put16_def get32_def put32_def slice_splice_other)

text \<open>An array of words: element \<open>i\<close> lies at offset \<open>off + 4 * i\<close>.\<close>

fun put_words :: "nat \<Rightarrow> uint list \<Rightarrow> byte list \<Rightarrow> byte list" where
  "put_words off [] bs = bs"
| "put_words off (w # ws) bs = put_words (off + 4) ws (put32 off w bs)"

definition get_words :: "nat \<Rightarrow> nat \<Rightarrow> byte list \<Rightarrow> uint list" where
  "get_words off n bs = map (\<lambda>i. get32 (off + 4 * i) bs) [0..<n]"

lemma length_put_words [simp]: "off + 4 * length ws \<le> length bs \<Longrightarrow> length (put_words off ws bs) = length bs"
  by (induction ws arbitrary: off bs) simp_all

lemma get32_put_words_before:
  "off + 4 * length ws \<le> length bs \<Longrightarrow> j + 4 \<le> off \<Longrightarrow> get32 j (put_words off ws bs) = get32 j bs"
  by (induction ws arbitrary: off bs) (simp_all add: get_put_other)

lemma get_words_Suc: "get_words off (Suc n) bs = get32 off bs # get_words (off + 4) n bs"
  by (simp add: get_words_def upt_conv_Cons map_Suc_upt [symmetric] algebra_simps del: upt_Suc)

lemma get_put_words: "off + 4 * length ws \<le> length bs \<Longrightarrow> get_words off (length ws) (put_words off ws bs) = ws"
proof (induction ws arbitrary: off bs)
  case (Cons w ws)
  then show ?case by (simp add: get_words_Suc get32_put_words_before)
qed (simp add: get_words_def)

lemma length_get_words [simp]: "length (get_words off n bs) = n"
  by (simp add: get_words_def)

lemma nth_get_words [simp]: "i < n \<Longrightarrow> get_words off n bs ! i = get32 (off + 4 * i) bs"
  by (simp add: get_words_def)

end
