(* ===== verification/Log.thy ===== *)
theory Log
  imports Bio Layout
begin

text \<open>
  \<^verbatim>\<open>kernel/log.c\<close>, the redo log, with \<^verbatim>\<open>readsb\<close> of \<^verbatim>\<open>kernel/fs.c\<close>. The theory proves that
  \<^verbatim>\<open>log_write\<close> and \<^verbatim>\<open>commit_trans\<close> keep the log invariant, and that a transaction is atomic with respect to
  crashes: whatever prefix of its sector writes reaches the disk, recovery yields either the
  old contents of the file system or the new one, and recovery may itself be interrupted.
\<close>

section \<open>State\<close>

definition LOGSIZE :: nat where
  "LOGSIZE = 10"

text \<open>
  \<^verbatim>\<open>struct log\<close> with its \<^verbatim>\<open>struct logheader\<close>. The C type of \<^verbatim>\<open>size\<close> and \<^verbatim>\<open>n\<close> is \<^verbatim>\<open>int\<close>, which can be negative
  when it comes from the disk; sector numbers are only ever passed on.
\<close>

record log_st = bio_st +
  lstart :: uint
  lsize :: int
  lbusy :: bool
  ldev :: uint
  lh_n :: int
  lh_sector :: "uint list"

record superblock =
  sb_size :: uint
  sb_nblocks :: uint
  sb_ninodes :: uint
  sb_nlog :: uint

section \<open>Operations\<close>

text \<open>\<^verbatim>\<open>readsb\<close>: the fields of the superblock in sector 1.\<close>

definition sb_of :: "byte list \<Rightarrow> superblock" where
  "sb_of bs = \<lparr>sb_size = get32 0 bs, sb_nblocks = get32 4 bs, sb_ninodes = get32 8 bs, sb_nlog = get32 12 bs\<rparr>"

definition readsb :: "uint \<Rightarrow> (superblock, 'z bio_st_scheme) kern" where
  "readsb dv =
    bindK (bread dv 1) (\<lambda>bp.
    bindK (getK (buf_data bp)) (\<lambda>d.
    seqK (brelse bp)
         (ret (sb_of d))))"

text \<open>
  Element \<open>i\<close> of \<^verbatim>\<open>log.lh.sector\<close>. An index beyond the array, which C leaves undefined, stops the
  model.
\<close>

definition get_sector :: "nat \<Rightarrow> (uint, 'z log_st_scheme) kern" where
  "get_sector i = bindK (getK lh_sector) (\<lambda>xs.
     if i < LOGSIZE then ret (xs ! i) else panic ''undefined: log.lh.sector'')"

definition set_sector :: "nat \<Rightarrow> uint \<Rightarrow> (unit, 'z log_st_scheme) kern" where
  "set_sector i v =
     (if i < LOGSIZE then modK (\<lambda>s. s\<lparr>lh_sector := (lh_sector s)[i := v]\<rparr>)
      else panic ''undefined: log.lh.sector'')"

definition install_one :: "nat \<Rightarrow> (unit, 'z log_st_scheme) kern" where
  "install_one tail =
    bindK (getK ldev) (\<lambda>dv.
    bindK (getK lstart) (\<lambda>st.
    bindK (bread dv (st + of_nat tail + 1)) (\<lambda>lbuf.
    bindK (get_sector tail) (\<lambda>sec.
    bindK (bread dv sec) (\<lambda>dbuf.
    seqK (modK (\<lambda>s. set_buf_data dbuf (buf_data lbuf s) s))
   (seqK (bwrite dbuf)
   (seqK (brelse lbuf)
         (brelse dbuf))))))))"

definition install_trans :: "(unit, 'z log_st_scheme) kern" where
  "install_trans = bindK (getK lh_n) (\<lambda>n. forK [0..<nat n] install_one)"

definition read_head :: "(unit, 'z log_st_scheme) kern" where
  "read_head =
    bindK (getK ldev) (\<lambda>dv.
    bindK (getK lstart) (\<lambda>st.
    bindK (bread dv st) (\<lambda>buf.
    bindK (getK (buf_data buf)) (\<lambda>lh.
    seqK (modK (\<lambda>s. s\<lparr>lh_n := sint (get32 0 lh)\<rparr>))
   (seqK (forK [0..<nat (sint (get32 0 lh))] (\<lambda>i. set_sector i (get32 (4 + 4 * i) lh)))
         (brelse buf))))))"

definition write_head :: "(unit, 'z log_st_scheme) kern" where
  "write_head =
    bindK (getK ldev) (\<lambda>dv.
    bindK (getK lstart) (\<lambda>st.
    bindK (bread dv st) (\<lambda>buf.
    bindK (getK lh_n) (\<lambda>n.
    seqK (modK (\<lambda>s. set_buf_data buf (put32 0 (word_of_int n) (buf_data buf s)) s))
   (seqK (forK [0..<nat n] (\<lambda>i. bindK (get_sector i) (\<lambda>v.
            modK (\<lambda>s. set_buf_data buf (put32 (4 + 4 * i) v (buf_data buf s)) s))))
   (seqK (bwrite buf)
         (brelse buf)))))))"

definition recover_from_log :: "(unit, 'z log_st_scheme) kern" where
  "recover_from_log =
    seqK read_head
   (seqK install_trans
   (seqK (modK (\<lambda>s. s\<lparr>lh_n := 0\<rparr>))
         write_head))"

text \<open>\<^verbatim>\<open>sizeof(struct logheader)\<close> is 44, below \<^verbatim>\<open>BSIZE\<close>, so the first test of \<^verbatim>\<open>initlog\<close> is false.\<close>

definition initlog :: "(unit, 'z log_st_scheme) kern" where
  "initlog =
    seqK (if 4 + 4 * LOGSIZE \<ge> 512 then panic ''initlog: too big logheader'' else ret ())
   (seqK (initlock L_log ''log'')
   (bindK (readsb 1) (\<lambda>sb.
    seqK (modK (\<lambda>s. s\<lparr>lstart := sb_size sb - sb_nlog sb, lsize := sint (sb_nlog sb), ldev := 1\<rparr>))
         recover_from_log)))"

text \<open>
  \<^verbatim>\<open>begin_trans\<close> from the test of its loop on, with \<^verbatim>\<open>log.lock\<close> held; a process that sleeps here
  continues with \<open>sleep_resume\<close> and \<open>begin_loop\<close> again.
\<close>

definition begin_loop :: "(unit, 'z log_st_scheme) kern" where
  "begin_loop =
    bindK (getK lbusy) (\<lambda>busy.
      if busy then sleep ChLog (Some L_log)
      else seqK (modK (\<lambda>s. s\<lparr>lbusy := True\<rparr>)) (release L_log))"

definition begin_trans :: "(unit, 'z log_st_scheme) kern" where
  "begin_trans = seqK (acquire L_log) begin_loop"

definition end_trans :: "(unit, 'z log_st_scheme) kern" where
  "end_trans =
    seqK (acquire L_log)
   (seqK (modK (\<lambda>s. s\<lparr>lbusy := False\<rparr>))
   (seqK (wakeup ChLog)
         (release L_log)))"

definition commit_trans :: "(unit, 'z log_st_scheme) kern" where
  "commit_trans =
    bindK (getK lh_n) (\<lambda>n.
    seqK (whenK (n > 0)
           (seqK write_head
           (seqK install_trans
           (seqK (modK (\<lambda>s. s\<lparr>lh_n := 0\<rparr>))
                 write_head))))
         end_trans)"

text \<open>The search loop of \<^verbatim>\<open>log_write\<close>: the slot of the sector, or the first free slot.\<close>

fun log_slot :: "uint \<Rightarrow> uint list \<Rightarrow> nat" where
  "log_slot k [] = 0"
| "log_slot k (x # xs) = (if x = k then 0 else Suc (log_slot k xs))"

definition log_write :: "nat \<Rightarrow> (unit, 'z log_st_scheme) kern" where
  "log_write b =
    bindK (getK lh_n) (\<lambda>n.
    bindK (getK lsize) (\<lambda>size.
    bindK (getK lbusy) (\<lambda>busy.
      if n \<ge> int LOGSIZE \<or> n \<ge> size - 1 then panic ''too big a transaction''
      else if \<not> busy then panic ''write outside of trans''
      else
        bindK (getK (\<lambda>s. bcache s b)) (\<lambda>bp.
        bindK (getK (\<lambda>s. log_slot (sector bp) (take (nat n) (lh_sector s)))) (\<lambda>i.
        seqK (set_sector i (sector bp))
       (bindK (getK lstart) (\<lambda>st.
        bindK (bread (bdev bp) (st + of_nat i + 1)) (\<lambda>lbuf.
        seqK (modK (\<lambda>s. set_buf_data lbuf (buf_data b s) s))
       (seqK (bwrite lbuf)
       (seqK (brelse lbuf)
       (seqK (whenK (int i = n) (modK (\<lambda>s. s\<lparr>lh_n := lh_n s + 1\<rparr>)))
             (modK (upd_buf b (\<lambda>p. p\<lparr>flags := insert B_DIRTY (flags p)\<rparr>))))))))))))))"

section \<open>Disks, logs and recovery as functions\<close>

type_synonym dimg = "uint \<Rightarrow> byte list"

definition apply_writes :: "(uint \<times> byte list) list \<Rightarrow> dimg \<Rightarrow> dimg" where
  "apply_writes ws d = fold (\<lambda>(k, v) d. d(k := v)) ws d"

lemma apply_writes_simps [simp]:
  "apply_writes [] d = d" "apply_writes ((k, v) # ws) d = apply_writes ws (d(k := v))"
  "apply_writes (us @ ws) d = apply_writes ws (apply_writes us d)"
  by (simp_all add: apply_writes_def)

lemma apply_writes_other: "k \<notin> fst ` set ws \<Longrightarrow> apply_writes ws d k = d k"
  by (induction ws arbitrary: d) auto

text \<open>
  \<open>installed d st xs\<close>: the disk \<open>d\<close> after the blocks of the log that starts at \<open>st\<close> have been copied
  to their home sectors \<open>xs\<close>.
\<close>

definition installed :: "dimg \<Rightarrow> uint \<Rightarrow> uint list \<Rightarrow> dimg" where
  "installed d st xs k =
    (if k \<in> set xs then d (st + of_nat (log_slot k xs) + 1) else d k)"

text \<open>The sectors that the header block names, and the disk that recovery produces.\<close>

definition head_sectors :: "byte list \<Rightarrow> uint list" where
  "head_sectors h = get_words 4 (nat (sint (get32 0 h))) h"

definition recovered :: "uint \<Rightarrow> dimg \<Rightarrow> dimg" where
  "recovered st d = installed d st (head_sectors (d st))"

definition enc_head :: "uint list \<Rightarrow> byte list \<Rightarrow> byte list" where
  "enc_head xs h = put_words 4 xs (put32 0 (of_nat (length xs)) h)"

lemma length_enc_head [simp]: "4 + 4 * length xs \<le> length h \<Longrightarrow> length (enc_head xs h) = length h"
  by (simp add: enc_head_def)

lemma sint_of_nat_small: "n < 2 ^ 31 \<Longrightarrow> sint (of_nat n :: uint) = int n"
proof -
  assume n: "n < 2 ^ 31"
  have "sint (of_nat n :: uint) = signed_take_bit 31 (int n)"
    by (simp add: sint_word_ariths signed_of_nat)
  also have "\<dots> = int n" using n by (intro signed_take_bit_int_eq_self) auto
  finally show ?thesis .
qed

lemma head_sectors_enc [simp]:
  assumes "4 + 4 * length xs \<le> length h" "length xs < 2 ^ 31"
  shows "head_sectors (enc_head xs h) = xs"
proof -
  have "get32 0 (enc_head xs h) = of_nat (length xs)"
    using assms by (simp add: enc_head_def get32_put_words_before)
  then have "nat (sint (get32 0 (enc_head xs h))) = length xs" using assms(2) by (simp add: sint_of_nat_small)
  then show ?thesis using assms by (simp add: head_sectors_def enc_head_def get_put_words)
qed

lemma log_slot_nth: "k \<in> set xs \<Longrightarrow> log_slot k xs < length xs \<and> xs ! log_slot k xs = k"
  by (induction xs) auto

lemma log_slot_notin: "k \<notin> set xs \<Longrightarrow> log_slot k xs = length xs"
  by (induction xs) auto

lemma log_slot_append: "log_slot k (xs @ ys) = (if k \<in> set xs then log_slot k xs else length xs + log_slot k ys)"
  by (induction xs) auto

lemma log_slot_distinct: "distinct xs \<Longrightarrow> i < length xs \<Longrightarrow> log_slot (xs ! i) xs = i"
  by (metis distinct_conv_nth log_slot_nth nth_mem)

text \<open>A log area: \<open>n\<close> slots above \<open>st\<close> do not wrap around.\<close>

definition slots_ok :: "uint \<Rightarrow> nat \<Rightarrow> bool" where
  "slots_ok st n \<longleftrightarrow> unat st + n < 2 ^ 32"

lemma slot_unat: "slots_ok st n \<Longrightarrow> i < n \<Longrightarrow> unat (st + of_nat i + 1) = unat st + i + 1"
proof -
  assume a: "slots_ok st n" "i < n"
  have "st + of_nat i + 1 = of_nat (unat st + i + 1)" by simp
  also have "unat \<dots> = unat st + i + 1" using a unfolding slots_ok_def by (intro unat_of_nat_small) simp
  finally show ?thesis .
qed

lemma slot_above: "slots_ok st n \<Longrightarrow> i < n \<Longrightarrow> st < st + of_nat i + 1"
  by (simp add: word_less_nat_alt slot_unat)

lemma slot_inj: "slots_ok st n \<Longrightarrow> i < n \<Longrightarrow> j < n \<Longrightarrow> st + of_nat i + 1 = st + of_nat j + 1 \<Longrightarrow> i = j"
  using slot_unat [of st n i] slot_unat [of st n j] by (metis add_left_cancel add_right_cancel)

text \<open>Log blocks and header survive the installation, so installing again changes nothing.\<close>

lemma installed_above: "\<forall>x \<in> set xs. x < st \<Longrightarrow> st \<le> k \<Longrightarrow> installed d st xs k = d k"
  by (auto simp: installed_def)

lemma installed_again:
  assumes "\<forall>x \<in> set xs. x < st" "slots_ok st (length xs)"
  shows "installed (installed d st (take m xs)) st xs k = installed d st xs k"
proof (cases "k \<in> set xs")
  case True
  let ?a = "st + of_nat (log_slot k xs) + 1"
  have "st \<le> ?a" using slot_above [OF assms(2)] log_slot_nth [OF True] by (simp add: order_less_imp_le)
  then have "installed d st (take m xs) ?a = d ?a"
    using assms(1) by (intro installed_above) (auto dest: in_set_takeD)
  with True show ?thesis by (simp add: installed_def)
next
  case False
  then show ?thesis by (auto simp: installed_def dest: in_set_takeD)
qed

lemma installed_Suc:
  assumes "m < length xs" "distinct xs" "\<forall>x \<in> set xs. x < st" "slots_ok st (length xs)"
  shows "(installed d st (take m xs))(xs ! m := d (st + of_nat m + 1)) = installed d st (take (Suc m) xs)"
proof
  fix k
  have t: "take (Suc m) xs = take m xs @ [xs ! m]" using assms(1) by (rule take_Suc_conv_app_nth)
  have "xs ! m \<notin> set (take m xs)"
    using assms(1,2) by (auto simp: in_set_conv_nth nth_eq_iff_index_eq)
  then show "((installed d st (take m xs))(xs ! m := d (st + of_nat m + 1))) k = installed d st (take (Suc m) xs) k"
    using assms(1) by (auto simp: installed_def t log_slot_append log_slot_notin)
qed

section \<open>The code on one header or one block\<close>

lemma bio_frame_log:
  assumes "bio_frame s t"
  shows "lstart t = lstart s" "lsize t = lsize s" "lbusy t = lbusy s" "ldev t = ldev s" "lh_n t = lh_n s"
    "lh_sector t = lh_sector s" "log_st.more t = log_st.more s"
  using assms by (auto elim!: bio_frameE)

lemma set_buf_data_simps [simp]:
  "set_buf_data b d (set_buf_data b e s) = set_buf_data b d s" "buf_data b (set_buf_data b d s) = d"
  "set_buf_data b (buf_data b s) s = s" "lh_sector (set_buf_data b d t) = lh_sector t"
  "lh_n (set_buf_data b d t) = lh_n t"
  by (simp_all add: set_buf_data_def buf_data_def upd_bcache_def setb_def)

lemma bio_ok_log [simp]:
  "bio_ok (s\<lparr>lh_sector := xs\<rparr>) V H D = bio_ok s V H D" "bio_ok (s\<lparr>lh_n := n\<rparr>) V H D = bio_ok s V H D"
  "bio_ok (s\<lparr>lbusy := b\<rparr>) V H D = bio_ok s V H D"
  "bio_ok (s\<lparr>lstart := st, lsize := m, ldev := dv\<rparr>) V H D = bio_ok s V H D"
  by (simp_all add: bio_ok_def bio_ready_def bio_rep_def bio_inv_def caches_def settled_def mach_ok_def free_lock_def)

lemma put_words_snoc: "put_words off (ws @ [w]) bs = put32 (off + 4 * length ws) w (put_words off ws bs)"
  by (induction ws arbitrary: off bs) (simp_all add: add.assoc)

lemma get_sector_in: "i < LOGSIZE \<Longrightarrow> get_sector i = getK (\<lambda>s. lh_sector s ! i)"
  by (simp add: get_sector_def kdefs fun_eq_iff)

lemma write_head_loop:
  assumes "m \<le> LOGSIZE" "length (lh_sector s) = LOGSIZE"
  shows "forK [0..<m] (\<lambda>i. bindK (get_sector i) (\<lambda>v.
       modK (\<lambda>s. set_buf_data b (put32 (4 + 4 * i) v (buf_data b s)) s))) s
     = Ok () (set_buf_data b (put_words 4 (take m (lh_sector s)) (buf_data b s)) s)"
  using assms(1)
proof (induction m)
  case 0
  then show ?case by (simp add: kdefs)
next
  case (Suc m)
  with assms(2) have "take (Suc m) (lh_sector s) = take m (lh_sector s) @ [lh_sector s ! m]"
    by (intro take_Suc_conv_app_nth) simp
  with Suc assms(2) show ?case by (simp add: forK_append kdefs get_sector_def put_words_snoc algebra_simps)
qed

lemma write_head_law:
  assumes ok: "bio_ok s V H D" and "ldev s = 1" "lstart s < disksize s" "H (lstart s) = None"
    and room: "card (dom H \<union> D) < NBUF"
    and n: "0 \<le> lh_n s" "nat (lh_n s) \<le> LOGSIZE" "length (lh_sector s) = LOGSIZE"
  defines "h \<equiv> enc_head (take (nat (lh_n s)) (lh_sector s)) (V (lstart s))"
  shows "wp write_head (\<lambda>_ t. bio_ok t (V(lstart s := h)) H (D - {lstart s}) \<and> disk t = (disk s)(lstart s := h)
    \<and> whist t = whist s @ [(lstart s, h)] \<and> bio_frame s t) s"
proof -
  let ?st = "lstart s"
  obtain b t where t: "bread 1 ?st s = Ok b t" "bio_ok t V (H(?st \<mapsto> b)) D" "disk t = disk s" "whist t = whist s"
    "bio_frame s t" "buf_data b t = V ?st" using room by (rule bc.rdE [OF assms(1,3,4) disjI2])
  note f = bio_frame_log [OF t(5)]
  have hw: "put_words 4 (take (nat (lh_n s)) (lh_sector s)) (put32 0 (word_of_int (lh_n s)) (V ?st)) = h"
    using n by (simp add: h_def enc_head_def of_nat_nat min_absorb2)
  have len: "length h = 512"
    using n bc.view_len [OF ok assms(3)] by (simp add: h_def LOGSIZE_def min_absorb2)
  have b: "(H(?st \<mapsto> b)) ?st = Some b" by simp
  let ?u = "set_buf_data b h t"
  have loop: "forK [0..<nat (lh_n s)] (\<lambda>i. bindK (get_sector i) (\<lambda>v.
       modK (\<lambda>s. set_buf_data b (put32 (4 + 4 * i) v (buf_data b s)) s)))
       (set_buf_data b (put32 0 (word_of_int (lh_n s)) (V ?st)) t) = Ok () ?u"
    using write_head_loop [of "nat (lh_n s)" "set_buf_data b (put32 0 (word_of_int (lh_n s)) (V ?st)) t" b] n f hw by simp
  note u = bc.ptE [OF t(2) b len]
  obtain v where v: "bwrite b ?u = Ok () v" "bio_ok v (V(?st := h)) (H(?st \<mapsto> b)) (D - {?st})"
    "disk v = (disk ?u)(?st := (V(?st := h)) ?st)" "whist v = whist ?u @ [(?st, (V(?st := h)) ?st)]" "bio_frame ?u v"
    by (rule bc.wrE [OF u(1) b])
  have "?st \<in> D - {?st} \<or> (V(?st := h)) ?st = disk v ?st" using v(3) by simp
  then obtain w where w: "brelse b v = Ok () w" "bio_ok w (V(?st := h)) (H(?st \<mapsto> b, ?st := None)) (D - {?st})"
    "disk w = disk v" "whist w = whist v" "bio_frame v w" by (rule bc.relE [OF v(2) b])
  have "bio_frame s w" using t(5) u(4) v(5) w(5) bio_frame_trans by meson
  moreover have "H(?st \<mapsto> b, ?st := None) = H" using assms(4) by auto
  ultimately show ?thesis using t u v w loop f assms(2) by (simp add: wp_def write_head_def kdefs)
qed

lemma install_one_law:
  assumes "bio_ok s V H D" "ldev s = 1" "length (lh_sector s) = LOGSIZE" "i < LOGSIZE"
  defines "a \<equiv> lstart s + of_nat i + 1" and "c \<equiv> lh_sector s ! i"
  assumes "a < disksize s" "c < disksize s" "H a = None" "H c = None" "a \<noteq> c" "a \<notin> D"
    "c \<in> D \<or> card (insert a (dom H \<union> D)) < NBUF" "card (dom H \<union> D) < NBUF"
  shows "wp (install_one i) (\<lambda>_ t. bio_ok t (V(c := V a)) H (D - {c}) \<and> disk t = (disk s)(c := V a)
    \<and> whist t = whist s @ [(c, V a)] \<and> bio_frame s t) s"
proof -
  have "install_one i s = bindK (bread 1 a) (\<lambda>x. bindK (getK (\<lambda>s. lh_sector s ! i)) (\<lambda>k. bindK (bread 1 k) (\<lambda>y.
      seqK (modK (\<lambda>s. set_buf_data y (buf_data x s) s)) (seqK (bwrite y) (seqK (brelse x) (brelse y)))))) s"
    using assms(2,4) by (simp add: install_one_def get_sector_in run_steps a_def)
  moreover have "\<And>t. bio_frame s t \<Longrightarrow> lh_sector t ! i = c" by (metis bio_frame_log(6) c_def)
  ultimately show ?thesis
    using bc.copy_sector [OF assms(1,7,8,9,10,11,12) assms(13,14), of "\<lambda>s. lh_sector s ! i"]
    by (simp only: wp_def)
qed

section \<open>Installing and committing\<close>

definition install_writes :: "dimg \<Rightarrow> uint \<Rightarrow> uint list \<Rightarrow> (uint \<times> byte list) list" where
  "install_writes d st xs = map (\<lambda>i. (xs ! i, d (st + of_nat i + 1))) [0..<length xs]"

text \<open>The logged sectors of a state, and where the log lies.\<close>

definition lh_list :: "'z log_st_scheme \<Rightarrow> uint list" where
  "lh_list s = take (nat (lh_n s)) (lh_sector s)"

definition log_geom :: "'z log_st_scheme \<Rightarrow> bool" where
  "log_geom s \<longleftrightarrow> ldev s = 1 \<and> 2 \<le> lsize s \<and> lsize s \<le> int LOGSIZE
     \<and> unat (lstart s) + nat (lsize s) \<le> unat (disksize s)
     \<and> length (lh_sector s) = LOGSIZE \<and> 0 \<le> lh_n s \<and> lh_n s \<le> lsize s - 1
     \<and> distinct (lh_list s) \<and> (\<forall>x \<in> set (lh_list s). x < lstart s)"

lemma log_geomD:
  assumes "log_geom s"
  shows "length (lh_list s) = nat (lh_n s)" "nat (lh_n s) < LOGSIZE"
    "slots_ok (lstart s) (nat (lsize s - 1))" "i < nat (lsize s - 1) \<Longrightarrow> lstart s + of_nat i + 1 < disksize s"
    "lstart s < disksize s" "x < lstart s \<Longrightarrow> x < disksize s"
proof -
  have *: "unat (lstart s) + nat (lsize s) \<le> unat (disksize s)" "2 \<le> lsize s" using assms by (auto simp: log_geom_def)
  show sl: "slots_ok (lstart s) (nat (lsize s - 1))"
    using * unat_lt_exp [of "disksize s"] by (simp add: slots_ok_def)
  show "length (lh_list s) = nat (lh_n s)" "nat (lh_n s) < LOGSIZE"
    using assms by (auto simp: log_geom_def lh_list_def)
  show "lstart s + of_nat i + 1 < disksize s" if "i < nat (lsize s - 1)"
    using slot_unat [OF sl that] * that by (simp add: word_less_nat_alt)
  show "lstart s < disksize s" "x < lstart s \<Longrightarrow> x < disksize s" using * by (simp_all add: word_less_nat_alt)
qed

lemma install_loop:
  assumes g: "log_geom s" and ok: "bio_ok s V Map.empty (set (lh_list s))"
    and logd: "\<forall>i < length (lh_list s). V (lh_list s ! i) = disk s (lstart s + of_nat i + 1)"
    and m: "m \<le> length (lh_list s)"
  shows "wp (forK [0..<m] install_one) (\<lambda>_ t. bio_ok t V Map.empty (set (drop m (lh_list s)))
    \<and> disk t = installed (disk s) (lstart s) (take m (lh_list s))
    \<and> whist t = whist s @ install_writes (disk s) (lstart s) (take m (lh_list s)) \<and> bio_frame s t) s"
  using m
proof (induction m)
  case 0
  then show ?case using ok by (simp add: wp_def kdefs install_writes_def) (simp add: installed_def fun_eq_iff)
next
  case (Suc m)
  let ?xs = "lh_list s" and ?st = "lstart s" and ?d = "disk s"
  let ?a = "?st + of_nat m + 1" and ?c = "?xs ! m"
  note gd = log_geomD [OF g]
  from Suc.prems have mm: "m < length ?xs" by simp
  with gd g have ml: "m < LOGSIZE" "m < nat (lsize s - 1)" by (auto simp: log_geom_def)
  have sx: "slots_ok ?st (length ?xs)" using g gd(1,3) by (auto simp: slots_ok_def log_geom_def)
  have dist: "distinct ?xs" "\<forall>x \<in> set ?xs. x < ?st" using g by (auto simp: log_geom_def)
  obtain t where t: "forK [0..<m] install_one s = Ok () t" "bio_ok t V Map.empty (set (drop m ?xs))"
    "disk t = installed ?d ?st (take m ?xs)" "whist t = whist s @ install_writes ?d ?st (take m ?xs)" "bio_frame s t"
    using Suc.IH mm by (auto simp: wp_returns)
  note f = bio_frame_log [OF t(5)] bio_frame_mach [OF t(5)]
  have c: "lh_sector t ! m = ?c" using f mm gd(1) by (simp add: lh_list_def)
  have dm: "drop m ?xs = ?c # drop (Suc m) ?xs" using mm by (simp add: Cons_nth_drop_Suc)
  have above: "?st < ?a" using slot_above [OF sx mm] .
  have cin: "?c < ?st" "?c \<in> set (drop m ?xs)" using dist(2) mm dm by auto
  have adisk: "disk t ?a = ?d ?a" unfolding t(3)
    using dist(2) above by (intro installed_above) (auto dest: in_set_takeD)
  have anot: "?a \<notin> set (drop m ?xs)" using dist(2) above by (auto dest!: in_set_dropD)
  then have Va: "V ?a = ?d ?a" using bc.view_clean [OF t(2)] adisk by simp
  have Vc: "V(?c := V ?a) = V" using logd mm Va by (auto simp: fun_eq_iff)
  have "card (set (drop m ?xs)) < NBUF" using gd(1,2) card_length [of "drop m ?xs"] by (simp add: NBUF_def LOGSIZE_def)
  then have "wp (install_one m) (\<lambda>_ u. bio_ok u (V(?c := V ?a)) Map.empty (set (drop m ?xs) - {?c})
      \<and> disk u = (disk t)(?c := V ?a) \<and> whist u = whist t @ [(?c, V ?a)] \<and> bio_frame t u) t"
    using install_one_law [OF t(2), of m] f g ml gd(4) [OF ml(2)] gd(6) [OF cin(1)] cin anot above c
    by (auto simp: log_geom_def)
  then obtain u where u: "install_one m t = Ok () u" "bio_ok u V Map.empty (set (drop m ?xs) - {?c})"
    "disk u = (disk t)(?c := ?d ?a)" "whist u = whist t @ [(?c, ?d ?a)]" "bio_frame t u"
    unfolding Vc by (auto simp: wp_returns Va)
  have "set (drop m ?xs) - {?c} = set (drop (Suc m) ?xs)"
    using distinct_drop [OF dist(1), of m] by (auto simp: dm)
  moreover have "install_writes ?d ?st (take (Suc m) ?xs) = install_writes ?d ?st (take m ?xs) @ [(?c, ?d ?a)]"
    using mm by (auto simp: install_writes_def min_absorb2)
  moreover note installed_Suc [OF mm dist sx, of ?d]
  ultimately show ?case using t u bio_frame_trans [OF t(5) u(5)] by (simp add: wp_def forK_append kdefs)
qed

section \<open>Crashes\<close>

text \<open>Two disks with the same file system, the sectors below the log.\<close>

definition agree :: "uint \<Rightarrow> dimg \<Rightarrow> dimg \<Rightarrow> bool" where
  "agree st d e \<longleftrightarrow> (\<forall>k < st. d k = e k)"

text \<open>The header on disk names at most \<open>m\<close> different sectors, all of them below the log.\<close>

definition head_ok :: "uint \<Rightarrow> nat \<Rightarrow> dimg \<Rightarrow> bool" where
  "head_ok st m d \<longleftrightarrow> 0 \<le> sint (get32 0 (d st)) \<and> length (head_sectors (d st)) \<le> m
     \<and> distinct (head_sectors (d st)) \<and> (\<forall>x \<in> set (head_sectors (d st)). x < st)"

text \<open>
  A sequence of sector writes to disk \<open>d\<close> is atomic between the contents \<open>old\<close> and \<open>new\<close>: any prefix of it
  leaves a well-formed header, and recovery then gives one of the two.
\<close>

definition atomic_writes :: "uint \<Rightarrow> nat \<Rightarrow> dimg \<Rightarrow> (uint \<times> byte list) list \<Rightarrow> dimg \<Rightarrow> dimg \<Rightarrow> bool" where
  "atomic_writes st m d ws old new \<longleftrightarrow>
     (\<forall>i. head_ok st m (apply_writes (take i ws) d)
       \<and> (agree st (recovered st (apply_writes (take i ws) d)) old
        \<or> agree st (recovered st (apply_writes (take i ws) d)) new))"

lemma head_ok_mono: "head_ok st m d \<Longrightarrow> m \<le> m' \<Longrightarrow> head_ok st m' d"
  by (simp add: head_ok_def)

lemma head_ok_clean: "get32 0 (d st) = 0 \<Longrightarrow> head_ok st m d"
  by (simp add: head_ok_def head_sectors_def get_words_def)

lemma agree_refl [simp]: "agree st d d"
  by (simp add: agree_def)

lemma agree_sym: "agree st d e \<Longrightarrow> agree st e d"
  by (simp add: agree_def)

lemma agree_trans: "agree st d e \<Longrightarrow> agree st e f \<Longrightarrow> agree st d f"
  by (simp add: agree_def)

lemma recovered_clean: "sint (get32 0 (d st)) \<le> 0 \<Longrightarrow> recovered st d = d"
  by (simp add: recovered_def head_sectors_def installed_def get_words_def fun_eq_iff)

lemma take_install_writes: "take j (install_writes d st xs) = install_writes d st (take j xs)"
proof (cases "j \<le> length xs")
  case True
  then show ?thesis by (auto simp: install_writes_def take_map min_absorb2)
qed (simp add: install_writes_def)

lemma apply_install_writes:
  assumes "distinct xs" "\<forall>x \<in> set xs. x < st" "slots_ok st (length xs)"
  shows "apply_writes (install_writes d st (take m xs)) d = installed d st (take m xs)"
proof (induction m)
  case 0
  then show ?case by (simp add: install_writes_def installed_def fun_eq_iff)
next
  case (Suc m)
  show ?case
  proof (cases "m < length xs")
    case True
    then have "install_writes d st (take (Suc m) xs) = install_writes d st (take m xs) @ [(xs ! m, d (st + of_nat m + 1))]"
      by (auto simp: install_writes_def min_absorb2)
    with Suc installed_Suc [OF True assms] show ?thesis by simp
  qed (use Suc in simp)
qed

lemma slot_not_head: "slots_ok st n \<Longrightarrow> i < n \<Longrightarrow> (d(st := h)) (st + of_nat i + 1) = d (st + of_nat i + 1)"
  using slot_above by (metis fun_upd_other less_irrefl)

lemma install_writes_head:
  "slots_ok st (length xs) \<Longrightarrow> install_writes (d(st := h)) st xs = install_writes d st xs"
  unfolding install_writes_def by (intro map_cong refl) (metis atLeastLessThan_iff atLeast_upt lessThan_iff slot_not_head)

lemma installed_head:
  assumes "slots_ok st (length xs)" "k < st"
  shows "installed (d(st := h)) st xs k = installed d st xs k"
proof (cases "k \<in> set xs")
  case True
  with slot_not_head [OF assms(1)] log_slot_nth [OF True] show ?thesis unfolding installed_def by metis
next
  case False
  with assms(2) show ?thesis by (auto simp: installed_def)
qed

text \<open>A header that names the sectors is a redo record: a crash during the installation loses nothing.\<close>

lemma install_atomic:
  fixes i :: nat
  assumes xs: "distinct xs" "\<forall>x \<in> set xs. x < st" "slots_ok st (length xs)"
    and hd: "head_sectors (e st) = xs" "length (e st) = 512" "0 \<le> sint (get32 0 (e st))"
  defines "f \<equiv> apply_writes (take i (install_writes e st xs @ [(st, enc_head [] (e st))])) e"
  shows "agree st (recovered st f) (installed e st xs)" "head_ok st (length xs) f"
proof -
  let ?h0 = "enc_head [] (e st)"
  let ?ws = "install_writes e st xs @ [(st, ?h0)]"
  have h0: "head_sectors ?h0 = []" using hd(2) by simp
  have keep: "installed e st (take j xs) st = e st" for j
    using xs(2) by (subst installed_above) (auto dest: in_set_takeD)
  note ap = apply_install_writes [OF xs, of e]
  have "agree st (recovered st f) (installed e st xs) \<and> head_ok st (length xs) f"
  proof (cases "i \<le> length xs")
    case True
    then have "take i ?ws = install_writes e st (take i xs)"
      by (simp add: take_install_writes) (simp add: install_writes_def)
    then have f: "f = installed e st (take i xs)" by (simp add: f_def ap)
    then have "recovered st f = installed (installed e st (take i xs)) st xs"
      using keep [of i] hd(1) by (simp add: recovered_def)
    then show ?thesis using installed_again [OF xs(2,3), of e i] keep [of i] hd xs f by (simp add: agree_def head_ok_def)
  next
    case False
    then have "take i ?ws = ?ws" by (simp add: install_writes_def)
    then have f: "f = (installed e st xs)(st := ?h0)" using ap [of "length xs"] by (simp add: f_def)
    then have "recovered st f = (installed e st xs)(st := ?h0)"
      by (simp add: recovered_def h0) (simp add: installed_def fun_eq_iff)
    moreover have "get32 0 ?h0 = 0" using hd(2) by (simp add: enc_head_def)
    ultimately show ?thesis using f by (auto simp: agree_def intro!: head_ok_clean)
  qed
  then show "agree st (recovered st f) (installed e st xs)" "head_ok st (length xs) f" by simp_all
qed

lemma commit_atomic:
  assumes xs: "distinct xs" "\<forall>x \<in> set xs. x < st" "slots_ok st (length xs)" "length xs \<le> LOGSIZE"
    and hd: "get32 0 (d st) = 0" "length (d st) = 512" and m: "length xs \<le> m"
  defines "h \<equiv> enc_head xs (d st)"
  shows "atomic_writes st m d ((st, h) # install_writes d st xs @ [(st, enc_head [] h)]) d (installed d st xs)"
  unfolding atomic_writes_def
proof
  fix i
  let ?e = "d(st := h)"
  let ?ws = "install_writes d st xs @ [(st, enc_head [] h)]"
  have hs: "head_sectors h = xs" "length h = 512" using xs(4) hd(2) by (simp_all add: h_def LOGSIZE_def)
  have hn: "0 \<le> sint (get32 0 h)" using xs(4) hd(2) by (simp add: h_def LOGSIZE_def enc_head_def get32_put_words_before sint_of_nat_small)
  have data: "agree st (installed ?e st xs) (installed d st xs)"
    using installed_head [OF xs(3)] by (simp add: agree_def)
  show "head_ok st m (apply_writes (take i ((st, h) # ?ws)) d) \<and> (agree st (recovered st (apply_writes (take i ((st, h) # ?ws)) d)) d
      \<or> agree st (recovered st (apply_writes (take i ((st, h) # ?ws)) d)) (installed d st xs))"
  proof (cases i)
    case 0
    then show ?thesis by (simp add: recovered_clean hd head_ok_clean)
  next
    case (Suc j)
    have "agree st (recovered st (apply_writes (take j ?ws) ?e)) (installed ?e st xs)"
      "head_ok st (length xs) (apply_writes (take j ?ws) ?e)"
      using install_atomic [OF xs(1-3), of ?e j] hs hn install_writes_head [OF xs(3)] by simp_all
    then show ?thesis using Suc m agree_trans [OF _ data] by (simp add: head_ok_def)
  qed
qed

section \<open>The log invariant\<close>

text \<open>How many sectors one transaction may log.\<close>

definition log_budget :: "'z log_st_scheme \<Rightarrow> nat" where
  "log_budget s = nat (lsize s - 1)"

text \<open>
  Between two calls: the header on disk is empty, no log sector is held, every sector of the
  file system outside \<open>U\<close> has the contents that a commit would install, and without a
  transaction nothing is logged. \<open>U\<close> is the set of held sectors that have been changed since they
  were last logged. The dirty sectors are exactly the logged ones.
\<close>

definition log_inv :: "'z log_st_scheme \<Rightarrow> dimg \<Rightarrow> (uint \<rightharpoonup> nat) \<Rightarrow> uint set \<Rightarrow> bool" where
  "log_inv s V H U \<longleftrightarrow> log_geom s \<and> get32 0 (disk s (lstart s)) = 0
     \<and> (\<forall>k \<ge> lstart s. H k = None) \<and> U \<subseteq> dom H
     \<and> (\<forall>k < lstart s. k \<notin> U \<longrightarrow> V k = installed (disk s) (lstart s) (lh_list s) k)
     \<and> (\<not> lbusy s \<longrightarrow> lh_n s = 0)"

definition log_ok :: "'z log_st_scheme \<Rightarrow> dimg \<Rightarrow> (uint \<rightharpoonup> nat) \<Rightarrow> uint set \<Rightarrow> bool" where
  "log_ok s V H U \<longleftrightarrow> bio_ok s V H (set (lh_list s)) \<and> log_inv s V H U \<and> free_lock L_log s"

text \<open>What the operations of the log may change.\<close>

definition log_frame :: "'z log_st_scheme \<Rightarrow> 'z log_st_scheme \<Rightarrow> bool" where
  "log_frame s t \<longleftrightarrow> (\<exists>p c d w b n xs. woken (ptable s) p
     \<and> t = s\<lparr>ptable := p, bcache := c, disk := d, whist := w, lbusy := b, lh_n := n, lh_sector := xs\<rparr>)"

lemma log_frameI: "woken (ptable s) p \<Longrightarrow>
  log_frame s (s\<lparr>ptable := p, bcache := c, disk := d, whist := w, lbusy := b, lh_n := n, lh_sector := xs\<rparr>)"
  unfolding log_frame_def by blast

lemma log_frameE:
  assumes "log_frame s t"
  obtains p c d w b n xs where "woken (ptable s) p"
    "t = s\<lparr>ptable := p, bcache := c, disk := d, whist := w, lbusy := b, lh_n := n, lh_sector := xs\<rparr>"
  using assms unfolding log_frame_def by blast

lemma log_frame_trans: "log_frame s t \<Longrightarrow> log_frame t u \<Longrightarrow> log_frame s u"
  by (elim log_frameE) (auto intro!: log_frameI dest: woken_trans)

lemma bio_log_frame: "bio_frame s t \<Longrightarrow> log_frame s t"
proof (elim bio_frameE)
  fix p c d w assume "t = s\<lparr>ptable := p, bcache := c, disk := d, whist := w\<rparr>" "woken (ptable s) p"
  with log_frameI [of s p "lh_sector s" "lh_n s" "lbusy s" w d c] show "log_frame s t" by simp
qed

lemma log_frame_upd [simp]:
  "log_frame s (s\<lparr>lh_n := n\<rparr>)" "log_frame s (s\<lparr>lh_sector := xs\<rparr>)" "log_frame s (s\<lparr>lbusy := b\<rparr>)" "log_frame s s"
  using log_frameI [of s "ptable s" "lh_sector s" n "lbusy s" "whist s" "disk s" "bcache s"]
    log_frameI [of s "ptable s" xs "lh_n s" "lbusy s" "whist s" "disk s" "bcache s"]
    log_frameI [of s "ptable s" "lh_sector s" "lh_n s" b "whist s" "disk s" "bcache s"]
    log_frameI [of s "ptable s" "lh_sector s" "lh_n s" "lbusy s" "whist s" "disk s" "bcache s"]
  by simp_all

lemma log_frame_sel:
  assumes "log_frame s t"
  shows "settled t = settled s" "free_lock l t = free_lock l s" "idle t = idle s" "disksize t = disksize s"
    "curproc t = curproc s" "mem t = mem s" "freelist t = freelist s" "log_st.more t = log_st.more s"
    "lstart t = lstart s" "lsize t = lsize s" "ldev t = ldev s"
  using assms by (auto elim!: log_frameE simp: settled_def mach_ok_def free_lock_def idle_def)

lemma end_trans_eq:
  assumes "settled s" "free_lock L_log s" "free_lock L_ptable s"
  shows "end_trans s = Ok () (s\<lparr>lbusy := False, ptable := map (wake_proc ChLog) (ptable s)\<rparr>)"
proof -
  let ?f = "\<lambda>s. s\<lparr>lbusy := False, ptable := map (wake_proc ChLog) (ptable s)\<rparr>"
  have a: "above_mach ?f" "\<And>s. cpu (?f s) = cpu s" by (simp_all add: above_mach_def)
  have "settled ((acquired L_log s)\<lparr>lbusy := False\<rparr>)" "free_lock L_ptable ((acquired L_log s)\<lparr>lbusy := False\<rparr>)"
    using assms by (simp_all add: settled_def mach_ok_def free_lock_def acquired_def)
  then have "wakeup ChLog ((acquired L_log s)\<lparr>lbusy := False\<rparr>) = Ok () (?f (acquired L_log s))"
    by (simp add: wakeup_eq)
  with crit_release [OF assms(1,2) a] assms(2) show ?thesis by (simp add: end_trans_def kdefs acquire_free)
qed

lemma begin_trans_eq:
  assumes "settled s" "free_lock L_log s" "\<not> lbusy s"
  shows "begin_trans s = Ok () (s\<lparr>lbusy := True\<rparr>)"
proof -
  have a: "above_mach (\<lambda>s. s\<lparr>lbusy := True\<rparr>)" "\<And>s. cpu (s\<lparr>lbusy := True\<rparr>) = cpu s" by (simp_all add: above_mach_def)
  have "lbusy (acquired L_log s) = lbusy s" by (simp add: acquired_def)
  with crit_release [OF assms(1,2) a] assms show ?thesis
    by (simp add: begin_trans_def begin_loop_def kdefs acquire_free)
qed

lemma log_geom_frame:
  assumes "bio_frame s t"
  shows "log_geom t = log_geom s" "lh_list t = lh_list s"
  using bio_frame_log [OF assms] bio_frame_mach [OF assms] by (auto simp: log_geom_def lh_list_def)

text \<open>The disk part of \<^verbatim>\<open>commit_trans\<close>, with the sector writes it makes.\<close>

definition commit_writes :: "dimg \<Rightarrow> uint \<Rightarrow> uint list \<Rightarrow> (uint \<times> byte list) list" where
  "commit_writes d st xs = (let h = enc_head xs (d st) in (st, h) # install_writes d st xs @ [(st, enc_head [] h)])"

definition commit_disk :: "dimg \<Rightarrow> uint \<Rightarrow> uint list \<Rightarrow> dimg" where
  "commit_disk d st xs =
    (let h = enc_head xs (d st) in (installed (d(st := h)) st xs)(st := enc_head [] h))"

lemma commit_flush:
  assumes g: "log_geom s" and ok: "bio_ok s V Map.empty (set (lh_list s))"
    and V: "\<forall>k < lstart s. V k = installed (disk s) (lstart s) (lh_list s) k"
  shows "wp (seqK write_head (seqK install_trans (seqK (modK (\<lambda>s. s\<lparr>lh_n := 0\<rparr>)) write_head)))
    (\<lambda>_ t. bio_ok t (V(lstart s := commit_disk (disk s) (lstart s) (lh_list s) (lstart s))) Map.empty {}
       \<and> disk t = commit_disk (disk s) (lstart s) (lh_list s)
       \<and> whist t = whist s @ commit_writes (disk s) (lstart s) (lh_list s)
       \<and> lh_n t = 0 \<and> lbusy t = lbusy s \<and> lh_sector t = lh_sector s \<and> log_frame s t) s"
proof -
  let ?st = "lstart s" and ?xs = "lh_list s" and ?d = "disk s"
  note gd = log_geomD [OF g]
  have xs: "distinct ?xs" "\<forall>x \<in> set ?xs. x < ?st" and n: "0 \<le> lh_n s" "ldev s = 1" "length (lh_sector s) = LOGSIZE"
    using g by (auto simp: log_geom_def)
  have stn: "?st \<notin> set ?xs" using xs(2) by blast
  have card: "card (set ?xs) < NBUF" using gd(1,2) card_length [of ?xs] by (simp add: NBUF_def LOGSIZE_def)
  have sx: "slots_ok ?st (length ?xs)" using g gd(1,3) by (auto simp: slots_ok_def log_geom_def)
  have Vst: "V ?st = ?d ?st" using bc.view_clean [OF ok] stn by simp
  let ?h = "enc_head ?xs (?d ?st)" and ?V1 = "V(?st := enc_head ?xs (?d ?st))"
  have "wp write_head (\<lambda>_ t. bio_ok t ?V1 Map.empty (set ?xs) \<and> disk t = ?d(?st := ?h)
      \<and> whist t = whist s @ [(?st, ?h)] \<and> bio_frame s t) s"
    using write_head_law [OF ok n(2) gd(5) _ _ n(1) _ n(3)] gd(2) card stn by (simp add: Vst lh_list_def)
  then obtain t where t: "write_head s = Ok () t" "bio_ok t ?V1 Map.empty (set ?xs)" "disk t = ?d(?st := ?h)"
      "whist t = whist s @ [(?st, ?h)]" "bio_frame s t" by (auto simp: wp_returns)
  note ft = bio_frame_log [OF t(5)] log_geom_frame [OF t(5)]
  have logd: "\<forall>i < length (lh_list t). ?V1 (lh_list t ! i) = disk t (lstart t + of_nat i + 1)"
  proof (intro allI impI)
    fix i assume "i < length (lh_list t)"
    then have i: "i < length ?xs" by (simp add: ft)
    then have "?xs ! i < ?st" using xs(2) nth_mem by blast
    then have "?V1 (?xs ! i) = ?d (?st + of_nat i + 1)"
      using V xs(1) nth_mem [OF i] i by (auto simp: installed_def log_slot_distinct)
    then show "?V1 (lh_list t ! i) = disk t (lstart t + of_nat i + 1)"
      by (simp only: ft t(3) slot_not_head [OF sx i])
  qed
  have gt: "log_geom t" using g ft by simp
  have okt: "bio_ok t ?V1 Map.empty (set (lh_list t))" using t(2) ft by simp
  obtain u where u: "forK [0..<length ?xs] install_one t = Ok () u" "bio_ok u ?V1 Map.empty {}"
    "disk u = installed (disk t) ?st ?xs" "whist u = whist t @ install_writes (disk t) ?st ?xs" "bio_frame t u"
    using install_loop [OF gt okt logd, of "length ?xs"] by (auto simp: wp_returns ft fun_upd_def)
  have fu: "bio_frame s u" using t(5) u(5) by (rule bio_frame_trans)
  note fu' = bio_frame_log [OF fu] bio_frame_mach [OF fu]
  have inst: "install_trans t = Ok () u" using u(1) gd(1) ft by (simp add: install_trans_def run_steps)
  let ?w = "u\<lparr>lh_n := 0\<rparr>" and ?h0 = "enc_head [] ?h"
  have okw: "bio_ok ?w ?V1 Map.empty {}" using u(2) by simp
  have "wp write_head (\<lambda>_ t. bio_ok t (V(?st := ?h0)) Map.empty {} \<and> disk t = (disk u)(?st := ?h0)
      \<and> whist t = whist u @ [(?st, ?h0)] \<and> bio_frame ?w t) ?w"
    using write_head_law [OF okw] fu' n gd(5) by (simp add: NBUF_def)
  then obtain v where v: "write_head ?w = Ok () v" "bio_ok v (V(?st := ?h0)) Map.empty {}"
    "disk v = (disk u)(?st := ?h0)" "whist v = whist u @ [(?st, ?h0)]" "bio_frame ?w v" by (auto simp: wp_returns)
  have "log_frame s v"
    using log_frame_trans [OF bio_log_frame [OF fu] log_frame_trans [OF log_frame_upd(1) bio_log_frame [OF v(5)]]] .
  moreover have "install_writes (disk t) ?st ?xs = install_writes ?d ?st ?xs"
    using install_writes_head [OF sx] by (simp add: t(3))
  ultimately show ?thesis using t u v inst bio_frame_log [OF v(5)] fu'
    by (simp add: wp_def kdefs commit_disk_def commit_writes_def Let_def)
qed

lemma commit_disk_data:
  assumes "log_geom s" "k < lstart s"
  shows "commit_disk (disk s) (lstart s) (lh_list s) k = installed (disk s) (lstart s) (lh_list s) k"
proof -
  have "slots_ok (lstart s) (length (lh_list s))"
    using assms log_geomD(1,3) [OF assms(1)] by (auto simp: slots_ok_def log_geom_def)
  with assms(2) installed_head show ?thesis by (auto simp: commit_disk_def Let_def)
qed

lemma commit_writes_disk:
  assumes "log_geom s"
  shows "apply_writes (commit_writes (disk s) (lstart s) (lh_list s)) (disk s)
    = commit_disk (disk s) (lstart s) (lh_list s)"
proof -
  let ?d = "(disk s)(lstart s := enc_head (lh_list s) (disk s (lstart s)))"
  have sx: "slots_ok (lstart s) (length (lh_list s))"
    using assms log_geomD(1,3) [OF assms] by (auto simp: slots_ok_def log_geom_def)
  have "apply_writes (install_writes ?d (lstart s) (lh_list s)) ?d = installed ?d (lstart s) (lh_list s)"
    using apply_install_writes [of "lh_list s" "lstart s" ?d "length (lh_list s)"] sx assms by (simp add: log_geom_def)
  then show ?thesis using install_writes_head [OF sx] by (simp add: commit_writes_def commit_disk_def Let_def)
qed

lemma bio_ok_ptable [simp]: "bio_ok (s\<lparr>ptable := p\<rparr>) V H D = bio_ok s V H D"
  by (simp add: bio_ok_def bio_ready_def bio_rep_def bio_inv_def caches_def settled_def mach_ok_def free_lock_def)

lemma log_frame_end: "log_frame s (s\<lparr>lbusy := False, ptable := map (wake_proc ch) (ptable s)\<rparr>)"
proof -
  have "s\<lparr>lbusy := False, ptable := map (wake_proc ch) (ptable s)\<rparr> = s\<lparr>ptable := map (wake_proc ch) (ptable s),
    bcache := bcache s, disk := disk s, whist := whist s, lbusy := False, lh_n := lh_n s, lh_sector := lh_sector s\<rparr>"
    by (auto intro!: log_st.equality)
  moreover have "log_frame s \<dots>" by (rule log_frameI) simp
  ultimately show ?thesis by (simp only:)
qed

lemma atomic_agree: "atomic_writes st m d ws old new \<Longrightarrow> agree st new new' \<Longrightarrow> atomic_writes st m d ws old new'"
  unfolding atomic_writes_def by (meson agree_trans)

text \<open>After the commit the log is empty: the invariant only asks for a clean header and clean sectors.\<close>

lemma log_ok_empty:
  assumes "bio_ok t V Map.empty {}" "lh_n t = 0" "free_lock L_log t" "get32 0 (disk t (lstart t)) = 0"
    "ldev t = 1" "2 \<le> lsize t" "lsize t \<le> int LOGSIZE" "unat (lstart t) + nat (lsize t) \<le> unat (disksize t)"
    "length (lh_sector t) = LOGSIZE"
  shows "log_ok t V Map.empty {}"
  using assms bc.view_clean [OF assms(1)]
  by (auto simp: log_ok_def log_inv_def log_geom_def lh_list_def installed_def)

text \<open>
  \<^verbatim>\<open>commit_trans\<close> at the end of a transaction, no buffer held: the home sectors get the contents that
  readers saw, the log is empty and free again, and the sector writes are atomic.
\<close>

lemma commit_law:
  assumes ok: "log_ok s V Map.empty {}"
  shows "wp commit_trans (\<lambda>_ t. \<exists>V' ws. log_ok t V' Map.empty {} \<and> agree (lstart s) V' V
     \<and> agree (lstart s) (disk t) V \<and> \<not> lbusy t \<and> log_frame s t
     \<and> whist t = whist s @ ws \<and> disk t = apply_writes ws (disk s)
     \<and> atomic_writes (lstart s) (log_budget s) (disk s) ws (disk s) V) s"
proof -
  let ?st = "lstart s" and ?xs = "lh_list s" and ?d = "disk s"
  from ok have bio: "bio_ok s V Map.empty (set ?xs)" and inv: "log_inv s V Map.empty {}" and fl: "free_lock L_log s"
    by (auto simp: log_ok_def)
  from inv have g: "log_geom s" and hd: "get32 0 (?d ?st) = 0"
    and V: "\<forall>k < ?st. V k = installed ?d ?st ?xs k" by (auto simp: log_inv_def)
  note gd = log_geomD [OF g]
  have rdy: "settled s" "free_lock L_ptable s" using bio by (auto simp: bio_ok_def bio_ready_def)
  let ?fin = "\<lambda>t. t\<lparr>lbusy := False, ptable := map (wake_proc ChLog) (ptable t)\<rparr>"
  show ?thesis
  proof (cases "lh_n s > 0")
    case True
    let ?V = "V(?st := commit_disk ?d ?st ?xs ?st)" and ?ws = "commit_writes ?d ?st ?xs"
    obtain t where t: "seqK write_head (seqK install_trans (seqK (modK (\<lambda>s. s\<lparr>lh_n := 0\<rparr>)) write_head)) s = Ok () t"
      "bio_ok t ?V Map.empty {}" "disk t = commit_disk ?d ?st ?xs" "whist t = whist s @ ?ws" "lh_n t = 0"
      "lbusy t = lbusy s" "lh_sector t = lh_sector s" "log_frame s t"
      using commit_flush [OF g bio V] by (auto simp: wp_returns)
    note ft = log_frame_sel [OF t(8)]
    have e: "end_trans t = Ok () (?fin t)" using rdy fl ft by (intro end_trans_eq) auto
    have "length (?d ?st) = 512" using bc.view_len [OF bio gd(5)] bc.view_clean [OF bio, of ?st] g
      by (auto simp: log_geom_def)
    then have at: "atomic_writes ?st (log_budget s) ?d ?ws ?d (installed ?d ?st ?xs)"
      using commit_atomic [of ?xs ?st ?d "log_budget s"] g gd hd
      by (auto simp: commit_writes_def Let_def log_geom_def slots_ok_def log_budget_def)
    have d0: "get32 0 (commit_disk ?d ?st ?xs ?st) = 0"
      using \<open>length (?d ?st) = 512\<close> gd(1,2) by (simp add: commit_disk_def Let_def enc_head_def LOGSIZE_def)
    have "log_ok (?fin t) ?V Map.empty {}"
      using t ft g fl d0 by (intro log_ok_empty) (auto simp: log_geom_def free_lock_def)
    moreover have "agree ?st ?V V" "agree ?st (commit_disk ?d ?st ?xs) V"
      using V commit_disk_data [OF g] by (auto simp: agree_def)
    moreover have "agree ?st (installed ?d ?st ?xs) V" using V by (simp add: agree_def)
    ultimately show ?thesis using t e at True commit_writes_disk [OF g] log_frame_trans [OF t(8) log_frame_end]
      by (auto simp: wp_def commit_trans_def run_steps run_Ok intro!: exI [of _ ?V] exI [of _ ?ws] elim: atomic_agree)
  next
    case False
    with g have n: "lh_n s = 0" "?xs = []" by (auto simp: log_geom_def lh_list_def)
    have e: "end_trans s = Ok () (?fin s)" using rdy fl by (intro end_trans_eq) auto
    have "log_ok (?fin s) V Map.empty {}"
      using bio n g fl hd by (intro log_ok_empty) (auto simp: log_geom_def free_lock_def)
    moreover have "agree ?st (disk s) V" using V n by (simp add: agree_def installed_def)
    moreover have "atomic_writes ?st (log_budget s) ?d [] ?d V" using hd by (simp add: atomic_writes_def recovered_clean head_ok_clean)
    ultimately show ?thesis using e n log_frame_end [of s ChLog]
      by (auto simp: wp_def commit_trans_def run_steps intro!: exI [of _ V] exI [of _ "[]"])
  qed
qed

section \<open>Blocks inside a transaction\<close>

lemma log_bread_law:
  assumes "log_ok s V H U" "k < lstart s" "H k = None" "k \<in> set (lh_list s) \<or> card (dom H \<union> set (lh_list s)) < NBUF"
  shows "wp (bread 1 k) (\<lambda>b t. log_ok t V (H(k \<mapsto> b)) U \<and> lh_list t = lh_list s \<and> disk t = disk s
    \<and> whist t = whist s \<and> bio_frame s t) s"
proof -
  have ok: "bio_ok s V H (set (lh_list s))" "log_inv s V H U" "free_lock L_log s" using assms(1) by (auto simp: log_ok_def)
  then have "k < disksize s" using log_geomD(6) assms(2) by (auto simp: log_inv_def)
  then obtain b t where t: "bread 1 k s = Ok b t" "bio_ok t V (H(k \<mapsto> b)) (set (lh_list s))" "disk t = disk s"
    "whist t = whist s" "bio_frame s t" using assms(3,4) by (auto elim: bc.rdE [OF ok(1)])
  note f = bio_frame_log [OF t(5)] bio_frame_mach [OF t(5)] log_geom_frame [OF t(5)]
  have "log_inv t V (H(k \<mapsto> b)) U" using ok(2) assms(2) t(3) by (auto simp: log_inv_def f)
  with t ok f show ?thesis by (simp add: wp_def log_ok_def)
qed

lemma log_put_law:
  assumes "log_ok s V H U" "H k = Some b" "length d = 512"
  shows "log_ok (set_buf_data b d s) (V(k := d)) H (insert k U)"
proof -
  have ok: "bio_ok s V H (set (lh_list s))" "log_inv s V H U" "free_lock L_log s" using assms(1) by (auto simp: log_ok_def)
  note p = bc.ptE [OF ok(1) assms(2,3)]
  note f = bio_frame_log [OF p(4)] bio_frame_mach [OF p(4)] log_geom_frame [OF p(4)]
  have "log_inv (set_buf_data b d s) (V(k := d)) H (insert k U)"
    using ok(2) assms(2) by (auto simp: log_inv_def f p(2))
  with p(1) ok f show ?thesis by (simp add: log_ok_def)
qed

lemma log_brelse_law:
  assumes "log_ok s V H U" "H k = Some b" "k \<notin> U"
  shows "wp (brelse b) (\<lambda>_ t. log_ok t V (H(k := None)) U \<and> lh_list t = lh_list s \<and> disk t = disk s
    \<and> whist t = whist s \<and> bio_frame s t) s"
proof -
  have ok: "bio_ok s V H (set (lh_list s))" "log_inv s V H U" "free_lock L_log s" using assms(1) by (auto simp: log_ok_def)
  have "k < lstart s" using ok(2) assms(2) by (metis log_inv_def not_less option.distinct(1))
  then have "k \<in> set (lh_list s) \<or> V k = disk s k" using ok(2) assms(3) by (auto simp: log_inv_def installed_def)
  then obtain t where t: "brelse b s = Ok () t" "bio_ok t V (H(k := None)) (set (lh_list s))" "disk t = disk s"
    "whist t = whist s" "bio_frame s t" by (rule bc.relE [OF ok(1) assms(2)])
  note f = bio_frame_log [OF t(5)] bio_frame_mach [OF t(5)] log_geom_frame [OF t(5)]
  have "log_inv t V (H(k := None)) U" using ok(2) assms(3) t(3) by (auto simp: log_inv_def f)
  with t ok f show ?thesis by (simp add: wp_def log_ok_def)
qed

lemma bio_set_dirty:
  assumes "bio_ok s V H D" "H k = Some b"
  shows "bio_ok (upd_buf b (\<lambda>p. p\<lparr>flags := insert B_DIRTY (flags p)\<rparr>) s) V H (insert k D)"
proof -
  from assms have rep: "bio_rep s V H D" by (simp add: bio_ok_def)
  from bio_repD(3) [OF rep assms(2)] have c: "caches s b k" "B_BUSY \<in> flags (bcache s b)" by auto
  have H: "H(k := Some b) = H" using assms(2) by auto
  let ?F = "insert B_DIRTY (flags (bcache s b))"
  have "upd_buf b (\<lambda>p. p\<lparr>flags := ?F\<rparr>) s = upd_buf b (\<lambda>p. p\<lparr>flags := insert B_DIRTY (flags p)\<rparr>) s"
    by (simp add: upd_bcache_def setb_def)
  with bio_rep_flags [OF rep c(1), of ?F] bio_repD(6) [OF rep c(1)] c(2) assms(1) show ?thesis
    by (simp add: bio_ok_def H)
qed

text \<open>The list of logged sectors after \<^verbatim>\<open>log_write\<close>: absorbed, or appended.\<close>

lemma log_slot_update:
  assumes "0 \<le> n" "nat n < length ys" "i = log_slot k (take (nat n) ys)"
  shows "take (nat (if int i = n then n + 1 else n)) (ys[i := k]) =
    (if k \<in> set (take (nat n) ys) then take (nat n) ys else take (nat n) ys @ [k])"
proof (cases "k \<in> set (take (nat n) ys)")
  case True
  with assms have i: "i < nat n" "ys ! i = k" using log_slot_nth [OF True] by auto
  then have "ys[i := k] = ys" "int i \<noteq> n" by (auto simp: list_update_id)
  with True show ?thesis by simp
next
  case False
  then have "i = nat n" using assms by (simp add: log_slot_notin)
  with False assms show ?thesis by (simp add: nat_add_distrib take_Suc_conv_app_nth)
qed

text \<open>What \<^verbatim>\<open>log_write\<close> does to the disk that a commit would produce: it changes at the written sector only.\<close>

lemma installed_log_write:
  assumes "distinct xs" "\<forall>x \<in> set xs. x < st" "k < st" "slots_ok st (Suc (length xs))"
  defines "kL \<equiv> st + of_nat (log_slot k xs) + 1"
    and "ys \<equiv> (if k \<in> set xs then xs else xs @ [k])"
  assumes "j < st"
  shows "installed (d(kL := v)) st ys j = (if j = k then v else installed d st xs j)"
proof -
  have sl: "slots_ok st (length ys)" "log_slot k xs < Suc (length xs)" using assms(4) log_slot_nth [of k xs]
    by (auto simp: ys_def slots_ok_def log_slot_notin) (cases "k \<in> set xs"; simp add: log_slot_notin)
  have kL: "st < kL" unfolding kL_def using slot_above [OF assms(4) sl(2)] .
  show ?thesis
  proof (cases "j = k")
    case True
    then have "log_slot j ys = log_slot k xs" "j \<in> set ys" by (auto simp: ys_def log_slot_append log_slot_notin)
    with True show ?thesis by (simp add: installed_def kL_def)
  next
    case False
    show ?thesis
    proof (cases "j \<in> set xs")
      case True
      with False have j: "log_slot j ys = log_slot j xs" "j \<in> set ys" by (auto simp: ys_def log_slot_append)
      note lj = log_slot_nth [OF True]
      have "log_slot j xs \<noteq> log_slot k xs"
        using lj False log_slot_nth [of k xs] by (cases "k \<in> set xs") (auto simp: log_slot_notin)
      then have "st + of_nat (log_slot j xs) + 1 \<noteq> kL"
        unfolding kL_def using slot_inj [OF assms(4) _ sl(2)] lj by (meson less_SucI)
      with False True j show ?thesis by (simp add: installed_def)
    next
      case nin: False
      with False kL \<open>j < st\<close> show ?thesis by (auto simp: installed_def ys_def)
    qed
  qed
qed

lemma log_write_run:
  assumes lok: "log_ok s V H U" and Hk: "H k = Some b" and busy: "lbusy s" and sp: "lh_n s < lsize s - 1"
    and room: "card (dom H \<union> set (lh_list s)) < NBUF"
  defines "kL \<equiv> lstart s + of_nat (log_slot k (lh_list s)) + 1"
  obtains y where "log_write b s = Ok () y" "bio_ok y (V(kL := V k)) H (set (lh_list y))"
    "lh_list y = (if k \<in> set (lh_list s) then lh_list s else lh_list s @ [k])" "set (lh_list y) = insert k (set (lh_list s))"
    "disk y = (disk s)(kL := V k)" "whist y = whist s @ [(kL, V k)]" "log_frame s y" "log_geom y" "lbusy y"
    "lstart s < kL" "k < lstart s"
proof -
  let ?xs = "lh_list s" and ?st = "lstart s"
  let ?i = "log_slot k ?xs"
  have ok: "bio_ok s V H (set ?xs)" "log_inv s V H U" "free_lock L_log s" using lok by (auto simp: log_ok_def)
  have g: "log_geom s" and hd: "get32 0 (disk s ?st) = 0" and Hhi: "\<forall>k \<ge> ?st. H k = None" using ok(2) by (auto simp: log_inv_def)
  note gd = log_geomD [OF g]
  have kst: "k < ?st" using Hhi Hk by (metis not_less option.distinct(1))
  have len: "length ?xs = nat (lh_n s)" "length (lh_sector s) = LOGSIZE" "0 \<le> lh_n s" "lh_n s < int LOGSIZE" "lsize s \<le> int LOGSIZE"
    using gd(1,2) g by (auto simp: log_geom_def)
  have i: "?i \<le> nat (lh_n s)" "?i < nat (lsize s - 1)"
    using log_slot_nth [of k ?xs] log_slot_notin [of k ?xs] len sp by (cases "k \<in> set ?xs"; auto)+
  have kL: "?st < kL" "kL < disksize s" unfolding kL_def using slot_above [OF gd(3) i(2)] gd(4) [OF i(2)] by auto
  have kLn: "H kL = None" "kL \<noteq> k" "kL \<notin> set ?xs" using Hhi kL kst g by (auto simp: log_geom_def)
  let ?s1 = "s\<lparr>lh_sector := (lh_sector s)[?i := k]\<rparr>"
  have b: "sector (bcache s b) = k" "bdev (bcache s b) = 1"
    using ok(1) Hk bio_repD(3) [of s V H "set ?xs" k b] by (auto simp: bio_ok_def caches_def)
  have ok1: "bio_ok ?s1 V H (set ?xs)" "kL < disksize ?s1" using ok(1) kL by simp_all
  obtain lb t where t: "bread 1 kL ?s1 = Ok lb t" "bio_ok t V (H(kL \<mapsto> lb)) (set ?xs)" "disk t = disk ?s1"
    "whist t = whist ?s1" "bio_frame ?s1 t" using room by (rule bc.rdE [OF ok1 kLn(1) disjI2])
  have h: "(H(kL \<mapsto> lb)) kL = Some lb" "(H(kL \<mapsto> lb)) k = Some b" using kLn Hk by auto
  have gb: "buf_data b t = V k" using t(2) h(2) by (rule bc.gt_ok)
  have "length (V k) = 512" using ok(1) gd(6) [OF kst] by (rule bc.view_len)
  note p = bc.ptE [OF t(2) h(1) this]
  let ?u = "set_buf_data lb (V k) t" and ?V = "V(kL := V k)"
  obtain v where v: "bwrite lb ?u = Ok () v" "bio_ok v ?V (H(kL \<mapsto> lb)) (set ?xs - {kL})"
    "disk v = (disk ?u)(kL := ?V kL)" "whist v = whist ?u @ [(kL, ?V kL)]" "bio_frame ?u v" by (rule bc.wrE [OF p(1) h(1)])
  have "kL \<in> set ?xs - {kL} \<or> ?V kL = disk v kL" using v(3) by simp
  then obtain w where w: "brelse lb v = Ok () w" "bio_ok w ?V (H(kL \<mapsto> lb, kL := None)) (set ?xs - {kL})"
    "disk w = disk v" "whist w = whist v" "bio_frame v w" by (rule bc.relE [OF v(2) h(1)])
  have Hw: "H(kL \<mapsto> lb, kL := None) = H" "set ?xs - {kL} = set ?xs" using kLn by auto
  have fw: "bio_frame ?s1 w" using t(5) p(4) v(5) w(5) bio_frame_trans by meson
  note f = bio_frame_log [OF fw]
  let ?n = "if int ?i = lh_n s then lh_n s + 1 else lh_n s"
  let ?x = "w\<lparr>lh_n := ?n\<rparr>"
  let ?y = "upd_buf b (\<lambda>p. p\<lparr>flags := insert B_DIRTY (flags p)\<rparr>) ?x"
  have "lh_n w = lh_n s" using f(5) by simp
  from this [symmetric] have wn: "w\<lparr>lh_n := lh_n s\<rparr> = w" by simp
  have iL: "?i < LOGSIZE" using i(1) len(3,4) by simp
  have run: "log_write b s = Ok () ?y"
    using t v w gb busy sp len i iL b f kL_def
    by (simp add: log_write_def run_steps run_Ok set_sector_def whenK_def lh_list_def [symmetric])
       (simp add: kdefs wn)
  have ly: "lh_list ?y = (if k \<in> set ?xs then ?xs else ?xs @ [k])"
    unfolding lh_list_def using log_slot_update [of "lh_n s" "lh_sector s" ?i k] len(2,3,4) f(6)
    by (simp add: lh_list_def upd_bcache_def split del: if_split)
  have D: "set (lh_list ?y) = insert k (set ?xs)" unfolding ly by auto
  have biox: "bio_ok ?x ?V H (set ?xs)" using w(2) by (simp only: Hw bio_ok_log)
  from bio_set_dirty [OF biox Hk] have bioy: "bio_ok ?y ?V H (set (lh_list ?y))" unfolding D .
  have dy: "disk ?y = (disk s)(kL := V k)" "whist ?y = whist s @ [(kL, V k)]" using w v p t by simp_all
  have fr: "log_frame s ?y"
    using log_frame_trans [OF log_frame_upd(2) [of s "(lh_sector s)[?i := k]"] log_frame_trans [OF bio_log_frame [OF fw]
      log_frame_trans [OF log_frame_upd(1) [of w ?n] bio_log_frame [OF bio_frame_upd]]]] .
  note sy = log_frame_sel [OF fr]
  have "lh_n ?y = ?n" "lh_sector ?y = (lh_sector s)[?i := k]" "lbusy ?y = lbusy s" using f by (simp_all add: upd_bcache_def)
  moreover have "distinct (lh_list ?y)" "\<forall>x \<in> set (lh_list ?y). x < ?st" unfolding ly using g kst by (auto simp: log_geom_def)
  ultimately have gy: "log_geom ?y" "lbusy ?y" using g sy sp busy len by (auto simp: log_geom_def)
  show thesis using that [OF run bioy ly D dy fr gy kL(1) kst] .
qed

lemma log_write_law:
  assumes lok: "log_ok s V H U" and Hk: "H k = Some b" and busy: "lbusy s" and sp: "lh_n s < lsize s - 1"
    and room: "card (dom H \<union> set (lh_list s)) < NBUF"
  defines "kL \<equiv> lstart s + of_nat (log_slot k (lh_list s)) + 1"
  shows "wp (log_write b) (\<lambda>_ t. log_ok t (V(kL := V k)) H (U - {k}) \<and> set (lh_list t) = insert k (set (lh_list s))
    \<and> lstart s < kL \<and> disk t = (disk s)(kL := V k) \<and> whist t = whist s @ [(kL, V k)]
    \<and> lbusy t \<and> log_frame s t) s"
proof -
  let ?xs = "lh_list s" and ?st = "lstart s" and ?V = "V(kL := V k)"
  have ok: "log_inv s V H U" "free_lock L_log s" using lok by (auto simp: log_ok_def)
  have g: "log_geom s" and hd: "get32 0 (disk s ?st) = 0" and Hhi: "\<forall>k \<ge> ?st. H k = None" using ok(1) by (auto simp: log_inv_def)
  note gd = log_geomD [OF g]
  obtain y where y: "log_write b s = Ok () y" "bio_ok y ?V H (set (lh_list y))"
    "lh_list y = (if k \<in> set ?xs then ?xs else ?xs @ [k])" "set (lh_list y) = insert k (set ?xs)"
    "disk y = (disk s)(kL := V k)" "whist y = whist s @ [(kL, V k)]" "log_frame s y" "log_geom y" "lbusy y"
    and kL: "?st < kL" and kst: "k < ?st"
    by (rule log_write_run [OF lok Hk busy sp room, folded kL_def])
  note sy = log_frame_sel [OF y(7)]
  have sl: "slots_ok ?st (Suc (length ?xs))" using gd(1,3) sp g by (auto simp: slots_ok_def log_geom_def)
  have xs: "distinct ?xs" "\<forall>x \<in> set ?xs. x < ?st" using g by (auto simp: log_geom_def)
  have V: "?V j = installed (disk y) ?st (lh_list y) j" if "j < ?st" "j \<notin> U - {k}" for j
  proof -
    have "j = k \<or> V j = installed (disk s) ?st ?xs j" using ok(1) that by (auto simp: log_inv_def)
    with installed_log_write [OF xs kst sl that(1), of "disk s" "V k"] that(1) kL show ?thesis
      unfolding y(3,5) kL_def by auto
  qed
  have "disk y ?st = disk s ?st" using kL by (auto simp: y(5))
  moreover have "U - {k} \<subseteq> dom H" using ok(1) by (auto simp: log_inv_def)
  ultimately have "log_inv y ?V H (U - {k})"
    unfolding log_inv_def sy(9) using y(8,9) hd Hhi V by metis
  then have "log_ok y ?V H (U - {k})" using y(2) ok(2) sy by (simp add: log_ok_def)
  with y kL show ?thesis by (simp add: wp_def)
qed

section \<open>The contract that the file system uses\<close>

text \<open>
  Blocks below \<open>bound\<close>, read into pinned buffers and written through the log. In \<open>rep s W H D U\<close>, \<open>W\<close> is
  the contents of the blocks, \<open>H\<close> the pinned blocks, \<open>D\<close> the blocks of the running transaction, \<open>U\<close> the pinned
  blocks changed since they were last logged. \<open>budget\<close> is the largest number of blocks of a
  transaction, \<open>cap\<close> the number of buffers, \<open>intx\<close> says that a transaction is running.
\<close>

locale block_store =
  fixes rd :: "uint \<Rightarrow> (nat, 's) kern"
    and gt :: "nat \<Rightarrow> 's \<Rightarrow> byte list"
    and pt :: "nat \<Rightarrow> byte list \<Rightarrow> 's \<Rightarrow> 's"
    and wr :: "nat \<Rightarrow> (unit, 's) kern"
    and rel :: "nat \<Rightarrow> (unit, 's) kern"
    and rep :: "'s \<Rightarrow> dimg \<Rightarrow> (uint \<rightharpoonup> nat) \<Rightarrow> uint set \<Rightarrow> uint set \<Rightarrow> bool"
    and bound :: "'s \<Rightarrow> uint"
    and budget :: "'s \<Rightarrow> nat"
    and intx :: "'s \<Rightarrow> bool"
    and frame :: "'s \<Rightarrow> 's \<Rightarrow> bool"
    and cap :: nat
  assumes rd_ok: "rep s W H D U \<Longrightarrow> k < bound s \<Longrightarrow> H k = None \<Longrightarrow> k \<in> D \<or> card (dom H \<union> D) < cap \<Longrightarrow>
      wp (rd k) (\<lambda>b t. rep t W (H(k \<mapsto> b)) D U \<and> frame s t) s"
    and gt_ok: "rep s W H D U \<Longrightarrow> H k = Some b \<Longrightarrow> gt b s = W k"
    and pt_ok: "rep s W H D U \<Longrightarrow> H k = Some b \<Longrightarrow> length d = 512 \<Longrightarrow>
      rep (pt b d s) (W(k := d)) H D (insert k U) \<and> frame s (pt b d s)"
    and wr_ok: "rep s W H D U \<Longrightarrow> H k = Some b \<Longrightarrow> intx s \<Longrightarrow> card D < budget s \<Longrightarrow> card (dom H \<union> D) < cap \<Longrightarrow>
      wp (wr b) (\<lambda>_ t. rep t W H (insert k D) (U - {k}) \<and> frame s t) s"
    and rel_ok: "rep s W H D U \<Longrightarrow> H k = Some b \<Longrightarrow> k \<notin> U \<Longrightarrow>
      wp (rel b) (\<lambda>_ t. rep t W (H(k := None)) D U \<and> frame s t) s"
    and blk_len: "rep s W H D U \<Longrightarrow> k < bound s \<Longrightarrow> length (W k) = 512"
    and unlogged: "rep s W H D U \<Longrightarrow> U \<subseteq> dom H"
    and held_bound: "rep s W H D U \<Longrightarrow> H k = Some b \<Longrightarrow> k < bound s"
    and frame_refl: "frame s s"
    and frame_trans: "frame s t \<Longrightarrow> frame t u \<Longrightarrow> frame s u"
    and frame_same: "frame s t \<Longrightarrow> bound t = bound s \<and> budget t = budget s \<and> intx t = intx s"
begin

lemma rdE:
  assumes "rep s W H D U" "k < bound s" "H k = None" "k \<in> D \<or> card (dom H \<union> D) < cap"
  obtains b t where "rd k s = Ok b t" "rep t W (H(k \<mapsto> b)) D U" "frame s t" "gt b t = W k"
proof -
  from rd_ok [OF assms] obtain b t where t: "rd k s = Ok b t" "rep t W (H(k \<mapsto> b)) D U" "frame s t"
    by (auto simp: wp_returns)
  from t(2) have "gt b t = W k" by (rule gt_ok) simp
  with t show ?thesis by (rule that)
qed

lemma ptE:
  assumes "rep s W H D U" "H k = Some b" "length d = 512"
  shows "rep (pt b d s) (W(k := d)) H D (insert k U)" "frame s (pt b d s)"
  using pt_ok [OF assms] by auto

lemma wrE:
  assumes "rep s W H D U" "H k = Some b" "intx s" "card D < budget s" "card (dom H \<union> D) < cap"
  obtains t where "wr b s = Ok () t" "rep t W H (insert k D) (U - {k})" "frame s t"
  using wr_ok [OF assms] by (auto simp: wp_returns)

lemma relE:
  assumes "rep s W H D U" "H k = Some b" "k \<notin> U"
  obtains t where "rel b s = Ok () t" "rep t W (H(k := None)) D U" "frame s t"
  using rel_ok [OF assms] by (auto simp: wp_returns)

text \<open>Look at a block.\<close>

lemma read_block:
  assumes "rep s W H D U" "k < bound s" "H k = None" "k \<in> D \<or> card (dom H \<union> D) < cap"
  shows "wp (bindK (rd k) (\<lambda>b. bindK (getK (gt b)) (\<lambda>d. seqK (rel b) (ret (f d)))))
    (\<lambda>r t. r = f (W k) \<and> rep t W H D U \<and> frame s t) s"
proof -
  obtain b t where t: "rd k s = Ok b t" "rep t W (H(k \<mapsto> b)) D U" "frame s t" "gt b t = W k" using assms by (rule rdE)
  have "(H(k \<mapsto> b)) k = Some b" "k \<notin> U" using unlogged [OF assms(1)] assms(3) by auto
  then obtain u where u: "rel b t = Ok () u" "rep u W (H(k \<mapsto> b, k := None)) D U" "frame t u" by (rule relE [OF t(2)])
  have "H(k \<mapsto> b, k := None) = H" using assms(3) by auto
  with t u frame_trans [OF t(3) u(3)] show ?thesis by (simp add: wp_def kdefs)
qed

text \<open>Change, log and release a pinned block.\<close>

lemma change_block:
  assumes "rep t W (H(k \<mapsto> b)) D U" "H k = None" "k \<notin> U" "intx t" "card D < budget t" "card (insert k (dom H \<union> D)) < cap"
    "length (f (W k)) = 512"
  shows "wp (seqK (modK (\<lambda>s. pt b (f (gt b s)) s)) (seqK (wr b) (rel b)))
    (\<lambda>_ u. rep u (W(k := f (W k))) H (insert k D) U \<and> frame t u) t"
proof -
  have b: "(H(k \<mapsto> b)) k = Some b" by simp
  have g: "gt b t = W k" by (rule gt_ok [OF assms(1) b])
  let ?p = "pt b (f (W k)) t"
  note p = ptE [OF assms(1) b assms(7)]
  have q: "intx ?p" "card D < budget ?p" "card (dom (H(k \<mapsto> b)) \<union> D) < cap"
    using assms(4-6) frame_same [OF p(2)] by auto
  obtain u where u: "wr b ?p = Ok () u" "rep u (W(k := f (W k))) (H(k \<mapsto> b)) (insert k D) (insert k U - {k})" "frame ?p u"
    using q by (rule wrE [OF p(1) b])
  obtain v where v: "rel b u = Ok () v" "rep v (W(k := f (W k))) (H(k \<mapsto> b, k := None)) (insert k D) (insert k U - {k})"
    "frame u v" by (rule relE [OF u(2) b]) simp
  have "insert k U - {k} = U" "H(k \<mapsto> b, k := None) = H" using assms(2,3) by auto
  moreover have "frame t v" using p(2) u(3) v(3) frame_trans by meson
  ultimately show ?thesis using g p u v by (simp add: wp_def kdefs)
qed

text \<open>Release a pinned block that was only looked at.\<close>

lemma drop_block:
  assumes "rep t W (H(k \<mapsto> b)) D U" "H k = None" "k \<notin> U"
  shows "wp (rel b) (\<lambda>_ u. rep u W H D U \<and> frame t u) t"
proof -
  have b: "(H(k \<mapsto> b)) k = Some b" and e: "H(k \<mapsto> b, k := None) = H" using assms(2) by auto
  from rel_ok [OF assms(1) b assms(3)] show ?thesis unfolding e .
qed

text \<open>Read, change, log and release a block.\<close>

lemma modify_block:
  assumes "rep s W H D U" "k < bound s" "H k = None" "intx s" "card D < budget s" "card (insert k (dom H \<union> D)) < cap"
    "length (f (W k)) = 512"
  shows "wp (bindK (rd k) (\<lambda>b. seqK (modK (\<lambda>s. pt b (f (gt b s)) s)) (seqK (wr b) (rel b))))
    (\<lambda>_ t. rep t (W(k := f (W k))) H (insert k D) U \<and> frame s t) s"
proof -
  have "card (dom H \<union> D) \<le> card (insert k (dom H \<union> D))" by (metis card.infinite card_insert_le finite_insert le0)
  then have "k \<in> D \<or> card (dom H \<union> D) < cap" using assms(6) by linarith
  then obtain b t where t: "rd k s = Ok b t" "rep t W (H(k \<mapsto> b)) D U" "frame s t" "gt b t = W k"
    by (rule rdE [OF assms(1-3)])
  have "k \<notin> U" using unlogged [OF assms(1)] assms(3) by auto
  from change_block [OF t(2) assms(3) this _ _ assms(6), of f] assms(4,5,7) frame_same [OF t(3)] t(1)
  show ?thesis by (auto simp: wp_bindK wp_returns [of "rd k"] elim!: wp_mono dest: frame_trans [OF t(3)])
qed

end

text \<open>The representation for the log: \<open>W\<close> and the cache agree below the log area.\<close>

definition blk_ok :: "'z log_st_scheme \<Rightarrow> dimg \<Rightarrow> (uint \<rightharpoonup> nat) \<Rightarrow> uint set \<Rightarrow> uint set \<Rightarrow> bool" where
  "blk_ok s W H D U \<longleftrightarrow> (\<exists>V. log_ok s V H U \<and> agree (lstart s) V W) \<and> D = set (lh_list s)"

text \<open>Inside a transaction the disk is written above the log header only.\<close>

definition log_only :: "'z log_st_scheme \<Rightarrow> 'z log_st_scheme \<Rightarrow> bool" where
  "log_only s t \<longleftrightarrow> (\<exists>ws. whist t = whist s @ ws \<and> disk t = apply_writes ws (disk s)
     \<and> list_all (\<lambda>(k, _). lstart s < k) ws)"

definition blk_frame :: "'z log_st_scheme \<Rightarrow> 'z log_st_scheme \<Rightarrow> bool" where
  "blk_frame s t \<longleftrightarrow> log_frame s t \<and> lbusy t = lbusy s \<and> log_only s t"

lemma log_only_same: "whist t = whist s \<Longrightarrow> disk t = disk s \<Longrightarrow> log_only s t"
  unfolding log_only_def by (intro exI [of _ "[]"]) simp

lemma log_only_trans:
  assumes "log_only s t" "log_only t u" "lstart t = lstart s"
  shows "log_only s u"
proof -
  from assms obtain us ws where "whist t = whist s @ us" "disk t = apply_writes us (disk s)"
    "list_all (\<lambda>(k, _). lstart s < k) us" "whist u = whist t @ ws" "disk u = apply_writes ws (disk t)"
    "list_all (\<lambda>(k, _). lstart s < k) ws" by (auto simp: log_only_def)
  then show ?thesis unfolding log_only_def by (intro exI [of _ "us @ ws"]) simp
qed

lemma blk_frame_trans: "blk_frame s t \<Longrightarrow> blk_frame t u \<Longrightarrow> blk_frame s u"
  unfolding blk_frame_def by (metis log_frame_sel(9) log_frame_trans log_only_trans)

lemma bio_blk_frame:
  "bio_frame s t \<Longrightarrow> whist t = whist s \<Longrightarrow> disk t = disk s \<Longrightarrow> blk_frame s t \<and> lstart t = lstart s"
  by (simp add: blk_frame_def bio_log_frame bio_frame_log(1,3) log_only_same)

lemma blk_okE:
  assumes "blk_ok s W H D U"
  obtains V where "log_ok s V H U" "agree (lstart s) V W" "D = set (lh_list s)"
  using assms by (auto simp: blk_ok_def)

lemma blk_okI: "log_ok s V H U \<Longrightarrow> lstart s = st \<Longrightarrow> agree st V W \<Longrightarrow> D = set (lh_list s) \<Longrightarrow> blk_ok s W H D U"
  by (auto simp: blk_ok_def)

lemma agree_upd: "agree st V W \<Longrightarrow> agree st (V(k := d)) (W(k := d))" "agree st V W \<Longrightarrow> st \<le> k \<Longrightarrow> agree st (V(k := d)) W"
  by (auto simp: agree_def)

lemma log_ok_held:
  assumes "log_ok s V H U" "H k = Some b"
  shows "k < lstart s"
  using assms by (metis log_inv_def log_ok_def not_less option.distinct(1))

lemma log_ok_D:
  assumes "log_ok s V H U"
  shows "int (card (set (lh_list s))) = lh_n s" "bio_ok s V H (set (lh_list s))" "log_geom s" "U \<subseteq> dom H"
proof -
  show "bio_ok s V H (set (lh_list s))" "log_geom s" "U \<subseteq> dom H" using assms by (auto simp: log_ok_def log_inv_def)
  then show "int (card (set (lh_list s))) = lh_n s"
    using log_geomD(1) [OF \<open>log_geom s\<close>] by (auto simp: log_geom_def distinct_card)
qed

interpretation lg: block_store "bread 1" buf_data set_buf_data log_write brelse blk_ok lstart log_budget lbusy blk_frame NBUF
proof unfold_locales
  fix s :: "'z log_st_scheme" and W H D U k
  assume a: "blk_ok s W H D U" "k < lstart s" "H k = None" "k \<in> D \<or> card (dom H \<union> D) < NBUF"
  from a(1) obtain V where V: "log_ok s V H U" "agree (lstart s) V W" "D = set (lh_list s)" by (rule blk_okE)
  show "wp (bread 1 k) (\<lambda>b t. blk_ok t W (H(k \<mapsto> b)) D U \<and> blk_frame s t) s"
    by (rule wp_mono [OF log_bread_law [OF V(1) a(2,3) a(4) [unfolded V(3)]]])
       (use V bio_blk_frame in \<open>fastforce intro: blk_okI\<close>)
next
  fix s :: "'z log_st_scheme" and W H D U k b
  assume a: "blk_ok s W H D U" "H k = Some b"
  from a(1) obtain V where V: "log_ok s V H U" "agree (lstart s) V W" "D = set (lh_list s)" by (rule blk_okE)
  note h = log_ok_held [OF V(1) a(2)]
  from h show "k < lstart s" .
  from V(2) h show "buf_data b s = W k" using bc.gt_ok [OF log_ok_D(2) [OF V(1)] a(2)] by (simp add: agree_def)
  show "wp (brelse b) (\<lambda>_ t. blk_ok t W (H(k := None)) D U \<and> blk_frame s t) s" if "k \<notin> U"
    by (rule wp_mono [OF log_brelse_law [OF V(1) a(2) that]])
       (use V bio_blk_frame in \<open>fastforce intro: blk_okI\<close>)
  show "blk_ok (set_buf_data b d s) (W(k := d)) H D (insert k U) \<and> blk_frame s (set_buf_data b d s)" if "length d = 512" for d
    using log_put_law [OF V(1) a(2) that] V(2,3) bio_blk_frame [OF bc.ptE(4,3,2) [OF log_ok_D(2) [OF V(1)] a(2) that]]
      log_geom_frame(2) [OF bc.ptE(4) [OF log_ok_D(2) [OF V(1)] a(2) that]]
    by (auto intro!: blk_okI [where st = "lstart s"] agree_upd(1))
  show "wp (log_write b) (\<lambda>_ t. blk_ok t W H (insert k D) (U - {k}) \<and> blk_frame s t) s"
    if q: "lbusy s" "card D < log_budget s" "card (dom H \<union> D) < NBUF"
  proof -
    have "lh_n s < lsize s - 1" using q(2) log_ok_D(1) [OF V(1)] V(3) by (simp add: log_budget_def)
    from log_write_law [OF V(1) a(2) q(1) this q(3) [unfolded V(3)]] show ?thesis
    proof (rule wp_mono, elim conjE, intro conjI)
      let ?kL = "lstart s + of_nat (log_slot k (lh_list s)) + 1"
      fix x t assume t: "log_ok t (V(?kL := V k)) H (U - {k})" "set (lh_list t) = insert k (set (lh_list s))"
        "lstart s < ?kL" "disk t = (disk s)(?kL := V k)" "whist t = whist s @ [(?kL, V k)]" "lbusy t" "log_frame s t"
      show "blk_ok t W H (insert k D) (U - {k})"
        using V(3) agree_upd(2) [OF V(2) order_less_imp_le [OF t(3)]] t(2) log_frame_sel(9) [OF t(7)]
        by (auto intro!: blk_okI [OF t(1)])
      show "blk_frame s t" using t q(1) by (auto simp: blk_frame_def log_only_def)
    qed
  qed
next
  fix s :: "'z log_st_scheme" and W H D U
  assume "blk_ok s W H D U"
  then obtain V where V: "log_ok s V H U" "agree (lstart s) V W" by (rule blk_okE)
  from log_ok_D(4) [OF V(1)] show "U \<subseteq> dom H" .
  show "length (W k) = 512" if "k < lstart s" for k
    using bc.view_len [OF log_ok_D(2) [OF V(1)]] log_geomD(6) [OF log_ok_D(3) [OF V(1)] that] V(2) that
    by (metis agree_def)
next
  fix s t u :: "'z log_st_scheme"
  assume "blk_frame s t" "blk_frame t u"
  then show "blk_frame s u" by (rule blk_frame_trans)
qed (auto simp: blk_frame_def log_budget_def log_frame_sel log_only_same)

section \<open>Transactions\<close>

text \<open>A block update the way \<^verbatim>\<open>fs.c\<close> makes it, and a system call that makes several of them.\<close>

definition txn_update :: "uint \<times> (byte list \<Rightarrow> byte list) \<Rightarrow> (unit, 'z log_st_scheme) kern" where
  "txn_update = (\<lambda>(k, f). bindK (bread 1 k) (\<lambda>b.
     seqK (modK (\<lambda>s. set_buf_data b (f (buf_data b s)) s)) (seqK (log_write b) (brelse b))))"

definition transaction :: "(uint \<times> (byte list \<Rightarrow> byte list)) list \<Rightarrow> (unit, 'z log_st_scheme) kern" where
  "transaction ups = seqK begin_trans (seqK (forK ups txn_update) commit_trans)"

definition apply_ups :: "(uint \<times> (byte list \<Rightarrow> byte list)) list \<Rightarrow> dimg \<Rightarrow> dimg" where
  "apply_ups = fold (\<lambda>(k, f) W. W(k := f (W k)))"

definition ups_ok :: "uint \<Rightarrow> (uint \<times> (byte list \<Rightarrow> byte list)) list \<Rightarrow> bool" where
  "ups_ok st = list_all (\<lambda>(k, f). k < st \<and> (\<forall>d. length d = 512 \<longrightarrow> length (f d) = 512))"

lemma txn_body:
  assumes "blk_ok s W Map.empty D {}" "lbusy s" "ups_ok (lstart s) ups" "card D + length ups \<le> log_budget s"
  shows "wp (forK ups txn_update) (\<lambda>_ t. \<exists>D'. blk_ok t (apply_ups ups W) Map.empty D' {} \<and> blk_frame s t) s"
  using assms
proof (induction ups arbitrary: s W D)
  case Nil
  then show ?case by (auto simp: wp_def kdefs apply_ups_def lg.frame_refl)
next
  case (Cons u ups)
  obtain k f where u: "u = (k, f)" by (cases u)
  have k: "k < lstart s" "length (f (W k)) = 512"
    using Cons.prems lg.blk_len [OF Cons.prems(1)] by (auto simp: ups_ok_def u)
  have "log_budget s < NBUF"
    using Cons.prems(1) by (auto elim!: blk_okE dest!: log_ok_D(3) simp: log_geom_def log_budget_def NBUF_def LOGSIZE_def)
  then have c: "card D < log_budget s" "card (insert k D) < NBUF"
    using Cons.prems(4) card_insert_le_m1 [of "Suc (card D)" D k] by (auto simp: le_less_trans)
  obtain t where t: "txn_update u s = Ok () t" "blk_ok t (W(k := f (W k))) Map.empty (insert k D) {}" "blk_frame s t"
    using lg.modify_block [OF Cons.prems(1) k(1) _ Cons.prems(2) c(1), of f] c(2) k(2)
    by (auto simp: txn_update_def u wp_returns)
  note f = lg.frame_same [OF t(3)]
  have "card (insert k D) \<le> Suc (card D)" by (rule card_insert_le_m1) simp_all
  then have "wp (forK ups txn_update) (\<lambda>_ v. \<exists>D'. blk_ok v (apply_ups ups (W(k := f (W k)))) Map.empty D' {} \<and> blk_frame t v) t"
    using Cons.prems f by (intro Cons.IH [OF t(2)]) (auto simp: ups_ok_def)
  with t(1) blk_frame_trans [OF t(3)] show ?case
    by (auto simp: wp_returns run_Ok apply_ups_def u)
qed

lemma apply_writes_above:
  "list_all (\<lambda>(k, _). st < k) us \<Longrightarrow> j \<le> st \<Longrightarrow> apply_writes us d j = d j"
  by (intro apply_writes_other) (auto simp: list_all_iff)

lemma atomic_append:
  assumes us: "list_all (\<lambda>(k, _). st < k) us" and hd: "get32 0 (d st) = 0"
    and at: "atomic_writes st m (apply_writes us d) ws (apply_writes us d) new"
  shows "atomic_writes st m d (us @ ws) d new"
  unfolding atomic_writes_def
proof
  fix i
  show "head_ok st m (apply_writes (take i (us @ ws)) d) \<and> (agree st (recovered st (apply_writes (take i (us @ ws)) d)) d
      \<or> agree st (recovered st (apply_writes (take i (us @ ws)) d)) new)"
  proof (cases "i \<le> length us")
    case True
    have us': "list_all (\<lambda>(k, _). st < k) (take i us)" using us by (auto simp: list_all_iff dest: in_set_takeD)
    then have "recovered st (apply_writes (take i us) d) = apply_writes (take i us) d"
      using hd by (intro recovered_clean) (simp add: apply_writes_above [OF us'])
    with True hd show ?thesis using apply_writes_above [OF us'] by (simp add: agree_def head_ok_clean)
  next
    case False
    then have "take i (us @ ws) = us @ take (i - length us) ws" by simp
    moreover have "agree st (apply_writes us d) d" using apply_writes_above [OF us] by (simp add: agree_def)
    ultimately show ?thesis using at [unfolded atomic_writes_def, rule_format, of "i - length us"] agree_trans by auto
  qed
qed

lemma blk_ok_begin:
  assumes "log_ok s V Map.empty {}"
  shows "blk_ok (s\<lparr>lbusy := True\<rparr>) V Map.empty (set (lh_list s)) {}"
proof -
  have l: "lh_list (s\<lparr>lbusy := True\<rparr>) = lh_list s" by (simp add: lh_list_def)
  have "log_ok (s\<lparr>lbusy := True\<rparr>) V Map.empty {}"
    using assms by (auto simp: log_ok_def log_inv_def log_geom_def l free_lock_def)
  then show ?thesis by (rule blk_okI) (simp_all add: l)
qed

lemma transaction_law:
  assumes "log_ok s V Map.empty {}" "\<not> lbusy s" "ups_ok (lstart s) ups" "length ups \<le> log_budget s"
  shows "wp (transaction ups) (\<lambda>_ t. \<exists>V' ws. log_ok t V' Map.empty {} \<and> \<not> lbusy t
     \<and> agree (lstart s) V' (apply_ups ups V) \<and> agree (lstart s) (disk t) (apply_ups ups V) \<and> log_frame s t
     \<and> whist t = whist s @ ws \<and> disk t = apply_writes ws (disk s)
     \<and> atomic_writes (lstart s) (log_budget s) (disk s) ws (disk s) (apply_ups ups V)) s"
proof -
  let ?st = "lstart s" and ?b = "s\<lparr>lbusy := True\<rparr>"
  have inv: "log_inv s V Map.empty {}" "free_lock L_log s" "settled s"
    using assms(1) by (auto simp: log_ok_def bio_ok_def bio_ready_def)
  then have n0: "lh_n s = 0" "get32 0 (disk s ?st) = 0" using assms(2) by (auto simp: log_inv_def)
  then have "lh_list s = []" by (simp add: lh_list_def)
  then have "blk_ok ?b V Map.empty {} {}" using blk_ok_begin [OF assms(1)] by simp
  then obtain t D where t: "forK ups txn_update ?b = Ok () t" "blk_ok t (apply_ups ups V) Map.empty D {}" "blk_frame ?b t"
    using txn_body [of ?b V "{}" ups] assms(3,4) by (auto simp: wp_returns log_budget_def)
  from t(3) have ft: "log_frame ?b t" "log_only ?b t" by (auto simp: blk_frame_def)
  have fs: "log_frame s t" using log_frame_trans [OF log_frame_upd(3) ft(1)] .
  have st: "lstart t = ?st" using log_frame_sel(9) [OF fs] .
  from ft(2) obtain us where us: "whist t = whist s @ us" "disk t = apply_writes us (disk s)" "list_all (\<lambda>(k, _). ?st < k) us"
    by (auto simp: log_only_def)
  from t(2) obtain W where W: "log_ok t W Map.empty {}" "agree ?st W (apply_ups ups V)" unfolding st [symmetric] by (rule blk_okE)
  obtain u V' ws where u: "commit_trans t = Ok () u" "log_ok u V' Map.empty {}" "agree ?st V' W" "agree ?st (disk u) W"
    "\<not> lbusy u" "log_frame t u" "whist u = whist t @ ws" "disk u = apply_writes ws (disk t)"
    "atomic_writes ?st (log_budget s) (disk t) ws (disk t) W"
    using commit_law [OF W(1)] log_frame_sel [OF fs] unfolding st by (auto simp: wp_returns log_budget_def)
  have "atomic_writes ?st (log_budget s) (disk s) (us @ ws) (disk s) (apply_ups ups V)"
    using atomic_append [of ?st us "disk s" "log_budget s" ws] us n0(2) atomic_agree [OF u(9) W(2)] by simp
  moreover have "log_frame s u" using fs u(6) by (rule log_frame_trans)
  moreover have "whist u = whist s @ (us @ ws)" "disk u = apply_writes (us @ ws) (disk s)" using u(7,8) us by simp_all
  moreover have "transaction ups s = Ok () u"
    using begin_trans_eq [OF inv(3,2) assms(2)] t(1) u(1) by (simp add: transaction_def run_Ok)
  ultimately show ?thesis using u(2,3,4,5) agree_trans [OF _ W(2)] unfolding wp_returns by blast
qed

section \<open>Recovery\<close>

lemma bio_ok_disk: "bio_ok s V Map.empty {} \<Longrightarrow> V = disk s"
  using bc.view_clean [of s V Map.empty "{}"] by auto

lemma recover_loop:
  assumes ok: "bio_ok s (disk s) Map.empty {}" and g: "log_geom s" and m: "m \<le> length (lh_list s)"
  shows "wp (forK [0..<m] install_one) (\<lambda>_ t. bio_ok t (disk t) Map.empty {}
    \<and> disk t = installed (disk s) (lstart s) (take m (lh_list s))
    \<and> whist t = whist s @ install_writes (disk s) (lstart s) (take m (lh_list s)) \<and> bio_frame s t) s"
  using m
proof (induction m)
  case 0
  then show ?case using ok by (simp add: wp_def kdefs install_writes_def) (simp add: installed_def fun_eq_iff)
next
  case (Suc m)
  let ?xs = "lh_list s" and ?st = "lstart s" and ?d = "disk s"
  let ?a = "?st + of_nat m + 1" and ?c = "?xs ! m"
  note gd = log_geomD [OF g]
  from Suc.prems have mm: "m < length ?xs" by simp
  with gd g have ml: "m < LOGSIZE" "m < nat (lsize s - 1)" by (auto simp: log_geom_def)
  have sx: "slots_ok ?st (length ?xs)" using g gd(1,3) by (auto simp: slots_ok_def log_geom_def)
  have dist: "distinct ?xs" "\<forall>x \<in> set ?xs. x < ?st" using g by (auto simp: log_geom_def)
  obtain t where t: "forK [0..<m] install_one s = Ok () t" "bio_ok t (disk t) Map.empty {}"
    "disk t = installed ?d ?st (take m ?xs)" "whist t = whist s @ install_writes ?d ?st (take m ?xs)" "bio_frame s t"
    using Suc.IH mm by (auto simp: wp_returns)
  note f = bio_frame_log [OF t(5)] bio_frame_mach [OF t(5)]
  have c: "lh_sector t ! m = ?c" "?c < ?st"
    using f mm dist(2) nth_mem [OF mm] by (simp add: lh_list_def) (rule bspec [OF dist(2) nth_mem [OF mm]])
  have above: "?st < ?a" using slot_above [OF sx mm] .
  have adisk: "disk t ?a = ?d ?a" unfolding t(3)
    using dist(2) above by (intro installed_above) (auto dest: in_set_takeD)
  have "wp (install_one m) (\<lambda>_ u. bio_ok u ((disk t)(?c := disk t ?a)) Map.empty ({} - {?c})
      \<and> disk u = (disk t)(?c := disk t ?a) \<and> whist u = whist t @ [(?c, disk t ?a)] \<and> bio_frame t u) t"
    using install_one_law [OF t(2), of m] f g ml gd(4) [OF ml(2)] gd(6) [OF c(2)] above c
    by (auto simp: log_geom_def NBUF_def)
  then obtain u where u: "install_one m t = Ok () u" "bio_ok u (disk u) Map.empty {}"
    "disk u = (disk t)(?c := ?d ?a)" "whist u = whist t @ [(?c, ?d ?a)]" "bio_frame t u"
    by (auto simp: wp_returns adisk)
  moreover have "install_writes ?d ?st (take (Suc m) ?xs) = install_writes ?d ?st (take m ?xs) @ [(?c, ?d ?a)]"
    using mm by (auto simp: install_writes_def min_absorb2)
  moreover note installed_Suc [OF mm dist sx, of ?d]
  ultimately show ?case using t bio_frame_trans [OF t(5) u(5)] by (simp add: wp_def forK_append kdefs)
qed

lemma read_head_loop:
  assumes "m \<le> LOGSIZE" "length (lh_sector s) = LOGSIZE"
  shows "forK [0..<m] (\<lambda>i. set_sector i (get32 (4 + 4 * i) h)) s
     = Ok () (s\<lparr>lh_sector := get_words 4 m h @ drop m (lh_sector s)\<rparr>)"
  using assms(1)
proof (induction m)
  case 0
  then show ?case by (simp add: kdefs get_words_def)
next
  case (Suc m)
  with assms(2) have "drop m (lh_sector s) = lh_sector s ! m # drop (Suc m) (lh_sector s)"
    by (simp add: Cons_nth_drop_Suc)
  with Suc assms(2) show ?case by (simp add: forK_append kdefs set_sector_def list_update_append get_words_def)
qed

lemma read_head_law:
  assumes ok: "bio_ok s (disk s) Map.empty {}" and "ldev s = 1" "lstart s < disksize s" "length (lh_sector s) = LOGSIZE"
    and n: "length (head_sectors (disk s (lstart s))) \<le> LOGSIZE"
  shows "wp read_head (\<lambda>_ t. bio_ok t (disk t) Map.empty {} \<and> disk t = disk s \<and> whist t = whist s
    \<and> nat (lh_n t) = length (head_sectors (disk s (lstart s))) \<and> lh_n t = sint (get32 0 (disk s (lstart s)))
    \<and> lh_list t = head_sectors (disk s (lstart s)) \<and> length (lh_sector t) = LOGSIZE
    \<and> lbusy t = lbusy s \<and> log_frame s t) s"
proof -
  let ?st = "lstart s" and ?h = "disk s (lstart s)"
  let ?m = "nat (sint (get32 0 ?h))"
  have m: "length (head_sectors ?h) = ?m" "?m \<le> LOGSIZE" using n by (simp_all add: head_sectors_def)
  obtain b t where t: "bread 1 ?st s = Ok b t" "bio_ok t (disk s) (Map.empty(?st \<mapsto> b)) {}" "disk t = disk s"
    "whist t = whist s" "bio_frame s t" "buf_data b t = ?h"
    using bc.rdE [OF ok assms(3), of thesis] by (simp add: NBUF_def)
  note f = bio_frame_log [OF t(5)]
  let ?u = "t\<lparr>lh_n := sint (get32 0 ?h), lh_sector := get_words 4 ?m ?h @ drop ?m (lh_sector s)\<rparr>"
  have u: "bio_ok ?u (disk s) (Map.empty(?st \<mapsto> b)) {}" using t(2) by simp
  obtain v where v: "brelse b ?u = Ok () v" "bio_ok v (disk s) (Map.empty(?st \<mapsto> b, ?st := None)) {}" "disk v = disk ?u"
    "whist v = whist ?u" "bio_frame ?u v" using bc.relE [OF u, of ?st b thesis] t(3) by simp
  note fv = bio_frame_log [OF v(5)]
  have e: "Map.empty(?st \<mapsto> b, ?st := None) = Map.empty" by auto
  have loop: "forK [0..<?m] (\<lambda>i. set_sector i (get32 (4 + 4 * i) ?h)) (t\<lparr>lh_n := sint (get32 0 ?h)\<rparr>) = Ok () ?u"
    using read_head_loop [of ?m "t\<lparr>lh_n := sint (get32 0 ?h)\<rparr>" ?h] m(2) f assms(4) by simp
  have "log_frame s v"
    using log_frame_trans [OF bio_log_frame [OF t(5)] log_frame_trans [OF log_frame_upd(1) log_frame_trans [OF log_frame_upd(2)
      bio_log_frame [OF v(5)]]]] .
  moreover have "read_head s = Ok () v" using t v loop assms(2) by (simp add: read_head_def run_steps run_Ok)
  moreover have "lh_list v = head_sectors ?h" using fv by (simp add: lh_list_def head_sectors_def)
  ultimately show ?thesis using v t(3,4) fv f m assms(4) by (simp add: wp_def e)
qed

lemma recover_law:
  assumes ok: "bio_ok s (disk s) Map.empty {}" and "ldev s = 1" "2 \<le> lsize s" "lsize s \<le> int LOGSIZE"
    and "unat (lstart s) + nat (lsize s) \<le> unat (disksize s)" "length (lh_sector s) = LOGSIZE" "free_lock L_log s"
    and "head_ok (lstart s) (log_budget s) (disk s)"
  shows "wp recover_from_log (\<lambda>_ t. \<exists>ws. log_ok t (disk t) Map.empty {}
    \<and> agree (lstart s) (disk t) (recovered (lstart s) (disk s)) \<and> lbusy t = lbusy s \<and> log_frame s t
    \<and> whist t = whist s @ ws \<and> disk t = apply_writes ws (disk s)
    \<and> atomic_writes (lstart s) (log_budget s) (disk s) ws (recovered (lstart s) (disk s)) (recovered (lstart s) (disk s))) s"
proof -
  let ?st = "lstart s" and ?d = "disk s" and ?xs = "head_sectors (disk s (lstart s))"
  let ?h0 = "enc_head [] (?d ?st)"
  have hd: "0 \<le> sint (get32 0 (?d ?st))" "length ?xs \<le> log_budget s" and xs: "distinct ?xs" "\<forall>x \<in> set ?xs. x < ?st"
    using assms(8) by (auto simp: head_ok_def)
  have n: "length ?xs \<le> LOGSIZE" "length ?xs = nat (sint (get32 0 (?d ?st)))"
    using hd assms(4) by (simp_all add: head_sectors_def log_budget_def)
  have stl: "?st < disksize s" using assms(3,5) by (simp add: word_less_nat_alt)
  have hl: "length (?d ?st) = 512" using bc.view_len [OF ok stl] by simp
  obtain t where t: "read_head s = Ok () t" "bio_ok t (disk t) Map.empty {}" "disk t = ?d" "whist t = whist s"
    "lh_n t = sint (get32 0 (?d ?st))" "lh_list t = ?xs" "length (lh_sector t) = LOGSIZE" "lbusy t = lbusy s" "log_frame s t"
    using read_head_law [OF ok assms(2) stl assms(6) n(1)] by (auto simp: wp_returns)
  note f = log_frame_sel [OF t(9)]
  have g: "log_geom t" using f assms(2-5) hd n(2) xs t(5-7) by (auto simp: log_geom_def log_budget_def)
  have sx: "slots_ok ?st (length ?xs)"
    using assms(3,5) hd n(2) unat_lt_exp [of "disksize s"] by (simp add: slots_ok_def log_budget_def)
  obtain u where u: "install_trans t = Ok () u" "bio_ok u (disk u) Map.empty {}" "disk u = installed ?d ?st ?xs"
    "whist u = whist s @ install_writes ?d ?st ?xs" "bio_frame t u"
    using recover_loop [OF t(2) g order_refl] log_geomD(1) [OF g] f t(3,4,6)
    by (auto simp: wp_returns install_trans_def run_steps)
  note fu = bio_frame_log [OF u(5)] bio_frame_mach [OF u(5)]
  let ?u = "u\<lparr>lh_n := 0\<rparr>"
  have ust: "disk u ?st = ?d ?st" unfolding u(3) using xs(2) by (rule installed_above) simp
  have "wp write_head (\<lambda>_ v. bio_ok v ((disk u)(?st := ?h0)) Map.empty ({} - {?st}) \<and> disk v = (disk u)(?st := ?h0)
      \<and> whist v = whist u @ [(?st, ?h0)] \<and> bio_frame ?u v) ?u"
    using write_head_law [of ?u "disk u" Map.empty "{}"] u(2) fu f assms(2) stl t(7) ust by (simp add: NBUF_def)
  then obtain v where v: "write_head ?u = Ok () v" "bio_ok v (disk v) Map.empty {}" "disk v = (disk u)(?st := ?h0)"
    "whist v = whist u @ [(?st, ?h0)]" "bio_frame ?u v" by (auto simp: wp_returns)
  note fv = bio_frame_log [OF v(5)] bio_frame_mach [OF v(5)]
  let ?ws = "install_writes ?d ?st ?xs @ [(?st, ?h0)]"
  have h0: "get32 0 ?h0 = 0" using hl by (simp add: enc_head_def)
  have "free_lock L_log ?u" using assms(7) f fu by (simp add: free_lock_def)
  then have "log_ok v (disk v) Map.empty {}"
    by (intro log_ok_empty) (use v(2,3) fv fu f assms(2-7) h0 t(7) in simp_all)
  moreover have "disk v = apply_writes ?ws ?d" using apply_install_writes [OF xs sx, of ?d "length ?xs"] u(3) v(3) by simp
  moreover have "log_frame s v"
    using log_frame_trans [OF t(9) log_frame_trans [OF bio_log_frame [OF u(5)] log_frame_trans [OF log_frame_upd(1) bio_log_frame [OF v(5)]]]] .
  moreover have "recover_from_log s = Ok () v" using t(1) u(1) v(1) by (simp add: recover_from_log_def run_Ok run_steps)
  moreover have "agree ?st (disk v) (recovered ?st ?d)" using u(3) v(3) by (auto simp: agree_def recovered_def)
  moreover have "atomic_writes ?st (log_budget s) ?d ?ws (recovered ?st ?d) (recovered ?st ?d)"
    unfolding atomic_writes_def
    using install_atomic [where e = ?d, OF xs sx refl hl hd(1)] head_ok_mono [OF _ hd(2)] by (simp only: recovered_def) blast
  ultimately show ?thesis using u(4) v(4) fv fu t(8) unfolding wp_returns by auto
qed

text \<open>
  What \<^verbatim>\<open>initlog\<close> needs of a freshly booted machine: an empty, clean buffer cache and a superblock that
  puts a log of 2 to \<^verbatim>\<open>LOGSIZE\<close> sectors inside the disk.
\<close>

definition mountable :: "'z log_st_scheme \<Rightarrow> uint \<Rightarrow> int \<Rightarrow> bool" where
  "mountable s st n \<longleftrightarrow> bio_ok s (disk s) Map.empty {} \<and> \<not> lbusy s \<and> length (lh_sector s) = LOGSIZE
     \<and> 1 < disksize s \<and> sb_size (sb_of (disk s 1)) - sb_nlog (sb_of (disk s 1)) = st \<and> sint (sb_nlog (sb_of (disk s 1))) = n
     \<and> 2 \<le> n \<and> n \<le> int LOGSIZE \<and> unat st + nat n \<le> unat (disksize s)"

lemma bio_ok_initlock:
  assumes "bio_ok s V H D" "l \<noteq> L_bcache" "l \<noteq> L_ptable"
  shows "bio_ok (s\<lparr>locks := (locks s)(l := \<lparr>locked = 0, lname = n, lcpu = None\<rparr>)\<rparr>) V H D"
  using assms by (simp add: bio_ok_def bio_ready_def bio_rep_def bio_inv_def caches_def settled_def mach_ok_def free_lock_def)

lemma initlog_law:
  assumes "mountable s st n" and hd: "head_ok st (nat (n - 1)) (disk s)"
  shows "wp initlog (\<lambda>_ t. \<exists>ws. log_ok t (disk t) Map.empty {} \<and> \<not> lbusy t \<and> lstart t = st \<and> lsize t = n
    \<and> agree st (disk t) (recovered st (disk s)) \<and> whist t = whist s @ ws \<and> disk t = apply_writes ws (disk s)
    \<and> atomic_writes st (nat (n - 1)) (disk s) ws (recovered st (disk s)) (recovered st (disk s))) s"
proof -
  let ?s = "s\<lparr>locks := (locks s)(L_log := \<lparr>locked = 0, lname = ''log'', lcpu = None\<rparr>)\<rparr>"
  note m = assms(1) [unfolded mountable_def] hd
  have ok: "bio_ok ?s (disk s) Map.empty {}" using m by (intro bio_ok_initlock) auto
  obtain b t where t: "bread 1 1 ?s = Ok b t" "bio_ok t (disk s) (Map.empty(1 \<mapsto> b)) {}" "disk t = disk s" "whist t = whist s"
    "bio_frame ?s t" "buf_data b t = disk s 1" using bc.rdE [OF ok, of 1 thesis] m by (simp add: NBUF_def)
  obtain u where u: "brelse b t = Ok () u" "bio_ok u (disk s) (Map.empty(1 \<mapsto> b, 1 := None)) {}" "disk u = disk t"
    "whist u = whist t" "bio_frame t u" using bc.relE [OF t(2), of 1 b thesis] t(3) by simp
  have e: "Map.empty(1 \<mapsto> b, 1 := None) = Map.empty" by auto
  note f = bio_frame_log [OF t(5)] bio_frame_mach [OF t(5)] bio_frame_log [OF u(5)] bio_frame_mach [OF u(5)]
  let ?u = "u\<lparr>lstart := st, lsize := n, ldev := 1\<rparr>"
  have "readsb 1 ?s = Ok (sb_of (disk s 1)) u" using t u by (simp add: readsb_def run_steps run_Ok ret_def)
  then have run: "initlog s = recover_from_log ?u"
    using m by (simp add: initlog_def initlock_def run_steps run_Ok LOGSIZE_def)
  have "free_lock L_log ?u" using f by (simp add: free_lock_def)
  with m f t(3) u(2,3) have "wp recover_from_log (\<lambda>_ t. \<exists>ws. log_ok t (disk t) Map.empty {}
    \<and> agree st (disk t) (recovered st (disk s)) \<and> lbusy t = lbusy s \<and> log_frame ?u t
    \<and> whist t = whist u @ ws \<and> disk t = apply_writes ws (disk s)
    \<and> atomic_writes st (nat (n - 1)) (disk s) ws (recovered st (disk s)) (recovered st (disk s))) ?u"
    using recover_law [of ?u] by (simp add: e log_budget_def)
  then show ?thesis using m t(4) u(4) log_frame_sel(9,10) [of ?u] unfolding wp_def run
    by (auto split: res.splits)
qed

section \<open>Waiting for the log\<close>

text \<open>
  \<^verbatim>\<open>begin_trans\<close> waits on \<^verbatim>\<open>&log\<close> until the log is free. Taking the log (what \<open>begin_loop\<close> does
  when it returns) cannot make it free, and \<^verbatim>\<open>end_trans\<close> wakes the waiters after it has freed the log.
\<close>

definition log_free :: "log_st \<Rightarrow> bool" where
  "log_free s \<longleftrightarrow> \<not> lbusy s"

definition log_taken :: "log_st \<Rightarrow> log_st \<Rightarrow> bool" where
  "log_taken s t \<longleftrightarrow> wp begin_loop (\<lambda>_ u. t = u) s"

definition log_freed :: "log_st \<Rightarrow> log_st \<Rightarrow> bool" where
  "log_freed s t \<longleftrightarrow> t = s\<lparr>lbusy := False\<rparr>"

lemma sleep_never_returns: "sleep c (Some l) s \<noteq> Ok a t"
  by (simp add: sleep_def sched_def kdefs split: option.splits res.splits)

interpretation lgm: monitor log_free log_freed log_taken ChLog
proof unfold_locales
  fix d d'
  assume "log_taken d d'"
  then show "log_free d"
    by (cases "lbusy d") (auto simp: log_taken_def log_free_def begin_loop_def wp_returns run_steps sleep_never_returns)
qed

section \<open>Properties\<close>

text \<open>
  A machine with an initialised cache over a disk with a log of ten sectors at 1014, sector 1 the superblock.
\<close>

definition log_boot :: log_st where
  "log_boot = bio_st.extend
     (bio_boot\<lparr>disk := \<lambda>k. if k = 1 then put_words 0 [1024, 985, 200, 10] (replicate 512 0)
                          else if k = 1014 then replicate 512 0 else replicate 512 (ucast k)\<rparr>)
     (log_st.fields 1014 10 False 1 0 (replicate LOGSIZE 0))"

text \<open>A machine before \<^verbatim>\<open>binit\<close> boots with any disk that has this superblock and an empty log.\<close>

definition log_fresh :: "'z log_st_scheme \<Rightarrow> bool" where
  "log_fresh s \<longleftrightarrow> idle s \<and> (\<forall>i < NBUF. flags (bcache s i) = {}) \<and> disksize s = 1024 \<and> lstart s = 1014 \<and> lsize s = 10
     \<and> \<not> lbusy s \<and> ldev s = 1 \<and> lh_n s = 0 \<and> length (lh_sector s) = LOGSIZE"

lemma log_boot_disk:
  fixes s :: "'z log_st_scheme"
  assumes "log_fresh s" "disk s 1 = put_words 0 [1024, 985, 200, 10] (replicate 512 0)" "disk s 1014 = replicate 512 0"
    "\<forall>k < 1024. length (disk s k) = 512"
  obtains t where "binit s = Ok () t" "mountable t 1014 10" "log_ok t (disk t) Map.empty {}" "\<exists>c l. t = s\<lparr>bcache := c, locks := l\<rparr>" "\<not> lbusy t"
    "lstart t = 1014" "lsize t = 10" "disk t = disk s" "sb_of (disk s 1) = \<lparr>sb_size = 1024, sb_nblocks = 985, sb_ninodes = 200, sb_nlog = 10\<rparr>"
    "idle t" "lh_list t = []"
proof -
  have "\<forall>i < NBUF. flags (bcache s i) = {}" "\<forall>k < disksize s. length (disk s k) = 512"
    using assms by (simp_all add: log_fresh_def)
  from binit_rep [OF this] obtain t where t: "binit s = Ok () t" "bio_rep t (disk s) Map.empty {}"
    by (auto simp: wp_returns)
  then have b: "bio_ready t" "free_lock L_log t" "disksize t = 1024" "disk t = disk s" "lstart t = 1014" "lsize t = 10"
    "\<not> lbusy t" "ldev t = 1" "lh_n t = 0" "length (lh_sector t) = LOGSIZE" "idle t" "\<exists>c l. t = s\<lparr>bcache := c, locks := l\<rparr>"
    using assms(1)
    by (auto simp: log_fresh_def binit_eq bio_ready_def settled_def mach_ok_def free_lock_def idle_def upd_bcache_def)
  have ok: "bio_ok t (disk t) Map.empty {}" using t(2) b(1,4) by (simp add: bio_ok_def)
  have z: "get32 0 (disk t 1014) = 0" using assms(3) b(4) by (simp add: get32_def slice_def eval_nat_numeral)
  have sb: "sb_of (disk s 1) = \<lparr>sb_size = 1024, sb_nblocks = 985, sb_ninodes = 200, sb_nlog = 10\<rparr>"
    unfolding assms(2) by (simp add: sb_of_def get_put_other)
  have "log_ok t (disk t) Map.empty {}" using ok b z by (intro log_ok_empty) (simp_all add: LOGSIZE_def)
  moreover have "mountable t 1014 10" using ok b sb by (simp add: mountable_def LOGSIZE_def)
  ultimately show thesis using that t(1) b sb by (simp add: lh_list_def)
qed

lemma log_boot_ok:
  obtains t where "binit log_boot = Ok () t" "mountable t 1014 10" "log_ok t (disk t) Map.empty {}" "\<not> lbusy t"
    "lstart t = 1014" "lsize t = 10" "\<forall>k. k \<noteq> 1 \<longrightarrow> k \<noteq> 1014 \<longrightarrow> disk t k = replicate 512 (ucast k)"
proof -
  have d: "log_fresh log_boot" "disk log_boot 1 = put_words 0 [1024, 985, 200, 10] (replicate 512 0)" "disk log_boot 1014 = replicate 512 0"
    "\<forall>k < 1024. length (disk log_boot k) = 512" "\<forall>k. k \<noteq> 1 \<longrightarrow> k \<noteq> 1014 \<longrightarrow> disk log_boot k = replicate 512 (ucast k)"
    by (simp_all add: log_fresh_def idle_def free_lock_def log_boot_def bio_boot_def bio_st.defs log_st.defs)
  from log_boot_disk [OF d(1-4)] show thesis using that d(5) by metis
qed

text \<open>
  C12. Transactions are atomic across crashes. From a state with a free, empty log, a transaction that
  updates at most as many blocks as the log holds runs to its end without a panic and leaves
  exactly its updates on the disk below the log. If the machine stops after any prefix of the
  transaction's sector writes, \<^verbatim>\<open>initlog\<close> on the rebooted machine returns with the log empty and
  the disk either as it was before the transaction or as it is after it, never in between.
\<close>

theorem transaction_crash_atomic:
  fixes s :: "'z log_st_scheme"
  assumes "log_ok s V Map.empty {}" and "\<not> lbusy s" and "ups_ok (lstart s) ups" and "length ups \<le> log_budget s"
  shows "wp (transaction ups) (\<lambda>_ t. agree (lstart s) (disk t) (apply_ups ups V) \<and> \<not> lbusy t
     \<and> (\<exists>ws. whist t = whist s @ ws
        \<and> (\<forall>i (r :: 'z log_st_scheme). mountable (r\<lparr>disk := apply_writes (take i ws) (disk s)\<rparr>) (lstart s) (lsize s) \<longrightarrow>
             wp initlog (\<lambda>_ u. log_ok u (disk u) Map.empty {} \<and> lh_n u = 0
                \<and> (agree (lstart s) (disk u) (disk s) \<or> agree (lstart s) (disk u) (apply_ups ups V)))
               (r\<lparr>disk := apply_writes (take i ws) (disk s)\<rparr>)))) s"
proof -
  obtain t V' ws where t: "transaction ups s = Ok () t" "\<not> lbusy t" "agree (lstart s) (disk t) (apply_ups ups V)" "whist t = whist s @ ws"
    "atomic_writes (lstart s) (log_budget s) (disk s) ws (disk s) (apply_ups ups V)"
    using transaction_law [OF assms] by (auto simp: wp_returns)
  have "wp initlog (\<lambda>_ u. log_ok u (disk u) Map.empty {} \<and> lh_n u = 0
        \<and> (agree (lstart s) (disk u) (disk s) \<or> agree (lstart s) (disk u) (apply_ups ups V))) r"
    if "mountable r (lstart s) (lsize s)" "disk r = apply_writes (take i ws) (disk s)" for i and r :: "'z log_st_scheme"
  proof -
    have h: "head_ok (lstart s) (nat (lsize s - 1)) (disk r)"
      and a: "agree (lstart s) (recovered (lstart s) (disk r)) (disk s) \<or> agree (lstart s) (recovered (lstart s) (disk r)) (apply_ups ups V)"
      using t(5) that(2) unfolding atomic_writes_def log_budget_def by auto
    from initlog_law [OF that(1) h] show ?thesis
      by (rule wp_mono) (use a agree_trans in \<open>auto simp: log_ok_def log_inv_def\<close>)
  qed
  with t show ?thesis by (auto simp: wp_returns)
qed

theorem transaction_crash_atomic_witness:
  "\<exists>s. binit log_boot = Ok () s \<and> wp (transaction [(7, \<lambda>_. replicate 512 9)]) (\<lambda>_ t. disk t 7 = replicate 512 9
     \<and> wp initlog (\<lambda>_ u. disk u 7 \<in> {replicate 512 7, replicate 512 9}) s) s"
proof -
  obtain s where s: "binit log_boot = Ok () s" "mountable s 1014 10" "log_ok s (disk s) Map.empty {}" "\<not> lbusy s"
    "lstart s = 1014" "lsize s = 10" "\<forall>k. k \<noteq> 1 \<longrightarrow> k \<noteq> 1014 \<longrightarrow> disk s k = replicate 512 (ucast k)" by (rule log_boot_ok)
  let ?ups = "[(7, \<lambda>_ :: byte list. replicate 512 9)]"
  have "ups_ok (lstart s) ?ups" "length ?ups \<le> log_budget s" using s by (simp_all add: ups_ok_def log_budget_def)
  from transaction_crash_atomic [OF s(3,4) this] s(5,6) obtain t ws where t: "transaction ?ups s = Ok () t"
    "agree 1014 (disk t) (apply_ups ?ups (disk s))"
    "\<forall>i (r :: log_st). mountable (r\<lparr>disk := apply_writes (take i ws) (disk s)\<rparr>) 1014 10 \<longrightarrow>
       wp initlog (\<lambda>_ u. log_ok u (disk u) Map.empty {} \<and> lh_n u = 0 \<and> (agree 1014 (disk u) (disk s)
         \<or> agree 1014 (disk u) (apply_ups ?ups (disk s)))) (r\<lparr>disk := apply_writes (take i ws) (disk s)\<rparr>)"
    by (auto simp: wp_returns)
  have d: "disk s 7 = replicate 512 7" using s(7) by simp
  from t(3) [rule_format, of 0 s] s(2) have "wp initlog (\<lambda>_ u. agree 1014 (disk u) (disk s)
         \<or> agree 1014 (disk u) (apply_ups ?ups (disk s))) s" by (auto elim: wp_mono)
  then have "wp initlog (\<lambda>_ u. disk u 7 \<in> {replicate 512 7, replicate 512 9}) s"
    by (rule wp_mono) (auto simp: agree_def apply_ups_def d)
  then show ?thesis using s(1) t(1,2) by (auto simp: wp_returns agree_def apply_ups_def)
qed



end
