(* ===== verification/Devices.thy ===== *)
theory Devices
  imports Log
begin

text \<open>
  The device drivers below the console: port and memory-mapped I/O (\<^verbatim>\<open>include/x86.h\<close>), the two interrupt
  controllers (\<^verbatim>\<open>kernel/picirq.c\<close>, \<^verbatim>\<open>kernel/ioapic.c\<close>, \<^verbatim>\<open>kernel/lapic.c\<close>), the timer (\<^verbatim>\<open>kernel/timer.c\<close>), the
  serial port (\<^verbatim>\<open>kernel/uart.c\<close>) and the keyboard (\<^verbatim>\<open>kernel/kbd.c\<close>, \<^verbatim>\<open>include/kbd.h\<close>). What a device delivers is an
  arbitrary sequence of values per port, fixed with the state; what the kernel writes is recorded in
  \<open>io_out\<close>. Only the CRT controller, whose cursor registers the console reads back, is a register file.
\<close>

section \<open>State\<close>

datatype ioev = Outb ushort byte | Outsl ushort "byte list" | Mmio addr uint

text \<open>The fields of \<^verbatim>\<open>struct cpu\<close> that the drivers and the start-up code use.\<close>

record cpuinfo =
  cpu_id :: byte
  apicid :: byte
  started :: uint
  cpu_local :: addr

definition NCPU :: nat where
  "NCPU = 8"

record dev_st = log_st +
  io_in :: "ushort \<Rightarrow> nat \<Rightarrow> byte"
  io_cnt :: "ushort \<Rightarrow> nat"
  mm_in :: "addr \<Rightarrow> nat \<Rightarrow> uint"
  mm_cnt :: "addr \<Rightarrow> nat"
  io_out :: "ioev list"
  crtc_idx :: byte
  crtc_reg :: "byte \<Rightarrow> byte"
  irqmask :: ushort
  uart :: bool
  kbd_shift :: uint
  ioapic :: addr
  lapic :: addr
  cpus :: "cpuinfo list"
  bcpu :: nat
  ismp :: bool
  ncpu :: int
  ioapicid :: byte
  idtr :: "addr \<times> ushort"
  cpunum_n :: uint

section \<open>Port and memory-mapped I/O\<close>

definition CRTPORT :: ushort where
  "CRTPORT = 0x3d4"

definition inb :: "ushort \<Rightarrow> (byte, 'z dev_st_scheme) kern" where
  "inb port =
    (if port = CRTPORT + 1 then getK (\<lambda>s. crtc_reg s (crtc_idx s))
     else bindK (getK (\<lambda>s. io_in s port (io_cnt s port))) (\<lambda>b.
          seqK (modK (\<lambda>s. s\<lparr>io_cnt := (io_cnt s)(port := io_cnt s port + 1)\<rparr>)) (ret b)))"

definition outb :: "ushort \<Rightarrow> byte \<Rightarrow> (unit, 'z dev_st_scheme) kern" where
  "outb port b =
    (if port = CRTPORT then modK (\<lambda>s. s\<lparr>crtc_idx := b\<rparr>)
     else if port = CRTPORT + 1 then modK (\<lambda>s. s\<lparr>crtc_reg := (crtc_reg s)(crtc_idx s := b)\<rparr>)
     else modK (\<lambda>s. s\<lparr>io_out := io_out s @ [Outb port b]\<rparr>))"

text \<open>\<^verbatim>\<open>insl\<close> and \<^verbatim>\<open>outsl\<close> move \<open>n\<close> 32-bit words, here as their bytes.\<close>

definition insl :: "ushort \<Rightarrow> nat \<Rightarrow> (byte list, 'z dev_st_scheme) kern" where
  "insl port n =
    bindK (getK (\<lambda>s. map (\<lambda>i. io_in s port (io_cnt s port + i)) [0..<4 * n])) (\<lambda>bs.
      seqK (modK (\<lambda>s. s\<lparr>io_cnt := (io_cnt s)(port := io_cnt s port + 4 * n)\<rparr>)) (ret bs))"

definition outsl :: "ushort \<Rightarrow> byte list \<Rightarrow> (unit, 'z dev_st_scheme) kern" where
  "outsl port bs = modK (\<lambda>s. s\<lparr>io_out := io_out s @ [Outsl port bs]\<rparr>)"

definition mmread :: "addr \<Rightarrow> (uint, 'z dev_st_scheme) kern" where
  "mmread a =
    bindK (getK (\<lambda>s. mm_in s a (mm_cnt s a))) (\<lambda>w.
      seqK (modK (\<lambda>s. s\<lparr>mm_cnt := (mm_cnt s)(a := mm_cnt s a + 1)\<rparr>)) (ret w))"

definition mmwrite :: "addr \<Rightarrow> uint \<Rightarrow> (unit, 'z dev_st_scheme) kern" where
  "mmwrite a w = modK (\<lambda>s. s\<lparr>io_out := io_out s @ [Mmio a w]\<rparr>)"

text \<open>\<^verbatim>\<open>lidt\<close> sets the base and the limit of the interrupt descriptor table.\<close>

definition lidt :: "addr \<Rightarrow> uint \<Rightarrow> (unit, 'z dev_st_scheme) kern" where
  "lidt a n = modK (\<lambda>s. s\<lparr>idtr := (a, ucast (n - 1))\<rparr>)"

section \<open>kernel/picirq.c and kernel/timer.c\<close>

definition picsetmask :: "ushort \<Rightarrow> (unit, 'z dev_st_scheme) kern" where
  "picsetmask msk =
    seqK (modK (\<lambda>s. s\<lparr>irqmask := msk\<rparr>))
   (seqK (outb 0x21 (ucast msk))
         (outb 0xA1 (ucast (drop_bit 8 msk))))"

definition picenable :: "nat \<Rightarrow> (unit, 'z dev_st_scheme) kern" where
  "picenable irq = bindK (getK irqmask) (\<lambda>m. picsetmask (m AND NOT (push_bit irq 1)))"

definition T_IRQ0 :: nat where
  "T_IRQ0 = 32"

definition picinit :: "(unit, 'z dev_st_scheme) kern" where
  "picinit =
    seqK (forK [(0x21, 0xFF), (0xA1, 0xFF),
                (0x20, 0x11), (0x21, of_nat T_IRQ0), (0x21, 4), (0x21, 3),
                (0xA0, 0x11), (0xA1, of_nat T_IRQ0 + 8), (0xA1, 2), (0xA1, 3),
                (0x20, 0x68), (0x20, 0x0a), (0xA0, 0x68), (0xA0, 0x0a)]
           (\<lambda>(p, b). outb p b))
   (bindK (getK irqmask) (\<lambda>m. whenK (m \<noteq> 0xFFFF) (picsetmask m)))"

definition TIMER_DIV :: "nat \<Rightarrow> nat" where
  "TIMER_DIV x = (1193182 + x div 2) div x"

definition IRQ_TIMER :: nat where
  "IRQ_TIMER = 0"

definition timerinit :: "(unit, 'z dev_st_scheme) kern" where
  "timerinit =
    seqK (outb 0x43 (0x00 OR 0x04 OR 0x30))
   (seqK (outb 0x40 (of_nat (TIMER_DIV 100 mod 256)))
   (seqK (outb 0x40 (of_nat (TIMER_DIV 100 div 256)))
         (picenable IRQ_TIMER)))"

section \<open>kernel/ioapic.c and kernel/lapic.c\<close>

definition DEVBASE :: addr where
  "DEVBASE = 0xFFFFFFFF40000000"

definition DEVSPACE :: addr where
  "DEVSPACE = 0xFE000000"

definition IO2V :: "addr \<Rightarrow> addr" where
  "IO2V a = a + DEVBASE - DEVSPACE"

definition ioapicread :: "uint \<Rightarrow> (uint, 'z dev_st_scheme) kern" where
  "ioapicread reg = bindK (getK ioapic) (\<lambda>io. seqK (mmwrite io reg) (mmread (io + 16)))"

definition ioapicwrite :: "uint \<Rightarrow> uint \<Rightarrow> (unit, 'z dev_st_scheme) kern" where
  "ioapicwrite reg d = bindK (getK ioapic) (\<lambda>io. seqK (mmwrite io reg) (mmwrite (io + 16) d))"

definition ioapicenable :: "nat \<Rightarrow> uint \<Rightarrow> (unit, 'z dev_st_scheme) kern" where
  "ioapicenable irq cpunum =
    bindK (getK ismp) (\<lambda>mp.
      whenK mp
        (seqK (ioapicwrite (0x10 + 2 * of_nat irq) (of_nat (T_IRQ0 + irq)))
              (ioapicwrite (0x10 + 2 * of_nat irq + 1) (push_bit 24 cpunum))))"

definition lapicw :: "nat \<Rightarrow> uint \<Rightarrow> (unit, 'z dev_st_scheme) kern" where
  "lapicw index v =
    bindK (getK lapic) (\<lambda>la.
    seqK (mmwrite (la + of_nat (4 * index)) v)
   (seqK (mmread (la + 0x20))
         (ret ())))"

text \<open>The register numbers, as \<^verbatim>\<open>lapic.c\<close> divides them by four.\<close>

definition LAPIC_EOI :: nat where "LAPIC_EOI = 0xB0 div 4"
definition LAPIC_ICRLO :: nat where "LAPIC_ICRLO = 0x300 div 4"
definition LAPIC_ICRHI :: nat where "LAPIC_ICRHI = 0x310 div 4"

definition lapicinit :: "(unit, 'z dev_st_scheme) kern" where
  "lapicinit =
    bindK (getK lapic) (\<lambda>la. whenK (la \<noteq> 0)
     (seqK (lapicw (0xF0 div 4) (0x100 OR (32 + 31)))
     (seqK (lapicw (0x3E0 div 4) 0xB)
     (seqK (lapicw (0x320 div 4) (0x20000 OR (32 + 0)))
     (seqK (lapicw (0x380 div 4) 10000000)
     (seqK (lapicw (0x350 div 4) 0x10000)
     (seqK (lapicw (0x360 div 4) 0x10000)
     (bindK (mmread (la + 0x30)) (\<lambda>ver.
      seqK (whenK (drop_bit 16 ver AND 0xFF \<ge> 4) (lapicw (0x340 div 4) 0x10000))
     (seqK (lapicw (0x370 div 4) (32 + 19))
     (seqK (lapicw (0x280 div 4) 0)
     (seqK (lapicw (0x280 div 4) 0)
     (seqK (lapicw LAPIC_EOI 0)
     (seqK (lapicw LAPIC_ICRHI 0)
     (seqK (lapicw LAPIC_ICRLO (0x80000 OR 0x500 OR 0x8000))
     (seqK (loopK (\<lambda>_. bindK (mmread (la + 0x300)) (\<lambda>r. ret (if r AND 0x1000 \<noteq> 0 then Inl () else Inr ()))) ())
           (lapicw (0x80 div 4) 0)))))))))))))))))"

definition lapiceoi :: "(unit, 'z dev_st_scheme) kern" where
  "lapiceoi = bindK (getK lapic) (\<lambda>la. whenK (la \<noteq> 0) (lapicw LAPIC_EOI 0))"

definition microdelay :: "nat \<Rightarrow> (unit, 'z dev_st_scheme) kern" where
  "microdelay us = ret ()"

text \<open>The warm reset vector is two 16-bit words at \<^verbatim>\<open>P2V(0x40<<4 | 0x67)\<close>.\<close>

definition lapicstartap :: "byte \<Rightarrow> uint \<Rightarrow> (unit, 'z dev_st_scheme) kern" where
  "lapicstartap apic code =
    seqK (outb 0x70 0xF)
   (seqK (outb 0x71 0x0A)
   (seqK (modK (\<lambda>s. s\<lparr>mem := write_bytes (mem s) (p2v (0x400 OR 0x67)) (bytes16 0 @ bytes16 (ucast (drop_bit 4 code)))\<rparr>))
   (seqK (lapicw LAPIC_ICRHI (push_bit 24 (ucast apic)))
   (seqK (lapicw LAPIC_ICRLO (0x500 OR 0x8000 OR 0x4000))
   (seqK (microdelay 200)
   (seqK (lapicw LAPIC_ICRLO (0x500 OR 0x8000))
   (seqK (microdelay 100)
         (forK [0..<2] (\<lambda>_ :: nat.
            seqK (lapicw LAPIC_ICRHI (push_bit 24 (ucast apic)))
           (seqK (lapicw LAPIC_ICRLO (0x600 OR drop_bit 12 code))
                 (microdelay 200)))))))))))"

section \<open>kernel/uart.c\<close>

definition COM1 :: ushort where
  "COM1 = 0x3f8"

text \<open>The waiting loop of \<^verbatim>\<open>uartputc\<close>: at most 128 looks at the line status.\<close>

definition uart_wait :: "(unit, 'z dev_st_scheme) kern" where
  "uart_wait =
    seqK (findK [0..<128] (\<lambda>_ :: nat. bindK (inb (COM1 + 5)) (\<lambda>st.
            if st AND 0x20 \<noteq> 0 then ret (Some ()) else seqK (microdelay 10) (ret None))))
         (ret ())"

definition uartputc :: "uint \<Rightarrow> (unit, 'z dev_st_scheme) kern" where
  "uartputc c =
    bindK (getK uart) (\<lambda>u. whenK u (seqK uart_wait (outb COM1 (ucast c))))"

definition ascii :: "string \<Rightarrow> byte list" where
  "ascii = map of_char"

definition uartearlyinit :: "(unit, 'z dev_st_scheme) kern" where
  "uartearlyinit =
    seqK (forK [(COM1 + 2, 0), (COM1 + 3, 0x80), (COM1, 115200 div 9600), (COM1 + 1, 0), (COM1 + 3, 0x03),
                (COM1 + 4, 0), (COM1 + 1, 0x01)] (\<lambda>(p, b). outb p b))
   (bindK (inb (COM1 + 5)) (\<lambda>st.
      if st = 0xFF then ret ()
      else seqK (modK (\<lambda>s. s\<lparr>uart := True\<rparr>))
                (forK (ascii ''xv6...'' @ [10]) (\<lambda>b. uartputc (ucast b)))))"

definition uartinit :: "(unit, 'z dev_st_scheme) kern" where
  "uartinit =
    bindK (getK uart) (\<lambda>u. whenK u
     (seqK (inb (COM1 + 2))
     (seqK (inb COM1)
     (seqK (picenable 4)
           (ioapicenable 4 0)))))"

text \<open>An input routine returns a character, or a negative number when there is none.\<close>

definition uartgetc :: "(uint, 'z dev_st_scheme) kern" where
  "uartgetc =
    bindK (getK uart) (\<lambda>u.
      if \<not> u then ret (- 1)
      else bindK (inb (COM1 + 5)) (\<lambda>st.
        if st AND 0x01 = 0 then ret (- 1)
        else bindK (inb COM1) (\<lambda>b. ret (ucast b))))"

section \<open>kernel/kbd.c\<close>

text \<open>
  A C array of 256 bytes with an initial segment and designated initialisers; the rest is zero.
\<close>

definition uchars :: "byte list \<Rightarrow> (nat \<times> byte) list \<Rightarrow> nat \<Rightarrow> byte" where
  "uchars xs upd i =
    (case map_of upd i of Some b \<Rightarrow> b | None \<Rightarrow> if i < length xs then xs ! i else 0)"

definition SHIFT :: uint where "SHIFT = 1"
definition CTL :: uint where "CTL = 2"
definition ALT :: uint where "ALT = 4"
definition CAPSLOCK :: uint where "CAPSLOCK = 8"
definition NUMLOCK :: uint where "NUMLOCK = 16"
definition SCROLLLOCK :: uint where "SCROLLLOCK = 32"
definition E0ESC :: uint where "E0ESC = 64"

definition shiftcode :: "nat \<Rightarrow> byte" where
  "shiftcode = uchars [] [(0x1D, ucast CTL), (0x2A, ucast SHIFT), (0x36, ucast SHIFT), (0x38, ucast ALT),
    (0x9D, ucast CTL), (0xB8, ucast ALT)]"

definition togglecode :: "nat \<Rightarrow> byte" where
  "togglecode = uchars [] [(0x3A, ucast CAPSLOCK), (0x45, ucast NUMLOCK), (0x46, ucast SCROLLLOCK)]"

text \<open>The keys of the extended block, the same in all three maps.\<close>

definition extkeys :: "(nat \<times> byte) list" where
  "extkeys = [(0xC8, 0xE2), (0xD0, 0xE3), (0xC9, 0xE6), (0xD1, 0xE7), (0xCB, 0xE4), (0xCD, 0xE5),
    (0x97, 0xE0), (0xCF, 0xE1), (0xD2, 0xE8), (0xD3, 0xE9)]"

definition normalmap :: "nat \<Rightarrow> byte" where
  "normalmap = uchars
    ([0, 0x1B] @ ascii ''1234567890-='' @ [8, 9] @
     ascii ''qwertyuiop[]'' @ [10, 0] @ ascii ''as'' @
     ascii ''dfghjkl;'' @ [39, 96, 0, 92] @ ascii ''zxcv'' @
     ascii ''bnm,./'' @ [0] @ ascii ''*'' @ [0, 32, 0, 0, 0, 0, 0, 0,
     0, 0, 0, 0, 0, 0, 0] @ ascii ''7'' @
     ascii ''89-456+1'' @ ascii ''230.'' @ [0, 0, 0, 0])
    ([(0x9C, 10), (0xB5, 47)] @ extkeys)"

definition shiftmap :: "nat \<Rightarrow> byte" where
  "shiftmap = uchars
    ([0, 27] @ ascii ''!@#$%^&*()_+'' @ [8, 9] @
     ascii ''QWERTYUIOP{}'' @ [10, 0] @ ascii ''AS'' @
     ascii ''DFGHJKL:'' @ [34, 126, 0, 124] @ ascii ''ZXCV'' @
     ascii ''BNM<>?'' @ [0] @ ascii ''*'' @ [0, 32, 0, 0, 0, 0, 0, 0,
     0, 0, 0, 0, 0, 0, 0] @ ascii ''7'' @
     ascii ''89-456+1'' @ ascii ''230.'' @ [0, 0, 0, 0])
    ([(0x9C, 10), (0xB5, 47)] @ extkeys)"

text \<open>\<^verbatim>\<open>C('A')\<close>, control-A.\<close>

definition ctl :: "char \<Rightarrow> byte" where
  "ctl c = of_char c - 64"

definition ctlmap :: "nat \<Rightarrow> byte" where
  "ctlmap = uchars
    (replicate 16 0 @
     map ctl ''QWERTYUI'' @ map ctl ''OP'' @ [0, 0, 13, 0] @ map ctl ''AS'' @
     map ctl ''DFGHJKL'' @ [0, 0, 0, 0, 92 - 64] @ map ctl ''ZXCV'' @
     map ctl ''BNM'' @ [0, 0, 47 - 64, 0, 0])
    ([(0x9C, 13), (0xB5, 47 - 64)] @ extkeys)"

text \<open>\<^verbatim>\<open>charcode[shift & (CTL|SHIFT)]\<close>.\<close>

definition charcode :: "uint \<Rightarrow> nat \<Rightarrow> byte" where
  "charcode sh = [normalmap, shiftmap, ctlmap, ctlmap] ! unat (sh AND (CTL OR SHIFT))"

text \<open>What one scan code does: the new value of \<^verbatim>\<open>shift\<close> and the character returned.\<close>

definition kbd_scan :: "uint \<Rightarrow> uint \<Rightarrow> uint \<times> uint" where
  "kbd_scan shift d =
    (if d = 0xE0 then (shift OR E0ESC, 0)
     else if d AND 0x80 \<noteq> 0 then
       let d = (if shift AND E0ESC \<noteq> 0 then d else d AND 0x7F)
       in (shift AND NOT (ucast (shiftcode (unat d)) OR E0ESC), 0)
     else
       let (d, shift) = (if shift AND E0ESC \<noteq> 0 then (d OR 0x80, shift AND NOT E0ESC) else (d, shift));
           shift = shift OR ucast (shiftcode (unat d));
           shift = shift XOR ucast (togglecode (unat d));
           c = ucast (charcode shift (unat d)) :: uint
       in (shift,
           if shift AND CAPSLOCK \<noteq> 0 then
             if 97 \<le> c \<and> c \<le> 122 then c - 32 else if 65 \<le> c \<and> c \<le> 90 then c + 32 else c
           else c))"

definition kbdgetc :: "(uint, 'z dev_st_scheme) kern" where
  "kbdgetc =
    bindK (inb 0x64) (\<lambda>st.
      if st AND 0x01 = 0 then ret (- 1)
      else bindK (inb 0x60) (\<lambda>d.
        bindK (getK (\<lambda>s. kbd_scan (kbd_shift s) (ucast d))) (\<lambda>(shift, c).
        seqK (modK (\<lambda>s. s\<lparr>kbd_shift := shift\<rparr>)) (ret c))))"

section \<open>A concrete machine\<close>

definition dev_boot :: dev_st where
  "dev_boot = log_st.extend log_boot
     (dev_st.fields (\<lambda>_ _. 0) (\<lambda>_. 0) (\<lambda>_ _. 0) (\<lambda>_. 0) [] 0 (\<lambda>_. 0) 0xFFFF True 0 (IO2V 0xFEC00000) (IO2V 0xFEE00000)
        [\<lparr>cpu_id = 0, apicid = 0, started = 1, cpu_local = 0\<rparr>] 0 True 1 0 (0, 0) 0)"

end
