(* ===== verification/Console.thy ===== *)
theory Console
  imports Devices
begin

text \<open>
  \<^verbatim>\<open>kernel/console.c\<close> without the two routines that also lock an inode: output to the screen and the serial
  port, formatted printing, and the input line discipline; with \<^verbatim>\<open>procdump\<close> of \<^verbatim>\<open>kernel/proc.c\<close>, which the
  console runs. The lemmas show that the cursor and the screen accesses stay inside the screen, that
  \<^verbatim>\<open>printint\<close> prints the number it is given, and that the input buffer is a bounded queue of
  committed bytes followed by the line being edited.
\<close>

section \<open>State\<close>

definition INPUT_BUF :: nat where
  "INPUT_BUF = 128"

record cons_st = dev_st +
  cons_locking :: bool
  panicked :: bool
  in_buf :: "byte list"
  in_r :: uint
  in_w :: uint
  in_e :: uint

section \<open>Output\<close>

definition BACKSPACE :: uint where
  "BACKSPACE = 0x100"

text \<open>The CGA memory: 16-bit cells at \<^verbatim>\<open>P2V(0xb8000)\<close>.\<close>

definition crt :: addr where
  "crt = p2v 0xb8000"

definition crt_put :: "uint \<Rightarrow> ushort \<Rightarrow> mem \<Rightarrow> mem" where
  "crt_put pos w m = write_bytes m (crt + 2 * ucast pos) (bytes16 w)"

text \<open>\<^verbatim>\<open>cgaputc\<close> between reading and writing the cursor registers: the new position and memory.\<close>

definition cga_draw :: "uint \<Rightarrow> uint \<Rightarrow> mem \<Rightarrow> uint \<times> mem" where
  "cga_draw c pos m =
    (if c = 10 then (pos + (80 - pos mod 80), m)
     else if c = BACKSPACE then (if pos > 0 then pos - 1 else pos, m)
     else (pos + 1, crt_put pos ((ucast c AND 0xff) OR 0x0700) m))"

definition cga_scroll :: "uint \<Rightarrow> mem \<Rightarrow> uint \<times> mem" where
  "cga_scroll pos m =
    (if pos div 80 \<ge> 24 then
       let m = memmove m crt (crt + 160) (2 * 23 * 80); pos = pos - 80
       in (pos, memset m (crt + 2 * ucast pos) 0 (2 * (24 * 80 - pos)))
     else (pos, m))"

definition cgaputc :: "uint \<Rightarrow> (unit, 'z cons_st_scheme) kern" where
  "cgaputc c =
    seqK (outb CRTPORT 14)
   (bindK (inb (CRTPORT + 1)) (\<lambda>hi.
    seqK (outb CRTPORT 15)
   (bindK (inb (CRTPORT + 1)) (\<lambda>lo.
    bindK (getK (\<lambda>s. case cga_draw c (push_bit 8 (ucast hi) OR ucast lo) (mem s) of (p, m) \<Rightarrow> cga_scroll p m)) (\<lambda>(pos, m).
    seqK (modK (\<lambda>s. s\<lparr>mem := m\<rparr>))
   (seqK (outb CRTPORT 14)
   (seqK (outb (CRTPORT + 1) (ucast (drop_bit 8 pos)))
   (seqK (outb CRTPORT 15)
   (seqK (outb (CRTPORT + 1) (ucast pos))
         (modK (\<lambda>s. s\<lparr>mem := crt_put pos (32 OR 0x0700) (mem s)\<rparr>)))))))))))"

text \<open>After a panic \<^verbatim>\<open>consputc\<close> stops the processor.\<close>

definition consputc :: "uint \<Rightarrow> (unit, 'z cons_st_scheme) kern" where
  "consputc c =
    bindK (getK panicked) (\<lambda>p.
      if p then (\<lambda>s. Spin)
      else
        seqK (if c = BACKSPACE then seqK (uartputc 8) (seqK (uartputc 32) (uartputc 8)) else uartputc c)
             (cgaputc c))"

section \<open>Formatted printing\<close>

definition digits :: "byte list" where
  "digits = ascii ''0123456789abcdef''"

definition printptr :: "uintp \<Rightarrow> (unit, 'z cons_st_scheme) kern" where
  "printptr x =
    forK [0..<16] (\<lambda>i. consputc (ucast (digits ! unat (drop_bit 60 (push_bit (4 * i) x)))))"

text \<open>
  The \<^verbatim>\<open>do\<close> loop of \<^verbatim>\<open>printint\<close>: the digits, least significant first. The base is 10 or 16; the test
  \<open>base < 2\<close> only makes the definition total.
\<close>

function int_digits :: "nat \<Rightarrow> nat \<Rightarrow> byte list" where
  "int_digits x base =
    digits ! (x mod base) # (if base < 2 \<or> x div base = 0 then [] else int_digits (x div base) base)"
  by pat_completeness auto
termination
  by (relation "measure fst") (auto simp: div_greater_zero_iff)

declare int_digits.simps [simp del]

definition printint :: "uint \<Rightarrow> nat \<Rightarrow> bool \<Rightarrow> (unit, 'z cons_st_scheme) kern" where
  "printint xx base sign =
    (let neg = (sign \<and> sint xx < 0);
         x = (if neg then - xx else xx);
         buf = int_digits (unat x) base @ (if neg then [45] else [])
     in forK (rev buf) (\<lambda>b. consputc (ucast b)))"

text \<open>
  The variable arguments of \<^verbatim>\<open>cprintf\<close>. A directive without an argument of its type is undefined in
  C and stops the model.
\<close>

datatype carg = CInt uint | CPtr uintp | CStr "byte list option"

definition prints :: "byte list \<Rightarrow> (unit, 'z cons_st_scheme) kern" where
  "prints bs = forK bs (\<lambda>b. consputc (scast b))"

text \<open>One directive \<open>%c\<close>: what it prints and the arguments left over.\<close>

fun cdirective :: "byte \<Rightarrow> carg list \<Rightarrow> ((unit, 'z cons_st_scheme) kern \<times> carg list)" where
  "cdirective c ap =
    (if c = 100 then (case ap of CInt n # ap' \<Rightarrow> (printint n 10 True, ap') | _ \<Rightarrow> (panic ''undefined: va_arg'', ap))
     else if c = 120 then (case ap of CInt n # ap' \<Rightarrow> (printint n 16 False, ap') | _ \<Rightarrow> (panic ''undefined: va_arg'', ap))
     else if c = 112 then (case ap of CPtr n # ap' \<Rightarrow> (printptr n, ap') | _ \<Rightarrow> (panic ''undefined: va_arg'', ap))
     else if c = 115 then (case ap of CStr s # ap' \<Rightarrow>
         (prints (case s of None \<Rightarrow> ascii ''(null)'' | Some bs \<Rightarrow> cstr bs), ap') | _ \<Rightarrow> (panic ''undefined: va_arg'', ap))
     else if c = 37 then (consputc 37, ap)
     else (seqK (consputc 37) (consputc (ucast c)), ap))"

fun cprintf_loop :: "byte list \<Rightarrow> carg list \<Rightarrow> (unit, 'z cons_st_scheme) kern" where
  "cprintf_loop [] ap = ret ()"
| "cprintf_loop [c] ap = (if c \<noteq> 37 then consputc (ucast c) else ret ())"
| "cprintf_loop (c # d # fmt) ap =
    (if c \<noteq> 37 then seqK (consputc (ucast c)) (cprintf_loop (d # fmt) ap)
     else case cdirective d ap of (act, ap') \<Rightarrow> seqK act (cprintf_loop fmt ap'))"

definition cprintf :: "string \<Rightarrow> carg list \<Rightarrow> (unit, 'z cons_st_scheme) kern" where
  "cprintf fmt ap =
    bindK (getK cons_locking) (\<lambda>locking.
    seqK (whenK locking (acquire L_cons))
   (seqK (cprintf_loop (ascii fmt) ap)
         (whenK locking (release L_cons))))"

text \<open>
  \<^verbatim>\<open>panic\<close> itself, which never returns; \<open>ebp\<close> is the frame pointer that \<^verbatim>\<open>getcallerpcs\<close> starts from. Elsewhere
  in the model a call of \<^verbatim>\<open>panic\<close> is the outcome \<open>Panic\<close>.
\<close>

definition console_panic :: "string \<Rightarrow> addr \<Rightarrow> (unit, 'z cons_st_scheme) kern" where
  "console_panic msg ebp =
    seqK (modK (\<lambda>s. s\<lparr>ifl := False, cons_locking := False\<rparr>))
   (bindK (getK (\<lambda>s. cpu_id (cpus s ! cpu s))) (\<lambda>id.
    seqK (cprintf ''cpu%d: panic: '' [CInt (ucast id)])
   (seqK (cprintf msg [])
   (seqK (cprintf [CHR 0x0A] [])
   (bindK (getK (\<lambda>s. getstackpcs (mem s) ebp)) (\<lambda>pcs.
    seqK (forK pcs (\<lambda>pc. cprintf '' %p'' [CPtr pc]))
   (seqK (modK (\<lambda>s. s\<lparr>panicked := True\<rparr>))
         (\<lambda>s. Spin))))))))"

section \<open>The process listing\<close>

fun state_name :: "procstate \<Rightarrow> string" where
  "state_name UNUSED = ''unused''"
| "state_name EMBRYO = ''embryo''"
| "state_name SLEEPING = ''sleep ''"
| "state_name RUNNABLE = ''runble''"
| "state_name RUNNING = ''run   ''"
| "state_name ZOMBIE = ''zombie''"

text \<open>\<^verbatim>\<open>ebp\<close> is the seventh word of \<^verbatim>\<open>struct context\<close>.\<close>

definition procdump_one :: "proc \<Rightarrow> (unit, 'z cons_st_scheme) kern" where
  "procdump_one p =
    whenK (pstate p \<noteq> UNUSED)
     (seqK (cprintf ''%d %s %s'' [CInt (pid p), CStr (Some (ascii (state_name (pstate p)))), CStr (Some (pname p))])
     (seqK (whenK (pstate p = SLEEPING)
             (bindK (getK (\<lambda>s. getstackpcs (mem s) (load64 (mem s) (pcontext p + 48)))) (\<lambda>pcs.
                forK (takeWhile (\<lambda>pc. pc \<noteq> 0) pcs) (\<lambda>pc. cprintf '' %p'' [CPtr pc]))))
           (cprintf [CHR 0x0A] [])))"

definition procdump :: "(unit, 'z cons_st_scheme) kern" where
  "procdump =
    seqK (forK [0..<NPROC] (\<lambda>i. bindK (getK (\<lambda>s. ptable s ! i)) procdump_one))
         (cprintf [CHR 0x0A, CHR 0x0A] [])"

section \<open>Input\<close>

text \<open>\<^verbatim>\<open>input.buf[i % INPUT_BUF]\<close>.\<close>

definition in_at :: "'z cons_st_scheme \<Rightarrow> uint \<Rightarrow> byte" where
  "in_at s i = in_buf s ! (unat i mod INPUT_BUF)"

definition in_erase :: "(unit, 'z cons_st_scheme) kern" where
  "in_erase = seqK (modK (\<lambda>s. s\<lparr>in_e := in_e s - 1\<rparr>)) (consputc BACKSPACE)"

text \<open>The \<^verbatim>\<open>switch\<close> of \<^verbatim>\<open>consoleintr\<close>.\<close>

definition cons_key :: "uint \<Rightarrow> (unit, 'z cons_st_scheme) kern" where
  "cons_key c =
    (if c = 26 then lidt 0 0
     else if c = 16 then procdump
     else if c = 21 then
       loopK (\<lambda>_. bindK (getK (\<lambda>s. in_e s \<noteq> in_w s \<and> in_at s (in_e s - 1) \<noteq> 10)) (\<lambda>more.
         if more then seqK in_erase (ret (Inl ())) else ret (Inr ()))) ()
     else if c = 8 \<or> c = 0x7f then
       bindK (getK (\<lambda>s. in_e s \<noteq> in_w s)) (\<lambda>more. whenK more in_erase)
     else
       bindK (getK (\<lambda>s. c \<noteq> 0 \<and> in_e s - in_r s < of_nat INPUT_BUF)) (\<lambda>room.
       whenK room
         (let c = (if c = 13 then 10 else c) in
          seqK (modK (\<lambda>s. s\<lparr>in_buf := (in_buf s)[unat (in_e s) mod INPUT_BUF := ucast c], in_e := in_e s + 1\<rparr>))
         (seqK (consputc c)
         (bindK (getK (\<lambda>s. c = 10 \<or> c = 4 \<or> in_e s = in_r s + of_nat INPUT_BUF)) (\<lambda>eol.
          whenK eol
            (seqK (modK (\<lambda>s. s\<lparr>in_w := in_e s\<rparr>))
                  (wakeup ChInput))))))))"

definition consoleintr :: "(uint, 'z cons_st_scheme) kern \<Rightarrow> (unit, 'z cons_st_scheme) kern" where
  "consoleintr getc =
    seqK (acquire L_input)
   (seqK (loopK (\<lambda>_. bindK getc (\<lambda>c.
            if sint c < 0 then ret (Inr ()) else seqK (cons_key c) (ret (Inl ())))) ())
         (release L_input))"

definition kbdintr :: "(unit, 'z cons_st_scheme) kern" where
  "kbdintr = consoleintr kbdgetc"

definition uartintr :: "(unit, 'z cons_st_scheme) kern" where
  "uartintr = consoleintr uartgetc"

section \<open>A concrete machine\<close>

definition cons_boot :: cons_st where
  "cons_boot = dev_st.extend dev_boot (cons_st.fields True False (replicate 128 0) 0 0 0)"

lemmas cons_boot_defs = dev_boot_def log_boot_def bio_boot_def bio_st.defs log_st.defs dev_st.defs cons_st.defs

section \<open>Printed numbers\<close>

text \<open>The number that a string of digits denotes, with an optional minus sign.\<close>

definition digit_val :: "byte \<Rightarrow> nat" where
  "digit_val b = (if b < 58 then unat b - 48 else unat b - 87)"

definition num_val :: "nat \<Rightarrow> byte list \<Rightarrow> nat" where
  "num_val base ds = foldl (\<lambda>n d. n * base + digit_val d) 0 ds"

definition int_val :: "nat \<Rightarrow> byte list \<Rightarrow> int" where
  "int_val base ds = (if ds \<noteq> [] \<and> hd ds = 45 then - int (num_val base (tl ds)) else int (num_val base ds))"

lemma digits_simps: "digits = [48, 49, 50, 51, 52, 53, 54, 55, 56, 57, 97, 98, 99, 100, 101, 102]"
  by (simp add: digits_def ascii_def)

lemma digit_nth:
  assumes "k < 16"
  shows "digit_val (digits ! k) = k" "digits ! k \<noteq> 45" "k \<noteq> 0 \<Longrightarrow> digits ! k \<noteq> 48"
proof -
  have "k \<in> set [0..<16]" using assms by simp
  moreover have "\<forall>k \<in> set [0..<16]. digit_val (digits ! k) = k \<and> digits ! k \<noteq> 45 \<and> (k \<noteq> 0 \<longrightarrow> digits ! k \<noteq> 48)"
    by (simp add: upt_rec digits_simps digit_val_def word_less_nat_alt)
  ultimately show "digit_val (digits ! k) = k" "digits ! k \<noteq> 45" "k \<noteq> 0 \<Longrightarrow> digits ! k \<noteq> 48" by blast+
qed

lemma int_digits_val:
  assumes "2 \<le> base" "base \<le> 16"
  shows "num_val base (rev (int_digits x base)) = x"
proof (induction x rule: less_induct)
  case (less x)
  have mod_base: "x mod base < 16" using mod_less_divisor [of base x] assms by linarith
  have d: "digit_val (digits ! (x mod base)) = x mod base" using mod_base by (rule digit_nth(1))
  show ?case
  proof (cases "x div base = 0")
    case True
    with assms d show ?thesis by (subst int_digits.simps) (simp add: num_val_def div_eq_0_iff)
  next
    case False
    with assms less [of "x div base"] have "num_val base (rev (int_digits (x div base) base)) = x div base"
      by (simp add: div_greater_zero_iff)
    with assms d False show ?thesis by (subst int_digits.simps) (simp add: num_val_def)
  qed
qed

text \<open>No sign among the digits, and no leading zero.\<close>

lemma int_digits_last:
  assumes "2 \<le> base" "base \<le> 16"
  shows "last (int_digits x base) \<noteq> 45 \<and> (1 < length (int_digits x base) \<longrightarrow> last (int_digits x base) \<noteq> 48)"
proof (induction x rule: less_induct)
  case (less x)
  have mod_base: "x mod base < 16" using mod_less_divisor [of base x] assms by linarith
  show ?case
  proof (cases "x div base = 0")
    case True
    then show ?thesis using digit_nth [OF mod_base] assms by (subst (1 2 3) int_digits.simps) simp
  next
    case False
    then have lt: "x div base < x" using assms by (cases x) auto
    have "int_digits y base \<noteq> []" for y by (subst int_digits.simps) simp
    show ?thesis
    proof (cases "length (int_digits (x div base) base) = 1")
      case True
      then have "x div base div base = 0" using assms
        by (subst (asm) int_digits.simps) (auto split: if_splits simp: \<open>\<And>y. int_digits y base \<noteq> []\<close>)
      then have lt16: "x div base < base" using assms by (simp only: div_eq_0_iff) linarith
      then have "x div base < 16" using assms by linarith
      moreover from lt16 \<open>x div base div base = 0\<close> have "int_digits (x div base) base = [digits ! (x div base)]"
        by (subst int_digits.simps) simp
      ultimately show ?thesis using False digit_nth(2,3) [of "x div base"] assms by (subst (1 2 3) int_digits.simps) simp
    next
      case F: False
      with less [OF lt] False assms \<open>\<And>y. int_digits y base \<noteq> []\<close> show ?thesis
        by (subst (1 2 3) int_digits.simps) (cases "int_digits (x div base) base", auto)
    qed
  qed
qed

lemma int_digits_length:
  "2 \<le> base \<Longrightarrow> x < base ^ n \<Longrightarrow> 0 < n \<Longrightarrow> length (int_digits x base) \<le> n"
proof (induction n arbitrary: x)
  case (Suc n)
  show ?case
  proof (cases "x div base = 0")
    case False
    from Suc.prems have "x div base < base ^ n" by (simp add: div_less_iff_less_mult mult.commute)
    moreover from this False have "0 < n" by (cases n) auto
    ultimately show ?thesis using Suc.IH [of "x div base"] Suc.prems(1) False by (subst int_digits.simps) simp
  qed (subst int_digits.simps, simp)
qed simp


text \<open>
  C14. \<^verbatim>\<open>printint\<close> prints the number. For base 10 or 16 the characters that it sends to the console denote the
  signed (or unsigned) value of its argument, the smallest \<^verbatim>\<open>int\<close> included; they have no leading zero and are at
  most eleven, so the 16-byte buffer does not overflow.
\<close>

theorem printint_prints_number:
  assumes "base = 10 \<or> base = 16"
  shows "\<exists>bs. printint xx base sign = forK bs (\<lambda>b. consputc (ucast b))
    \<and> int_val base bs = (if sign then sint xx else uint xx)
    \<and> length bs \<le> 11 \<and> (1 < length bs \<longrightarrow> hd bs \<noteq> 48)"
proof -
  have base: "2 \<le> base" "base \<le> 16" using assms by auto
  define neg x where "neg = (sign \<and> sint xx < 0)" and "x = unat (if neg then - xx else xx)"
  let ?ds = "int_digits x base"
  let ?bs = "rev (?ds @ (if neg then [45] else []))"
  have ne: "?ds \<noteq> []" by (subst int_digits.simps) simp
  have x: "int x = (if neg then - sint xx else uint xx)" using unat_neg32 [of xx] by (simp add: x_def neg_def)
  have hd: "hd (rev ?ds) \<noteq> 45" "1 < length ?ds \<Longrightarrow> hd (rev ?ds) \<noteq> 48"
    using int_digits_last [OF base, of x] ne by (simp_all add: hd_rev)
  have "x < 2 ^ 32" unfolding x_def using unat_lt_exp [of "if neg then - xx else xx"] by simp
  then have "x < base ^ 10" using assms by auto
  then have len: "length ?ds \<le> 10" using int_digits_length [OF base(1), of x 10] by simp
  have "int_val base ?bs = (if neg then - int x else int x)"
    using hd(1) ne int_digits_val [OF base, of x] by (simp add: int_val_def)
  also have "\<dots> = (if sign then sint xx else uint xx)" using x uint_lt2p [of xx] by (auto simp: neg_def sint32)
  finally have "int_val base ?bs = (if sign then sint xx else uint xx)" .
  moreover have "printint xx base sign = forK ?bs (\<lambda>b. consputc (ucast b))"
    by (simp add: printint_def Let_def neg_def x_def)
  ultimately show ?thesis using len hd by (intro exI [of _ ?bs]) auto
qed

theorem printint_prints_number_witness:
  "\<exists>bs. printint 0x80000000 10 True = (forK bs (\<lambda>b. consputc (ucast b)) :: (unit, cons_st) kern) \<and> int_val 10 bs = - 2147483648"
  using printint_prints_number [of 10 "0x80000000" True] by auto

section \<open>The screen\<close>

text \<open>The cursor position that the CRT controller holds.\<close>

definition cursor :: "'z dev_st_scheme \<Rightarrow> uint" where
  "cursor s = push_bit 8 (ucast (crtc_reg s 14)) OR ucast (crtc_reg s 15)"

definition on_screen :: "addr \<Rightarrow> bool" where
  "on_screen a \<longleftrightarrow> unat (a - crt) < 2 * 24 * 80"

lemma cgaputc_eq:
  "cgaputc c s =
    (case cga_draw c (cursor s) (mem s) of (p, m) \<Rightarrow> case cga_scroll p m of (pos, m') \<Rightarrow>
      Ok () (s\<lparr>mem := crt_put pos (32 OR 0x0700) m', crtc_idx := 15,
               crtc_reg := (crtc_reg s)(14 := ucast (drop_bit 8 pos), 15 := ucast pos)\<rparr>))"
  by (simp add: cgaputc_def cursor_def kdefs inb_def outb_def CRTPORT_def split: prod.splits)

lemma cursor_upd:
  assumes "pos < 2 ^ 16"
  shows "cursor (s\<lparr>mem := m, crtc_idx := i, crtc_reg := r(14 := ucast (drop_bit 8 pos), 15 := ucast pos)\<rparr>) = pos"
  using lt16_bit [OF assms] unfolding cursor_def
  by (intro bit_word_eqI) (auto simp: bit_simps not_less; fastforce)

lemma screen_range:
  assumes "unat pos * 2 + n \<le> 3840" and "\<not> on_screen a"
  shows "n \<le> unat (a - (crt + 2 * ucast (pos :: uint)))"
proof -
  have "unat (2 * ucast pos :: addr) = 2 * unat pos" using assms(1) by (simp add: unat_word_ariths unat_ucast_up)
  with assms unat_sub_off [of "2 * ucast pos" a crt] show ?thesis by (simp add: on_screen_def)
qed

lemma crt_put_off:
  assumes "\<not> on_screen a" "pos < 24 * 80"
  shows "crt_put pos w m a = m a"
proof -
  have "2 \<le> unat (a - (crt + 2 * ucast pos))" using assms by (intro screen_range) (simp_all add: word_less_nat_alt)
  then show ?thesis by (simp add: crt_put_def write_bytes_at del: bytes16_def)
qed

lemma cga_draw_pos:
  assumes "pos < 24 * 80" and "cga_draw c pos m = (p, m')"
  shows "p \<le> 24 * 80" "\<not> on_screen a \<Longrightarrow> m' a = m a"
proof -
  show "\<not> on_screen a \<Longrightarrow> m' a = m a" using assms by (auto simp: cga_draw_def crt_put_off split: if_splits)
  have *: "unat pos < 1920" using assms(1) by (simp add: word_less_nat_alt)
  have "unat (pos mod 80) = unat pos mod 80" by (simp add: unat_mod)
  moreover have "unat (80 - pos mod 80) = 80 - unat pos mod 80" 
    using unat_sub [of "pos mod 80" 80] by (simp add: unat_mod word_le_nat_alt)
  ultimately have "unat (pos + (80 - pos mod 80)) = unat pos + (80 - unat pos mod 80)"
    using * by (simp add: unat_word_ariths)
  moreover have "unat pos + (80 - unat pos mod 80) = (unat pos div 80) * 80 + 80"
    using mult_div_mod_eq [of 80 "unat pos"] mod_less_divisor [of 80 "unat pos"] by linarith
  ultimately have "unat (pos + (80 - pos mod 80)) \<le> 1920" using * by simp
  moreover have "unat (pos + 1) \<le> 1920" using * by (simp add: unat_word_ariths)
  moreover have "pos = 0 \<or> unat (pos - 1) \<le> 1920" using * unat_minus_one [of pos] by linarith
  ultimately show "p \<le> 24 * 80" using assms by (auto simp: cga_draw_def word_le_nat_alt word_less_nat_alt split: if_splits)
qed

lemma cga_scroll_pos:
  assumes "pos \<le> 24 * 80" and "cga_scroll pos m = (p, m')"
  shows "p < 24 * 80" "\<not> on_screen a \<Longrightarrow> m' a = m a"
proof -
  have *: "unat pos \<le> 1920" using assms(1) by (simp add: word_le_nat_alt)
  have s: "pos div 80 \<ge> 24 \<longleftrightarrow> pos = 1920" using * 
    by (simp add: word_le_nat_alt unat_div word_unat_eq_iff) linarith
  show "p < 24 * 80" using assms * s by (auto simp: cga_scroll_def Let_def word_less_nat_alt order.order_iff_strict split: if_splits)
  assume a: "\<not> on_screen a"
  show "m' a = m a"
  proof (cases "pos = 1920")
    case True
    have "160 \<le> unat (a - (crt + 3680))" using screen_range [of 1840 160 a] a by simp
    moreover have "3680 \<le> unat (a - crt)" using a by (simp add: on_screen_def)
    ultimately have "memset (memmove m crt (crt + 160) 3680) (crt + 3680) 0 160 a = m a"
      by (simp add: memset_at memmove_at crt_def p2v_def KERNBASE_def)
    with True assms(2) show ?thesis by (simp add: cga_scroll_def)
  qed (use assms s in \<open>simp add: cga_scroll_def\<close>)
qed

definition screen_only :: "'z cons_st_scheme \<Rightarrow> 'z cons_st_scheme \<Rightarrow> bool" where
  "screen_only s t \<longleftrightarrow>
    (\<exists>m i r. t = s\<lparr>mem := m, crtc_idx := i, crtc_reg := r\<rparr> \<and> (\<forall>a. \<not> on_screen a \<longrightarrow> m a = mem s a))"

lemma cgaputc_step:
  assumes "cursor s < 24 * 80"
  shows "\<exists>t. cgaputc c s = Ok () t \<and> cursor t < 24 * 80 \<and> screen_only s t"
proof -
  obtain p m where d: "cga_draw c (cursor s) (mem s) = (p, m)" by fastforce
  obtain q m' where e: "cga_scroll p m = (q, m')" by fastforce
  note b = cga_draw_pos [OF assms d] and b' = cga_scroll_pos [OF cga_draw_pos(1) [OF assms d] e]
  have "q < 2 ^ 16" using b'(1) by (simp add: word_less_nat_alt)
  then show ?thesis using b(2) b'
    by (auto simp: cgaputc_eq d e cursor_upd screen_only_def crt_put_off intro!: exI)
qed

lemma screen_only_trans: "screen_only s t \<Longrightarrow> screen_only t u \<Longrightarrow> screen_only s u"
  by (clarsimp simp: screen_only_def) blast

lemma screen_only_refl: "screen_only s s" unfolding screen_only_def by (rule exI [of _ "mem s"], rule exI [of _ "crtc_idx s"], rule exI [of _ "crtc_reg s"]) simp

lemma screen_only_mem: "screen_only s t \<Longrightarrow> \<not> on_screen a \<Longrightarrow> mem t a = mem s a"
  by (auto simp: screen_only_def)

text \<open>
  C15: printing any sequence of characters, newlines and backspaces from a cursor on the screen
  returns with the cursor on the screen; the only kernel state it changes is the video memory of the
  24 lines and the cursor registers.
\<close>

theorem cgaputc_stays_on_screen:
  assumes "cursor s < 24 * 80"
  shows "\<exists>t. forK cs cgaputc s = Ok () t \<and> cursor t < 24 * 80 \<and> screen_only s t"
  using assms
proof (induction cs arbitrary: s)
  case Nil
  then show ?case by (simp add: ret_def screen_only_refl)
next
  case (Cons c cs)
  from cgaputc_step [OF Cons.prems] obtain t where t: "cgaputc c s = Ok () t" "cursor t < 24 * 80" "screen_only s t" by blast
  from Cons.IH [OF t(2)] t show ?case by (auto simp: run_Ok intro: screen_only_trans)
qed

theorem cgaputc_stays_on_screen_witness:
  "\<exists>t. forK [104, 105, 10, BACKSPACE] cgaputc cons_boot = Ok () t \<and> cursor t < 24 * 80 \<and> screen_only cons_boot t"
  by (rule cgaputc_stays_on_screen) (simp add: cons_boot_def cons_boot_defs cursor_def)

section \<open>What printing changes\<close>

definition con_out :: "'z cons_st_scheme \<Rightarrow> 'z cons_st_scheme \<Rightarrow> bool" where
  "con_out s t \<longleftrightarrow> (\<exists>m n w i r. t = s\<lparr>mem := m, io_cnt := n, io_out := w, crtc_idx := i, crtc_reg := r\<rparr>)"

lemma con_outI: "con_out s (s\<lparr>mem := m, io_cnt := n, io_out := w, crtc_idx := i, crtc_reg := r\<rparr>)"
  unfolding con_out_def by blast

lemma con_out_refl [simp]: "con_out s s"
  using con_outI [where s = s and m = "mem s" and n = "io_cnt s" and w = "io_out s" and i = "crtc_idx s" and r = "crtc_reg s"] by simp

lemma con_out_trans: "con_out s t \<Longrightarrow> con_out t u \<Longrightarrow> con_out s u"
  by (clarsimp simp: con_out_def) blast

lemma con_out_steps [simp]:
  "con_out s (s\<lparr>mem := m, crtc_idx := i, crtc_reg := r\<rparr>)" "con_out s (s\<lparr>io_cnt := n\<rparr>)" "con_out s (s\<lparr>io_out := w\<rparr>)"
  using con_outI [where s = s and m = m and n = "io_cnt s" and w = "io_out s" and i = i and r = r]
    con_outI [where s = s and m = "mem s" and n = n and w = "io_out s" and i = "crtc_idx s" and r = "crtc_reg s"]
    con_outI [where s = s and m = "mem s" and n = "io_cnt s" and w = w and i = "crtc_idx s" and r = "crtc_reg s"] by simp_all

lemma con_out_sel:
  assumes "con_out s t"
  shows "panicked t = panicked s" "cons_locking t = cons_locking s" "ptable t = ptable s" "in_buf t = in_buf s"
    "in_r t = in_r s" "in_w t = in_w s" "in_e t = in_e s" "settled t = settled s" "free_lock l t = free_lock l s"
    "cpu t = cpu s" "curproc t = curproc s"
  using assms by (auto simp: con_out_def settled_def mach_ok_def free_lock_def)

text \<open>Routines that print: they return, unless the console has been stopped.\<close>

definition prints_ok :: "(unit, 'z cons_st_scheme) kern \<Rightarrow> bool" where
  "prints_ok m \<longleftrightarrow> (\<forall>s. \<not> panicked s \<longrightarrow> (\<exists>t. m s = Ok () t \<and> con_out s t))"

lemma prints_seq [intro]: "prints_ok m \<Longrightarrow> prints_ok n \<Longrightarrow> prints_ok (seqK m n)"
  unfolding prints_ok_def by (metis con_out_sel(1) con_out_trans run_Ok(2))

lemma prints_ret [simp]: "prints_ok (ret ())"
  by (simp add: prints_ok_def ret_def)

lemma prints_forK: "(\<And>i. prints_ok (f i)) \<Longrightarrow> prints_ok (forK is f)"
  by (induction "is") auto

lemma inb_out: "\<exists>b t. inb p s = Ok b t \<and> con_out s t"
  by (auto simp: inb_def kdefs)

lemma uart_wait_out: "\<exists>t. uart_wait s = Ok () t \<and> con_out s t"
proof -
  have "\<exists>r t. findK (xs :: nat list) (\<lambda>_. bindK (inb (COM1 + 5)) (\<lambda>st.
            if st AND 0x20 \<noteq> 0 then ret (Some ()) else seqK (microdelay 10) (ret None))) s = Ok r t \<and> con_out s t" for xs
  proof (induction xs arbitrary: s)
    case (Cons x xs)
    obtain b t where t: "inb (COM1 + 5) s = Ok b t" "con_out s t" using inb_out by blast
    from Cons.IH [of t] t(2) show ?case
      by (auto simp: bindK_def seqK_def ret_def microdelay_def t(1) intro: con_out_trans)
  qed (simp add: ret_def)
  from this [of "[0..<128]"] show ?thesis by (auto simp: uart_wait_def run_Ok ret_def)
qed

lemma prints_uartputc [simp]: "prints_ok (uartputc c :: (unit, 'z cons_st_scheme) kern)"
proof -
  have "\<exists>t. uartputc c s = Ok () t \<and> con_out s t" for s :: "'z cons_st_scheme"
  proof -
    obtain t where t: "uart_wait s = Ok () t" "con_out s t" using uart_wait_out by blast
    have "\<exists>u. outb COM1 (ucast c) t = Ok () u \<and> con_out t u" by (simp add: outb_def modK_def COM1_def CRTPORT_def)
    with t show ?thesis by (auto simp: uartputc_def run_steps whenK_def ret_def run_Ok bindK_def getK_def intro: con_out_trans)
  qed
  then show ?thesis by (simp add: prints_ok_def)
qed

lemma prints_cgaputc [simp]: "prints_ok (cgaputc c)"
  by (auto simp: prints_ok_def cgaputc_eq split: prod.splits)

lemma prints_consputc [simp]: "prints_ok (consputc c)"
proof -
  let ?m = "seqK (if c = BACKSPACE then seqK (uartputc 8) (seqK (uartputc 32) (uartputc 8)) else uartputc c) (cgaputc c)"
  have "prints_ok ?m" by (auto intro!: prints_seq)
  then show ?thesis by (simp add: prints_ok_def consputc_def run_steps)
qed

lemma prints_number [simp]: "prints_ok (printint n b sg)" "prints_ok (printptr p)" "prints_ok (prints bs)"
  by (auto simp: printint_def printptr_def prints_def Let_def intro!: prints_forK)


text \<open>The argument types that a format string asks for.\<close>

fun fmt_ok :: "byte list \<Rightarrow> carg list \<Rightarrow> bool" where
  "fmt_ok [] ap = True"
| "fmt_ok [c] ap = True"
| "fmt_ok (c # d # fmt) ap =
    (if c \<noteq> 37 then fmt_ok (d # fmt) ap
     else if d = 100 \<or> d = 120 then (case ap of CInt _ # ap' \<Rightarrow> fmt_ok fmt ap' | _ \<Rightarrow> False)
     else if d = 112 then (case ap of CPtr _ # ap' \<Rightarrow> fmt_ok fmt ap' | _ \<Rightarrow> False)
     else if d = 115 then (case ap of CStr _ # ap' \<Rightarrow> fmt_ok fmt ap' | _ \<Rightarrow> False)
     else fmt_ok fmt ap)"

lemma prints_cprintf_loop: "fmt_ok fmt ap \<Longrightarrow> prints_ok (cprintf_loop fmt ap)"
  by (induction fmt ap rule: fmt_ok.induct) (auto split: if_splits list.splits carg.splits intro!: prints_seq)

text \<open>With its lock, which must be free.\<close>

definition con_idle :: "'z cons_st_scheme \<Rightarrow> bool" where
  "con_idle s \<longleftrightarrow> \<not> panicked s \<and> settled s \<and> free_lock L_cons s"

definition prints_lk :: "(unit, 'z cons_st_scheme) kern \<Rightarrow> bool" where
  "prints_lk m \<longleftrightarrow> (\<forall>s. con_idle s \<longrightarrow> (\<exists>t. m s = Ok () t \<and> con_out s t))"

lemma con_idle_out: "con_out s t \<Longrightarrow> con_idle t = con_idle s"
  by (simp add: con_idle_def con_out_sel)

lemma plk_seq [intro]: "prints_lk m \<Longrightarrow> prints_lk n \<Longrightarrow> prints_lk (seqK m n)"
  unfolding prints_lk_def by (metis con_idle_out con_out_trans run_Ok(2))

lemma plk_ret [simp]: "prints_lk (ret ())"
  by (simp add: prints_lk_def ret_def)

lemma plk_get: "(\<And>a. prints_lk (f a)) \<Longrightarrow> prints_lk (bindK (getK g) f)"
  by (simp add: prints_lk_def run_steps)

lemma plk_forK: "(\<And>i. prints_lk (f i)) \<Longrightarrow> prints_lk (forK is f)"
  by (induction "is") auto

lemma plk_cprintf:
  assumes "fmt_ok (ascii fmt) ap"
  shows "prints_lk (cprintf fmt ap)"
  unfolding prints_lk_def
proof (intro allI impI)
  fix s :: "'a cons_st_scheme" assume s: "con_idle s"
  note loop = prints_cprintf_loop [OF assms, unfolded prints_ok_def, rule_format]
  show "\<exists>t. cprintf fmt ap s = Ok () t \<and> con_out s t"
  proof (cases "cons_locking s")
    case False
    from s loop [of s] obtain t where "cprintf_loop (ascii fmt) ap s = Ok () t" "con_out s t" by (auto simp: con_idle_def)
    with False show ?thesis by (auto simp: cprintf_def run_steps whenK_def run_Ok ret_def)
  next
    case True
    have "\<not> panicked (acquired L_cons s)" using s by (simp add: con_idle_def acquired_def)
    from loop [OF this] obtain m n w i r where
      "cprintf_loop (ascii fmt) ap (acquired L_cons s) = Ok () (acquired L_cons s\<lparr>mem := m, io_cnt := n, io_out := w, crtc_idx := i, crtc_reg := r\<rparr>)"
      by (auto simp: con_out_def)
    moreover have "release L_cons (acquired L_cons s\<lparr>mem := m, io_cnt := n, io_out := w, crtc_idx := i, crtc_reg := r\<rparr>) =
        Ok () (s\<lparr>mem := m, io_cnt := n, io_out := w, crtc_idx := i, crtc_reg := r\<rparr>)"
      using s by (intro crit_release) (auto simp: con_idle_def above_mach_def)
    ultimately show ?thesis using True s
      by (auto simp: cprintf_def run_steps whenK_def run_Ok acquire_free con_idle_def intro: con_outI)
  qed
qed

lemma plk_procdump: "prints_lk procdump"
  unfolding procdump_def procdump_one_def whenK_def
  by (intro plk_seq plk_forK plk_get plk_cprintf) (auto simp: ascii_def intro!: plk_seq plk_forK plk_get plk_cprintf)

section \<open>The input line discipline\<close>

text \<open>
  The abstract state of the input buffer: the bytes a reader may take, and the line being edited.
\<close>

definition line_key :: "uint \<Rightarrow> byte list \<times> byte list \<Rightarrow> byte list \<times> byte list" where
  "line_key c qe =
    (case qe of (q, ed) \<Rightarrow>
     if c = 26 \<or> c = 16 then (q, ed)
     else if c = 21 then (q, [])
     else if c = 8 \<or> c = 0x7f then (q, butlast ed)
     else if c = 0 \<or> length q + length ed = INPUT_BUF then (q, ed)
     else let ed' = ed @ [if c = 13 then 10 else ucast c] in
       if c = 10 \<or> c = 13 \<or> c = 4 \<or> length q + length ed' = INPUT_BUF then (q @ ed', []) else (q, ed'))"

definition in_rep :: "'z cons_st_scheme \<Rightarrow> byte list \<times> byte list \<Rightarrow> bool" where
  "in_rep s qe \<longleftrightarrow> (case qe of (q, ed) \<Rightarrow>
     length (in_buf s) = INPUT_BUF \<and> in_w s = in_r s + of_nat (length q) \<and> in_e s = in_w s + of_nat (length ed)
   \<and> length q + length ed \<le> INPUT_BUF \<and> (\<forall>k < length (q @ ed). in_at s (in_r s + of_nat k) = (q @ ed) ! k)
   \<and> 10 \<notin> set ed)"

lemma idx_mod: "unat ((r :: uint) + of_nat k) mod INPUT_BUF = (unat r + k) mod INPUT_BUF"
  by (rule ring_idx) (simp add: INPUT_BUF_def)

lemma in_at_add: "in_at s (r + of_nat k) = in_buf s ! ((unat r + k) mod INPUT_BUF)"
  by (simp add: in_at_def idx_mod)

lemma in_e_sub: "in_rep s (q, ed) \<Longrightarrow> in_e s - in_r s = of_nat (length q + length ed)"
  by (simp add: in_rep_def)

lemma of_nat_lt_buf: "n \<le> INPUT_BUF \<Longrightarrow> (of_nat n :: uint) < of_nat INPUT_BUF \<longleftrightarrow> n < INPUT_BUF"
  by (simp add: word_less_nat_alt unat_of_nat_small INPUT_BUF_def)

lemma in_edit_empty: "in_rep s (q, ed) \<Longrightarrow> (in_e s = in_w s) \<longleftrightarrow> ed = []"
proof -
  assume "in_rep s (q, ed)"
  then have "in_e s = in_w s + of_nat (length ed)" "length ed \<le> 128" by (auto simp: in_rep_def INPUT_BUF_def)
  moreover have "unat (of_nat (length ed) :: uint) = length ed" using calculation(2) by (simp add: unat_of_nat_small)
  then have "(of_nat (length ed) :: uint) = 0 \<longleftrightarrow> length ed = 0" by (simp add: word_unat_eq_iff)
  ultimately show ?thesis by simp
qed

lemma in_buf_push:
  assumes "in_rep s (q, ed)" "length q + length ed < INPUT_BUF" "k < Suc (length q + length ed)"
  shows "(in_buf s)[unat (in_e s) mod INPUT_BUF := b] ! ((unat (in_r s) + k) mod INPUT_BUF) = (q @ ed @ [b]) ! k"
proof -
  let ?n = "length q + length ed"
  have "in_e s = in_r s + of_nat ?n" using assms(1) by (simp add: in_rep_def)
  then have e: "unat (in_e s) mod INPUT_BUF = (unat (in_r s) + ?n) mod INPUT_BUF" by (simp only: idx_mod)
  have len: "length (in_buf s) = INPUT_BUF" and at: "\<And>k. k < ?n \<Longrightarrow> in_buf s ! ((unat (in_r s) + k) mod INPUT_BUF) = (q @ ed) ! k"
    using assms(1) by (simp_all add: in_rep_def in_at_add)
  have "0 < INPUT_BUF" by (simp add: INPUT_BUF_def)
  show ?thesis
  proof (cases "k = ?n")
    case True
    then show ?thesis using len \<open>0 < INPUT_BUF\<close> by (simp add: e nth_append)
  next
    case False
    with assms(3) have "k < ?n" by simp
    then show ?thesis using at [of k] ring_inj [of k ?n INPUT_BUF "unat (in_r s)"] assms(2)
      by (auto simp: e nth_append)
  qed
qed

lemma in_rep_push:
  assumes "in_rep s (q, ed)" "length q + length ed < INPUT_BUF" "b \<noteq> 10"
  shows "in_rep (s\<lparr>in_buf := (in_buf s)[unat (in_e s) mod INPUT_BUF := b], in_e := in_e s + 1\<rparr>) (q, ed @ [b])"
  using assms in_buf_push [OF assms(1,2), of _ b] by (auto simp: in_rep_def in_at_add)

lemma in_rep_commit:
  assumes "in_rep s (q, ed)" "length q + length ed < INPUT_BUF"
  shows "in_rep (s\<lparr>in_buf := (in_buf s)[unat (in_e s) mod INPUT_BUF := b], in_e := in_e s + 1, in_w := in_e s + 1\<rparr>) (q @ ed @ [b], [])"
  using assms in_buf_push [OF assms(1,2), of _ b] by (auto simp: in_rep_def in_at_add)

lemma in_rep_erase:
  assumes "in_rep s (q, ed)" "ed \<noteq> []"
  shows "in_rep (s\<lparr>in_e := in_e s - 1\<rparr>) (q, butlast ed)" "in_at s (in_e s - 1) \<noteq> 10"
proof -
  from assms(2) obtain ed' b where ed: "ed = ed' @ [b]" by (cases ed rule: rev_cases) auto
  show "in_rep (s\<lparr>in_e := in_e s - 1\<rparr>) (q, butlast ed)"
    using assms(1) by (auto simp: ed in_rep_def in_at_add nth_append)
  have "in_e s - 1 = in_r s + of_nat (length q + length ed')" using assms(1) by (simp add: ed in_rep_def)
  moreover have "in_at s (in_r s + of_nat (length q + length ed')) = b"
    using assms(1) by (auto simp: ed in_rep_def nth_append dest!: spec [of _ "length q + length ed'"])
  moreover have "b \<noteq> 10" using assms(1) by (auto simp: ed in_rep_def)
  ultimately show "in_at s (in_e s - 1) \<noteq> 10" by simp
qed

text \<open>What a key changes, and what it needs.\<close>

definition con_ready :: "'z cons_st_scheme \<Rightarrow> bool" where
  "con_ready s \<longleftrightarrow> con_idle s \<and> free_lock L_ptable s"

lemma in_rep_cong:
  "in_buf t = in_buf s \<Longrightarrow> in_r t = in_r s \<Longrightarrow> in_w t = in_w s \<Longrightarrow> in_e t = in_e s \<Longrightarrow> in_rep t qe = in_rep s qe"
  by (simp add: in_rep_def in_at_def)

lemma in_rep_out: "con_out s t \<Longrightarrow> in_rep t = in_rep s"
  by (auto simp: fun_eq_iff in_rep_def in_at_def con_out_sel)

lemma con_ready_out: "con_out s t \<Longrightarrow> con_ready t = con_ready s"
  by (simp add: con_ready_def con_idle_out con_out_sel)

lemma con_ready_upd [simp]:
  "con_ready (s\<lparr>in_buf := b, in_e := e\<rparr>) = con_ready s" "con_ready (s\<lparr>in_e := e\<rparr>) = con_ready s" "con_ready (s\<lparr>in_buf := b\<rparr>) = con_ready s"
  "con_ready (s\<lparr>in_w := w\<rparr>) = con_ready s" "con_ready (s\<lparr>ptable := p\<rparr>) = con_ready s" "con_ready (s\<lparr>idtr := d\<rparr>) = con_ready s"
  by (simp_all add: con_ready_def con_idle_def settled_def mach_ok_def free_lock_def)

lemma consputc_out: "con_ready s \<Longrightarrow> \<exists>t. consputc c s = Ok () t \<and> con_out s t"
  by (rule prints_consputc [unfolded prints_ok_def, rule_format]) (simp add: con_ready_def con_idle_def)

lemma in_erase_ok:
  assumes "con_ready s" "in_rep s (q, ed)" "ed \<noteq> []"
  shows "\<exists>t. in_erase s = Ok () t \<and> con_ready t \<and> in_rep t (q, butlast ed) \<and> ptable t = ptable s"
proof -
  let ?s = "s\<lparr>in_e := in_e s - 1\<rparr>"
  obtain t where t: "consputc BACKSPACE ?s = Ok () t" "con_out ?s t" using consputc_out [of ?s] assms(1) by auto
  moreover have "con_ready t" "in_rep t (q, butlast ed)" "ptable t = ptable s"
    using con_out_sel [OF t(2)] con_ready_out [OF t(2)] in_rep_out [OF t(2)] in_rep_erase [OF assms(2,3)] assms(1) by auto
  ultimately show ?thesis by (simp add: in_erase_def run_steps)
qed

definition none_asleep :: "chan \<Rightarrow> 'z sched_st_scheme \<Rightarrow> bool" where
  "none_asleep ch s \<longleftrightarrow> (\<forall>i. \<not> asleep_on ch (ptable s) i)"

lemma none_asleep_wakeup [simp]: "none_asleep ch (s\<lparr>ptable := map (wake_proc ch) tab\<rparr>)"
  by (simp add: none_asleep_def)

definition key_ok :: "byte list \<times> byte list \<Rightarrow> byte list \<times> byte list \<Rightarrow> 'z cons_st_scheme \<Rightarrow> 'z cons_st_scheme \<Rightarrow> bool" where
  "key_ok qe qe' s t \<longleftrightarrow> con_ready t \<and> in_rep t qe'
     \<and> (none_asleep ChInput s \<or> fst qe' \<noteq> fst qe \<longrightarrow> none_asleep ChInput t)"

lemma key_ok_same: "con_ready t \<Longrightarrow> in_rep t (q, ed') \<Longrightarrow> ptable t = ptable s \<Longrightarrow> key_ok (q, ed) (q, ed') s t"
  by (simp add: key_ok_def none_asleep_def)

lemma kill_line_ok:
  assumes "con_ready s" "in_rep s (q, ed)"
  shows "wp (loopK (\<lambda>_. bindK (getK (\<lambda>s. in_e s \<noteq> in_w s \<and> in_at s (in_e s - 1) \<noteq> 10)) (\<lambda>more.
         if more then seqK in_erase (ret (Inl ())) else ret (Inr ()))) ()) (\<lambda>_ t. key_ok (q, ed) (q, []) s t) s"
proof (rule wp_loopK [where I = "\<lambda>_ t. \<exists>ed. con_ready t \<and> in_rep t (q, ed) \<and> ptable t = ptable s"
      and m = "\<lambda>_ t. unat (in_e t - in_w t)"])
  show "\<exists>ed. con_ready s \<and> in_rep s (q, ed) \<and> ptable s = ptable s" using assms by blast
next
  fix d :: unit and t :: "'a cons_st_scheme" assume "\<exists>ed. con_ready t \<and> in_rep t (q, ed) \<and> ptable t = ptable s"
  then obtain ed' where t: "con_ready t" "in_rep t (q, ed')" "ptable t = ptable s" by blast
  have m: "unat (in_e u - in_w u) = length xs" if "in_rep u (q, xs)" for u :: "'a cons_st_scheme" and xs
    using that by (auto simp: in_rep_def INPUT_BUF_def unat_of_nat_small)
  show "wp (bindK (getK (\<lambda>s. in_e s \<noteq> in_w s \<and> in_at s (in_e s - 1) \<noteq> 10)) (\<lambda>more.
         if more then seqK in_erase (ret (Inl ())) else ret (Inr ())))
       (\<lambda>r u. case r of Inl d' \<Rightarrow> (\<exists>ed. con_ready u \<and> in_rep u (q, ed) \<and> ptable u = ptable s) \<and> unat (in_e u - in_w u) < unat (in_e t - in_w t)
          | Inr a \<Rightarrow> key_ok (q, ed) (q, []) s u) t"
  proof (cases "ed' = []")
    case True
    with t in_edit_empty [OF t(2)] show ?thesis by (simp add: wp_rules key_ok_same)
  next
    case False
    from in_erase_ok [OF t(1,2) False] obtain u where u: "in_erase t = Ok () u" "con_ready u" "in_rep u (q, butlast ed')" "ptable u = ptable t" by blast
    have "in_e t \<noteq> in_w t \<and> in_at t (in_e t - 1) \<noteq> 10" using in_edit_empty [OF t(2)] in_rep_erase(2) [OF t(2) False] False by simp
    then show ?thesis using u t False m [OF t(2)] m [OF u(3)] by (auto simp: wp_def kdefs)
  qed
qed

lemma in_full:
  assumes "in_rep s (q, ed)" "length q + length ed < INPUT_BUF"
  shows "in_e s + 1 = in_r s + of_nat INPUT_BUF \<longleftrightarrow> Suc (length q + length ed) = INPUT_BUF"
proof -
  have "in_e s + 1 = in_r s + of_nat (Suc (length q + length ed))" using assms(1) by (simp add: in_rep_def)
  moreover have "(of_nat (Suc (length q + length ed)) :: uint) = of_nat INPUT_BUF \<longleftrightarrow> Suc (length q + length ed) = INPUT_BUF"
    using assms(2) unat_of_nat_small [of "Suc (length q + length ed)", where 'a = 32] unat_of_nat_small [of INPUT_BUF, where 'a = 32]
    by (simp only: word_unat_eq_iff) (simp add: INPUT_BUF_def)
  ultimately show ?thesis by (simp only: add_left_cancel)
qed

lemma byte_ucast_eq: "(c :: uint) < 256 \<Longrightarrow> d < 256 \<Longrightarrow> ucast c = (ucast d :: byte) \<Longrightarrow> c = d"
proof -
  assume "c < 256" "d < 256" "ucast c = (ucast d :: byte)"
  moreover from this have "unat (ucast c :: byte) = unat (ucast d :: byte)" by simp
  ultimately show ?thesis by (simp add: unsigned_ucast_eq take_bit_eq_mod word_less_nat_alt word_unat_eq_iff)
qed

lemma cons_key_ok:
  assumes s: "con_ready s" "in_rep s qe" and c: "c < 256"
  shows "wp (cons_key c) (\<lambda>_ t. key_ok qe (line_key c qe) s t) s"
proof -
  obtain q ed where qe: "qe = (q, ed)" by fastforce
  note s = s [unfolded qe]
  consider "c = 26" | "c = 16" | "c = 21" | "c = 8 \<or> c = 0x7f" | "c \<notin> {26, 16, 21, 8, 0x7f}" by fastforce
  then show ?thesis
  proof cases
    case 1
    then show ?thesis using s
      by (simp add: qe cons_key_def lidt_def wp_rules line_key_def key_ok_def none_asleep_def in_rep_def in_at_def)
  next
    case 2
    obtain t where "procdump s = Ok () t" "con_out s t" using plk_procdump s by (auto simp: prints_lk_def con_ready_def)
    with 2 s show ?thesis
      by (simp add: qe cons_key_def wp_def line_key_def key_ok_same con_ready_out in_rep_out con_out_sel)
  next
    case 3
    with kill_line_ok [OF s] show ?thesis by (simp add: qe cons_key_def line_key_def)
  next
    case 4
    have k: "line_key c (q, ed) = (q, butlast ed)" "cons_key c = bindK (getK (\<lambda>s. in_e s \<noteq> in_w s)) (\<lambda>more. whenK more in_erase)"
      using 4 by (auto simp: line_key_def cons_key_def)
    show ?thesis
    proof (cases "ed = []")
      case True
      with s in_edit_empty [OF s(2)] show ?thesis unfolding qe k by (simp add: wp_rules key_ok_same)
    next
      case False
      from in_erase_ok [OF s False] in_edit_empty [OF s(2)] False show ?thesis unfolding qe k
        by (auto simp: wp_def kdefs key_ok_same)
    qed
  next
    case 5
    let ?b = "if c = 13 then 10 else c"
    let ?s = "s\<lparr>in_buf := (in_buf s)[unat (in_e s) mod INPUT_BUF := ucast ?b], in_e := in_e s + 1\<rparr>"
    have room: "in_e s - in_r s < of_nat INPUT_BUF \<longleftrightarrow> length q + length ed < INPUT_BUF"
      using s(2) in_e_sub [OF s(2)] of_nat_lt_buf [of "length q + length ed"] by (simp add: in_rep_def)
    show ?thesis
    proof (cases "c = 0 \<or> length q + length ed = INPUT_BUF")
      case True
      with 5 s room show ?thesis by (auto simp: qe cons_key_def line_key_def wp_rules key_ok_same)
    next
      case False
      then have lt: "length q + length ed < INPUT_BUF" using s(2) by (auto simp: in_rep_def)
      obtain t where t: "consputc ?b ?s = Ok () t" "con_out ?s t" using consputc_out [of ?s ?b] s(1) by auto
      let ?eol = "c = 10 \<or> c = 13 \<or> c = 4 \<or> Suc (length q + length ed) = INPUT_BUF"
      have k: "line_key c (q, ed) = (if ?eol then (q @ ed @ [ucast ?b], []) else (q, ed @ [ucast ?b]))"
        using False 5 by (simp add: line_key_def Let_def)
      have eq: "(in_e t = in_r t + of_nat INPUT_BUF) = (Suc (length q + length ed) = INPUT_BUF)"
        using con_out_sel [OF t(2)] in_full [OF s(2) lt] by simp
      have run: "cons_key c s = (if ?eol then seqK (modK (\<lambda>s. s\<lparr>in_w := in_e s\<rparr>)) (wakeup ChInput) t else Ok () t)"
        using 5 False lt room t eq by (auto simp: cons_key_def run_steps run_Ok whenK_def ret_def Let_def)
      have t': "con_ready t" "ptable t = ptable s" "in_rep t = in_rep ?s" "in_e t = in_e s + 1"
        using con_out_sel [OF t(2)] con_ready_out [OF t(2)] in_rep_out [OF t(2)] s(1) by auto
      show ?thesis
      proof (cases ?eol)
        case True
        have "in_rep (t\<lparr>in_w := in_e t, ptable := p\<rparr>) (q @ ed @ [ucast ?b], [])" for p
          by (rule in_rep_cong [THEN iffD2, OF _ _ _ _ in_rep_commit [OF s(2) lt, of "ucast ?b"]]) (simp_all add: con_out_sel [OF t(2)])
        with True t'(1) show ?thesis
          by (simp add: wp_def run k qe run_steps wakeup_eq con_ready_def con_idle_def free_lock_def settled_def mach_ok_def key_ok_def)
      next
        case F: False
        have "ucast c \<noteq> (10 :: byte)" using F c byte_ucast_eq [of c 10] by auto
        with F t' in_rep_push [OF s(2) lt, of "ucast c"] show ?thesis by (auto simp: wp_def run k qe key_ok_same)
      qed
    qed
  qed
qed

lemma cons_keys_ok:
  assumes "con_ready s" "in_rep s qe" "list_all (\<lambda>c. c < 256) cs"
  shows "wp (forK cs cons_key) (\<lambda>_ t. key_ok qe (fold line_key cs qe) s t) s"
  using assms
proof (induction cs arbitrary: s qe)
  case Nil
  then show ?case by (simp add: wp_rules key_ok_def)
next
  case (Cons c cs)
  from cons_key_ok [of s qe c] Cons.prems obtain t where t: "cons_key c s = Ok () t" "key_ok qe (line_key c qe) s t"
    by (auto simp: wp_returns)
  have "wp (forK cs cons_key) (\<lambda>_ u. key_ok (line_key c qe) (fold line_key cs (line_key c qe)) t u) t"
    using t(2) Cons.prems(3) by (intro Cons.IH) (auto simp: key_ok_def)
  then show ?case using t by (auto simp: wp_returns run_Ok key_ok_def)
qed

text \<open>
  C16. The console input is a line discipline. Whatever keys arrive, the ring buffer holds the bytes
  committed for readers followed by the line being edited: a character is appended while the 128 bytes are
  not full, backspace drops the last character of the edited line only, control-U drops the line, and a
  newline, control-D or a full buffer commits it; the free-running 32-bit indices may wrap around. Every key
  is handled without a panic, and when bytes were committed no reader is left asleep.
\<close>

theorem console_line_discipline:
  assumes "con_ready s" and "in_rep s (q, ed)" and "list_all (\<lambda>c. c < 256) cs"
  shows "wp (forK cs cons_key) (\<lambda>_ t. in_rep t (fold line_key cs (q, ed)) \<and> con_ready t
    \<and> (fst (fold line_key cs (q, ed)) \<noteq> q \<longrightarrow> none_asleep ChInput t)) s"
  by (rule wp_mono [OF cons_keys_ok [OF assms]]) (simp add: key_ok_def)

theorem console_line_discipline_witness:
  "wp (forK [104, 105, 8, 111, 13] cons_key) (\<lambda>_ t. in_rep t ([104, 111, 10], []) \<and> none_asleep ChInput t)
     (cons_boot\<lparr>in_r := 0xFFFFFFFE, in_w := 0xFFFFFFFE, in_e := 0xFFFFFFFE\<rparr>)"
proof -
  let ?s = "cons_boot\<lparr>in_r := 0xFFFFFFFE, in_w := 0xFFFFFFFE, in_e := 0xFFFFFFFE\<rparr>"
  have "con_ready ?s" "in_rep ?s ([], [])"
    by (simp_all add: con_ready_def con_idle_def settled_def mach_ok_def free_lock_def cons_boot_def cons_boot_defs in_rep_def INPUT_BUF_def)
  from console_line_discipline [OF this, of "[104, 105, 8, 111, 13]"] show ?thesis
    by (simp add: line_key_def INPUT_BUF_def) (erule wp_mono, simp)
qed

end
