(* ===== verification/Smp.thy ===== *)
theory Smp
  imports Console
begin

text \<open>
  Discovery of the processors at start-up: \<^verbatim>\<open>kernel/mp.c\<close> (the BIOS MultiProcessor tables), \<^verbatim>\<open>kernel/acpi.c\<close>
  (the ACPI tables), and the parts of \<^verbatim>\<open>kernel/lapic.c\<close> and \<^verbatim>\<open>kernel/ioapic.c\<close> that print. The tables are
  bytes of kernel memory, read at the offsets of \<^verbatim>\<open>include/mp.h\<close> and \<^verbatim>\<open>include/acpi.h\<close>.
\<close>

definition load16 :: "mem \<Rightarrow> addr \<Rightarrow> ushort" where
  "load16 m a = word_of_bytes (bytes_at m a 2)"

section \<open>kernel/lapic.c and kernel/ioapic.c\<close>

text \<open>\<open>ra\<close> is the return address that \<^verbatim>\<open>cpunum\<close> prints.\<close>

definition cpunum :: "uint \<Rightarrow> (nat, 'z cons_st_scheme) kern" where
  "cpunum ra =
    bindK (getK ifl) (\<lambda>fl.
    seqK (whenK fl
           (bindK (getK cpunum_n) (\<lambda>n.
            seqK (modK (\<lambda>s. s\<lparr>cpunum_n := n + 1\<rparr>))
                 (whenK (n = 0) (cprintf (''cpu called from %x with interrupts enabled'' @ [CHR 0x0A]) [CInt ra])))))
   (bindK (getK lapic) (\<lambda>la.
      if la = 0 then ret 0
      else
        bindK (mmread (la + 0x20)) (\<lambda>r.
        getK (\<lambda>s. case find (\<lambda>n. drop_bit 24 r = ucast (apicid (cpus s ! n))) [0..<nat (ncpu s)] of
                     Some n \<Rightarrow> n | None \<Rightarrow> 0)))))"

definition ioapicinit :: "(unit, 'z cons_st_scheme) kern" where
  "ioapicinit =
    bindK (getK ismp) (\<lambda>mp. whenK mp
     (seqK (modK (\<lambda>s. s\<lparr>ioapic := IO2V 0xFEC00000\<rparr>))
     (bindK (ioapicread 1) (\<lambda>ver.
      bindK (ioapicread 0) (\<lambda>idr.
      bindK (getK ioapicid) (\<lambda>want.
      seqK (whenK (drop_bit 24 idr \<noteq> ucast want)
             (cprintf (''ioapicinit: id isn'' @ [CHR 0x27] @ ''t equal to ioapicid; not a MP'' @ [CHR 0x0A]) []))
           (forK [0..<unat (drop_bit 16 ver AND 0xFF) + 1] (\<lambda>i.
              seqK (ioapicwrite (0x10 + 2 * of_nat i) (0x00010000 OR of_nat (T_IRQ0 + i)))
                   (ioapicwrite (0x10 + 2 * of_nat i + 1) 0)))))))))"

section \<open>kernel/mp.c\<close>

definition mpbcpu :: "'z cons_st_scheme \<Rightarrow> nat" where
  "mpbcpu s = bcpu s"

definition mpsum :: "mem \<Rightarrow> addr \<Rightarrow> nat \<Rightarrow> byte" where
  "mpsum m a len = sum_list (bytes_at m a len)"

text \<open>The null pointer is \<open>None\<close>. \<^verbatim>\<open>sizeof(struct mp)\<close> is 16.\<close>

definition mpsearch1 :: "mem \<Rightarrow> uint \<Rightarrow> nat \<Rightarrow> addr option" where
  "mpsearch1 m a len =
    find (\<lambda>p. bytes_at m p 4 = ascii ''_MP_'' \<and> mpsum m p 16 = 0)
      (map (\<lambda>i. p2v (ucast a) + of_nat (16 * i)) [0..<(len + 15) div 16])"

definition mpsearch :: "mem \<Rightarrow> addr option" where
  "mpsearch m =
    (let bda = p2v 0x400;
         p = push_bit 4 (push_bit 8 (ucast (m (bda + 0x0F))) OR ucast (m (bda + 0x0E))) :: uint
     in if p \<noteq> 0
        then (case mpsearch1 m p 1024 of Some mp \<Rightarrow> Some mp | None \<Rightarrow> mpsearch1 m 0xF0000 0x10000)
        else let q = (push_bit 8 (ucast (m (bda + 0x14))) OR ucast (m (bda + 0x13))) * 1024 :: uint
             in (case mpsearch1 m (q - 1024) 1024 of Some mp \<Rightarrow> Some mp | None \<Rightarrow> mpsearch1 m 0xF0000 0x10000))"

definition mpconfig :: "mem \<Rightarrow> (addr \<times> addr) option" where
  "mpconfig m =
    (case mpsearch m of None \<Rightarrow> None
     | Some mp \<Rightarrow>
        if load32 m (mp + 4) = 0 then None
        else let conf = p2v (ucast (load32 m (mp + 4))) in
          if bytes_at m conf 4 \<noteq> ascii ''PCMP'' then None
          else if m (conf + 6) \<noteq> 1 \<and> m (conf + 6) \<noteq> 4 then None
          else if mpsum m conf (unat (load16 m (conf + 4))) \<noteq> 0 then None
          else Some (conf, mp))"

text \<open>A new processor in \<^verbatim>\<open>cpus\<close>; an index beyond \<^verbatim>\<open>NCPU\<close> is undefined in C.\<close>

definition add_cpu :: "byte \<Rightarrow> (unit, 'z cons_st_scheme) kern" where
  "add_cpu apic =
    bindK (getK ncpu) (\<lambda>n.
      if n \<ge> int NCPU then panic ''undefined: cpus''
      else modK (\<lambda>s. s\<lparr>cpus := (cpus s)[nat n := (cpus s ! nat n)\<lparr>cpu_id := word_of_int n, apicid := apic\<rparr>], ncpu := n + 1\<rparr>))"

text \<open>One turn of the loop over the configuration entries; the unknown entry leaves \<^verbatim>\<open>p\<close> as it is.\<close>

definition mpentry :: "addr \<Rightarrow> (addr, 'z cons_st_scheme) kern" where
  "mpentry p =
    bindK (getK (\<lambda>s. bytes_at (mem s) p 4)) (\<lambda>b.
      if b ! 0 = 0 then
        bindK (getK ncpu) (\<lambda>n.
        seqK (cprintf (''mpinit ncpu=%d apicid=%d'' @ [CHR 0x0A]) [CInt (word_of_int n), CInt (ucast (b ! 1))])
       (seqK (whenK (b ! 3 AND 0x02 \<noteq> 0) (modK (\<lambda>s. s\<lparr>bcpu := nat n\<rparr>)))
       (seqK (add_cpu (b ! 1))
             (ret (p + 20)))))
      else if b ! 0 = 2 then
        seqK (modK (\<lambda>s. s\<lparr>ioapicid := b ! 1\<rparr>)) (ret (p + 8))
      else if b ! 0 = 1 \<or> b ! 0 = 3 \<or> b ! 0 = 4 then ret (p + 8)
      else
        seqK (cprintf (''mpinit: unknown config type %x'' @ [CHR 0x0A]) [CInt (ucast (b ! 0))])
       (seqK (modK (\<lambda>s. s\<lparr>ismp := False\<rparr>))
             (ret p)))"

definition mpentries :: "addr \<Rightarrow> addr \<Rightarrow> (unit, 'z cons_st_scheme) kern" where
  "mpentries p e = loopK (\<lambda>p. if p < e then bindK (mpentry p) (\<lambda>q. ret (Inl q)) else ret (Inr ())) p"

definition mpinit :: "(unit, 'z cons_st_scheme) kern" where
  "mpinit =
    seqK (modK (\<lambda>s. s\<lparr>bcpu := 0\<rparr>))
   (bindK (getK (\<lambda>s. mpconfig (mem s))) (\<lambda>r.
    case r of None \<Rightarrow> ret ()
    | Some (conf, mp) \<Rightarrow>
        seqK (modK (\<lambda>s. s\<lparr>ismp := True, lapic := IO2V (ucast (load32 (mem s) (conf + 36)))\<rparr>))
       (bindK (getK (\<lambda>s. ucast (load16 (mem s) (conf + 4)))) (\<lambda>len.
        seqK (mpentries (conf + 44) (conf + len))
       (bindK (getK ismp) (\<lambda>ok.
          if \<not> ok then modK (\<lambda>s. s\<lparr>ncpu := 1, lapic := 0, ioapicid := 0\<rparr>)
          else
            bindK (getK (\<lambda>s. mem s (mp + 12))) (\<lambda>imcrp.
            whenK (imcrp \<noteq> 0)
              (seqK (outb 0x22 0x70)
              (bindK (inb 0x23) (\<lambda>b. outb 0x23 (b OR 1)))))))))))"

section \<open>kernel/acpi.c\<close>

definition scan_rdsp :: "mem \<Rightarrow> uint \<Rightarrow> nat \<Rightarrow> addr option" where
  "scan_rdsp m base len =
    find (\<lambda>p. bytes_at m p 8 = ascii ''RSD PTR '' \<and> mpsum m p 20 = 0)
      (map (\<lambda>i. p2v (ucast base) + of_nat (4 * i)) [0..<if len < 36 then 0 else (len - 36) div 4 + 1])"

definition find_rdsp :: "mem \<Rightarrow> addr option" where
  "find_rdsp m =
    (let pa = push_bit 4 (ucast (load16 m (p2v 0x40E))) :: uint
     in case (if pa \<noteq> 0 then scan_rdsp m pa 1024 else None) of
          Some r \<Rightarrow> Some r | None \<Rightarrow> scan_rdsp m 0xE0000 0x20000)"

text \<open>The \<^verbatim>\<open>switch\<close> of \<^verbatim>\<open>acpi_config_smp\<close> on the entry at \<open>p\<close>; the result is the new \<^verbatim>\<open>nioapic\<close>.\<close>

definition madt_entry :: "addr \<Rightarrow> uint \<Rightarrow> uint \<Rightarrow> (uint, 'z cons_st_scheme) kern" where
  "madt_entry p len nio =
    bindK (getK mem) (\<lambda>m.
      if m p = 0 then
        if len < 8 \<or> load32 m (p + 4) AND 1 = 0 then ret nio
        else
          bindK (getK ncpu) (\<lambda>n.
          seqK (cprintf (''acpi: cpu#%d apicid %d'' @ [CHR 0x0A]) [CInt (word_of_int n), CInt (ucast (m (p + 3)))])
         (seqK (add_cpu (m (p + 3))) (ret nio)))
      else if m p = 1 then
        if len < 12 then ret nio
        else
          seqK (cprintf (''acpi: ioapic#%d @%x id=%d base=%d'' @ [CHR 0x0A])
                 [CInt nio, CInt (load32 m (p + 4)), CInt (ucast (m (p + 2))), CInt (load32 m (p + 8))])
         (seqK (if nio \<noteq> 0 then cprintf ''warning: multiple ioapics are not supported'' []
                else modK (\<lambda>s. s\<lparr>ioapicid := m (p + 2)\<rparr>))
               (ret (nio + 1)))
      else ret nio)"

definition madt_loop :: "addr \<Rightarrow> addr \<Rightarrow> (unit, 'z cons_st_scheme) kern" where
  "madt_loop p e =
    loopK (\<lambda>(p, nio).
      bindK (getK mem) (\<lambda>m.
        if \<not> p < e \<or> e - p < 2 \<or> e - p < ucast (m (p + 1)) then ret (Inr ())
        else bindK (madt_entry p (ucast (m (p + 1))) nio) (\<lambda>nio'. ret (Inl (p + ucast (m (p + 1)), nio'))))) (p, 0)"

definition acpi_config_smp :: "addr option \<Rightarrow> (uint, 'z cons_st_scheme) kern" where
  "acpi_config_smp madt =
    (case madt of None \<Rightarrow> ret (- 1)
     | Some a \<Rightarrow>
        bindK (getK mem) (\<lambda>m.
          if load32 m (a + 4) < 44 then ret (- 1)
          else
            seqK (madt_loop (a + 44) (a + ucast (load32 m (a + 4))))
           (bindK (getK ncpu) (\<lambda>n.
              if n \<noteq> 0 then
                seqK (modK (\<lambda>s. s\<lparr>ismp := True, lapic := IO2V (ucast (load32 m (a + 36)))\<rparr>)) (ret 0)
              else ret (- 1)))))"

definition PHYSLIMIT :: uint where
  "PHYSLIMIT = 0x80000000"

text \<open>The search for the \<^verbatim>\<open>APIC\<close> table: \<open>None\<close> when an entry is not mapped, else the last match.\<close>

fun rsdt_scan :: "mem \<Rightarrow> uint list \<Rightarrow> addr option \<Rightarrow> addr option option" where
  "rsdt_scan m [] madt = Some madt"
| "rsdt_scan m (a # as) madt =
    (if a > PHYSLIMIT then None
     else rsdt_scan m as (if bytes_at m (p2v (ucast a)) 4 = ascii ''APIC'' then Some (p2v (ucast a)) else madt))"

definition acpiinit :: "(uint, 'z cons_st_scheme) kern" where
  "acpiinit =
    bindK (getK mem) (\<lambda>m.
    let notmapped = seqK (cprintf (''acpi: tables above 0x%x not mapped.'' @ [CHR 0x0A]) [CInt PHYSLIMIT]) (ret (- 1)) in
    case find_rdsp m of None \<Rightarrow> panic ''undefined: null pointer''
    | Some rdsp \<Rightarrow>
        if load32 m (rdsp + 16) > PHYSLIMIT then notmapped
        else
          let rsdt = p2v (ucast (load32 m (rdsp + 16)));
              count = ucast ((ucast (load32 m (rsdt + 4)) - 36 :: uintp) div 4) :: uint;
              entries = map (\<lambda>n. load32 m (rsdt + 36 + of_nat (4 * n))) [0..<unat count]
          in case rsdt_scan m entries None of
               None \<Rightarrow> notmapped
             | Some madt \<Rightarrow> acpi_config_smp madt)"

end
