(* ===== verification/Vm.thy ===== *)
theory Vm
  imports Smp
begin

text \<open>
  Virtual memory: \<^verbatim>\<open>kernel/vm.c\<close> (the routines of the 64-bit build, without \<^verbatim>\<open>loaduvm\<close>, which reads a file) and
  \<^verbatim>\<open>kernel/vm64.c\<close>. Page tables are arrays of 64-bit entries in kernel memory; a pointer to an entry is its
  address and 0 is the null pointer. The last section is how the kernel reaches user memory: through the
  page tables that \<^verbatim>\<open>cr3\<close> points to, a page fault in kernel mode being the panic of \<^verbatim>\<open>trap\<close>.
\<close>

section \<open>State and constants\<close>

text \<open>
  The page directories of the kernel, the processor registers that \<^verbatim>\<open>vm64.c\<close> sets, and three objects that the
  linker provides: the interrupt entry points and the images of \<^verbatim>\<open>initcode\<close> and \<^verbatim>\<open>entryother\<close>.
\<close>

record vm_st = cons_st +
  kpml4 :: addr
  kpdpt :: addr
  iopgdir :: addr
  kpgdir0 :: addr
  kpgdir1 :: addr
  cr3 :: addr
  gdtr :: "addr \<times> ushort"
  trsel :: ushort
  fsbase :: uintp
  vectors :: "nat \<Rightarrow> addr"
  initcode :: "byte list"
  entryother :: "byte list"
  entry32mp :: addr

definition PTE_P :: uintp where "PTE_P = 0x001"
definition PTE_W :: uintp where "PTE_W = 0x002"
definition PTE_U :: uintp where "PTE_U = 0x004"
definition PTE_PWT :: uintp where "PTE_PWT = 0x008"
definition PTE_PCD :: uintp where "PTE_PCD = 0x010"
definition PTE_PS :: uintp where "PTE_PS = 0x080"

definition PTE_ADDR :: "uintp \<Rightarrow> addr" where
  "PTE_ADDR pte = pte AND NOT 0xFFF"

definition PTE_FLAGS :: "uintp \<Rightarrow> uintp" where
  "PTE_FLAGS pte = pte AND 0xFFF"

definition PDX :: "addr \<Rightarrow> addr" where
  "PDX va = drop_bit 21 va AND 0x1FF"

definition PTX :: "addr \<Rightarrow> addr" where
  "PTX va = drop_bit 12 va AND 0x1FF"

definition NPDENTRIES :: nat where
  "NPDENTRIES = 512"

definition NPTENTRIES :: nat where
  "NPTENTRIES = 512"

text \<open>An access through a null pointer, which no caller survives, stops the model.\<close>

definition nonnull :: "addr \<Rightarrow> ('a, 's) kern \<Rightarrow> ('a, 's) kern" where
  [kdefs]: "nonnull a m = (if a = 0 then panic ''undefined: null pointer'' else m)"

definition upd_mem :: "(mem \<Rightarrow> mem) \<Rightarrow> (unit, 'z kmem_st_scheme) kern" where
  [kdefs]: "upd_mem f = modK (\<lambda>s. s\<lparr>mem := f (mem s)\<rparr>)"

definition ld64 :: "addr \<Rightarrow> (uintp, 'z kmem_st_scheme) kern" where
  [kdefs]: "ld64 a = getK (\<lambda>s. load64 (mem s) a)"

definition st64 :: "addr \<Rightarrow> uintp \<Rightarrow> (unit, 'z kmem_st_scheme) kern" where
  [kdefs]: "st64 a w = upd_mem (\<lambda>m. store64 m a w)"

section \<open>kernel/vm.c: walking and building page tables\<close>

definition walkpgdir :: "addr \<Rightarrow> addr \<Rightarrow> bool \<Rightarrow> (addr, 'z kmem_st_scheme) kern" where
  "walkpgdir pgd va alloc =
    (let pde = pgd + 8 * PDX va in
     bindK (ld64 pde) (\<lambda>e.
       if e AND PTE_P \<noteq> 0 then ret (p2v (PTE_ADDR e) + 8 * PTX va)
       else if \<not> alloc then ret 0
       else bindK kalloc (\<lambda>pgtab.
         if pgtab = 0 then ret 0
         else
           seqK (upd_mem (\<lambda>m. memset m pgtab 0 4096))
          (seqK (st64 pde (v2p pgtab OR PTE_P OR PTE_W OR PTE_U))
                (ret (pgtab + 8 * PTX va))))))"

definition mappages :: "addr \<Rightarrow> addr \<Rightarrow> uintp \<Rightarrow> addr \<Rightarrow> uintp \<Rightarrow> (uint, 'z kmem_st_scheme) kern" where
  "mappages pgd va len pa perm =
    (let lst = PGROUNDDOWN (va + len - 1) in
     loopK (\<lambda>(a, pa).
       bindK (walkpgdir pgd a True) (\<lambda>pte.
         if pte = 0 then ret (Inr (- 1))
         else bindK (ld64 pte) (\<lambda>e.
           if e AND PTE_P \<noteq> 0 then panic ''remap''
           else
             seqK (st64 pte (pa OR perm OR PTE_P))
                  (ret (if a = lst then Inr 0 else Inl (a + PGSIZE, pa + PGSIZE))))))
       (PGROUNDDOWN va, pa))"

definition deallocuvm :: "addr \<Rightarrow> uintp \<Rightarrow> uintp \<Rightarrow> (uint, 'z kmem_st_scheme) kern" where
  "deallocuvm pgd oldsz newsz =
    (if newsz \<ge> oldsz then ret (ucast oldsz)
     else
       loopK (\<lambda>a.
         if \<not> a < oldsz then ret (Inr (ucast newsz))
         else bindK (walkpgdir pgd a False) (\<lambda>pte.
           if pte = 0 then ret (Inl (a + of_nat (NPTENTRIES - 1) * PGSIZE + PGSIZE))
           else bindK (ld64 pte) (\<lambda>e.
             if e AND PTE_P \<noteq> 0 then
               if PTE_ADDR e = 0 then panic ''kfree''
               else
                 seqK (kfree (p2v (PTE_ADDR e)))
                (seqK (st64 pte 0)
                      (ret (Inl (a + PGSIZE))))
             else ret (Inl (a + PGSIZE)))))
         (PGROUNDUP newsz))"

definition allocuvm :: "addr \<Rightarrow> uint \<Rightarrow> uint \<Rightarrow> (uint, 'z cons_st_scheme) kern" where
  "allocuvm pgd oldsz newsz =
    (if ucast newsz \<ge> KERNBASE then ret 0
     else if newsz < oldsz then ret oldsz
     else
       loopK (\<lambda>a.
         if \<not> a < ucast newsz then ret (Inr newsz)
         else bindK kalloc (\<lambda>pg.
           if pg = 0 then
             seqK (cprintf (''allocuvm out of memory'' @ [CHR 0x0A]) [])
            (seqK (deallocuvm pgd (ucast newsz) (ucast oldsz))
                  (ret (Inr 0)))
           else
             seqK (upd_mem (\<lambda>m. memset m pg 0 4096))
            (seqK (mappages pgd a PGSIZE (v2p pg) (PTE_W OR PTE_U))
                  (ret (Inl (a + PGSIZE))))))
         (PGROUNDUP (ucast oldsz)))"

definition freevm :: "addr \<Rightarrow> (unit, 'z kmem_st_scheme) kern" where
  "freevm pgd =
    (if pgd = 0 then panic ''freevm: no pgdir''
     else
       seqK (deallocuvm pgd 0x3fa00000 0)
      (seqK (forK [0..<NPDENTRIES - 2] (\<lambda>i.
               bindK (ld64 (pgd + of_nat (8 * i))) (\<lambda>e.
               whenK (e AND PTE_P \<noteq> 0) (kfree (p2v (PTE_ADDR e))))))
            (kfree pgd)))"

definition clearpteu :: "addr \<Rightarrow> addr \<Rightarrow> (unit, 'z kmem_st_scheme) kern" where
  "clearpteu pgd uva =
    bindK (walkpgdir pgd uva False) (\<lambda>pte.
      if pte = 0 then panic ''clearpteu''
      else bindK (ld64 pte) (\<lambda>e. st64 pte (e AND NOT PTE_U)))"

definition inituvm :: "addr \<Rightarrow> byte list \<Rightarrow> uint \<Rightarrow> (unit, 'z kmem_st_scheme) kern" where
  "inituvm pgd code n =
    (if ucast n \<ge> PGSIZE then panic ''inituvm: more than a page''
     else bindK kalloc (\<lambda>pg.
       nonnull pg
         (seqK (upd_mem (\<lambda>m. memset m pg 0 4096))
         (seqK (mappages pgd 0 PGSIZE (v2p pg) (PTE_W OR PTE_U))
               (upd_mem (\<lambda>m. write_bytes m pg (take (unat n) code)))))))"

definition uva2ka :: "addr \<Rightarrow> addr \<Rightarrow> (addr, 'z kmem_st_scheme) kern" where
  "uva2ka pgd uva =
    bindK (walkpgdir pgd uva False) (\<lambda>pte.
      nonnull pte (bindK (ld64 pte) (\<lambda>e.
        ret (if e AND PTE_P = 0 then 0 else if e AND PTE_U = 0 then 0 else p2v (PTE_ADDR e)))))"

text \<open>The source of \<^verbatim>\<open>copyout\<close> is given by its \<^verbatim>\<open>len\<close> bytes.\<close>

definition copyout :: "addr \<Rightarrow> uint \<Rightarrow> byte list \<Rightarrow> (uint, 'z kmem_st_scheme) kern" where
  "copyout pgd va bs =
    loopK (\<lambda>(va, bs).
      if bs = [] then ret (Inr 0)
      else
        let va0 = PGROUNDDOWN (ucast va) in
        bindK (uva2ka pgd va0) (\<lambda>pa0.
          if pa0 = 0 then ret (Inr (- 1))
          else
            let n = min (4096 - unat (ucast va - va0)) (length bs) in
            seqK (upd_mem (\<lambda>m. write_bytes m (pa0 + (ucast va - va0)) (take n bs)))
                 (ret (Inl (ucast (va0 + PGSIZE), drop n bs)))))
      (va, bs)"

section \<open>kernel/vm64.c\<close>

definition mkgate :: "mem \<Rightarrow> addr \<Rightarrow> nat \<Rightarrow> uintp \<Rightarrow> uint \<Rightarrow> bool \<Rightarrow> mem" where
  "mkgate m idt n kva pl istrap =
    (let a = idt + of_nat (16 * n);
         trapf = (if istrap then 0x8F00 else 0x8E00) :: uint;
         w0 = ucast (kva AND 0xFFFF) OR push_bit 16 (push_bit 3 1);
         w1 = ucast (kva AND 0xFFFF0000) OR trapf OR push_bit 13 (pl AND 3);
         w2 = ucast (drop_bit 32 kva)
     in store32 (store32 (store32 (store32 m a w0) (a + 4) w1) (a + 8) w2) (a + 12) 0)"

definition tss_set_rsp :: "mem \<Rightarrow> addr \<Rightarrow> nat \<Rightarrow> uintp \<Rightarrow> mem" where
  "tss_set_rsp m tss n rsp =
    store32 (store32 m (tss + of_nat (4 * (n * 2 + 1))) (ucast rsp)) (tss + of_nat (4 * (n * 2 + 2))) (ucast (drop_bit 32 rsp))"

definition tss_set_ist :: "mem \<Rightarrow> addr \<Rightarrow> nat \<Rightarrow> uintp \<Rightarrow> mem" where
  "tss_set_ist m tss n ist =
    store32 (store32 m (tss + of_nat (4 * (n * 2 + 7))) (ucast ist)) (tss + of_nat (4 * (n * 2 + 8))) (ucast (drop_bit 32 ist))"

text \<open>\<^verbatim>\<open>tvinit\<close> and \<^verbatim>\<open>idtinit\<close> do nothing in the 64-bit build.\<close>

definition tvinit :: "(unit, 'z vm_st_scheme) kern" where
  "tvinit = ret ()"

definition idtinit :: "(unit, 'z vm_st_scheme) kern" where
  "idtinit = ret ()"

text \<open>The segment descriptors that \<^verbatim>\<open>seginit\<close> writes, with the task state segment at \<open>tss\<close>.\<close>

definition gdt_entries :: "addr \<Rightarrow> uintp list" where
  "gdt_entries tss =
    [0x0000000000000000,
     0x0020980000000000,
     0x0000920000000000,
     0x0000000000000000,
     0x0020F80000000000,
     0x0000F20000000000,
     0x0067 OR push_bit 16 (tss AND 0xFFFFFF) OR push_bit 40 0x00E9 OR push_bit 56 (drop_bit 24 tss AND 0xFF),
     drop_bit 32 tss]"

definition seginit :: "uint \<Rightarrow> (unit, 'z vm_st_scheme) kern" where
  "seginit ra =
    bindK kalloc (\<lambda>idt. nonnull idt
   (seqK (upd_mem (\<lambda>m. memset m idt 0 4096))
   (bindK (getK vectors) (\<lambda>vec.
    seqK (upd_mem (\<lambda>m. fold (\<lambda>n m. mkgate m idt n (vec n) 0 False) [0..<256] m))
   (seqK (upd_mem (\<lambda>m. mkgate m idt 64 (vec 64) 3 True))
   (seqK (lidt idt 4096)
   (bindK kalloc (\<lambda>local. nonnull local
   (seqK (upd_mem (\<lambda>m. memset m local 0 4096))
   (seqK (upd_mem (\<lambda>m. store32 m (local + 1024 + 4 * 16) 0x00680000))
   (seqK (modK (\<lambda>s. s\<lparr>fsbase := local + 2048\<rparr>))
   (bindK (cpunum ra) (\<lambda>c.
    seqK (modK (\<lambda>s. s\<lparr>cpus := (cpus s)[c := (cpus s ! c)\<lparr>cpu_local := local\<rparr>], cpu := c, curproc := None\<rparr>))
   (seqK (forK [0..<8] (\<lambda>i. st64 (local + of_nat (8 * i)) (gdt_entries (local + 1024) ! i)))
         (modK (\<lambda>s. s\<lparr>gdtr := (local, 8 * 8 - 1), trsel := push_bit 3 6\<rparr>))))))))))))))))"

definition setupkvm :: "(addr, 'z vm_st_scheme) kern" where
  "setupkvm =
    bindK kalloc (\<lambda>pml4.
    bindK kalloc (\<lambda>pdpt.
    bindK kalloc (\<lambda>pgd.
    nonnull pml4 (nonnull pdpt (nonnull pgd
   (seqK (upd_mem (\<lambda>m. memset m pml4 0 4096))
   (seqK (upd_mem (\<lambda>m. memset m pdpt 0 4096))
   (seqK (upd_mem (\<lambda>m. memset m pgd 0 4096))
   (bindK (getK kpdpt) (\<lambda>k.
    seqK (st64 (pml4 + 8 * 511) (v2p k OR PTE_P OR PTE_W OR PTE_U))
   (seqK (st64 pml4 (v2p pdpt OR PTE_P OR PTE_W OR PTE_U))
   (seqK (st64 pdpt (v2p pgd OR PTE_P OR PTE_W OR PTE_U))
   (seqK (st64 (pgd + 8 * 511) (pml4 OR PTE_P))
   (seqK (st64 (pgd + 8 * 510) (pdpt OR PTE_P))
         (ret pgd)))))))))))))))"

definition switchkvm :: "(unit, 'z vm_st_scheme) kern" where
  "switchkvm = modK (\<lambda>s. s\<lparr>cr3 := v2p (kpml4 s)\<rparr>)"

definition kvmalloc :: "(unit, 'z vm_st_scheme) kern" where
  "kvmalloc =
    bindK kalloc (\<lambda>k4.
    bindK kalloc (\<lambda>k3.
    bindK kalloc (\<lambda>k0.
    bindK kalloc (\<lambda>k1.
    bindK kalloc (\<lambda>io.
    seqK (modK (\<lambda>s. s\<lparr>kpml4 := k4, kpdpt := k3, kpgdir0 := k0, kpgdir1 := k1, iopgdir := io\<rparr>))
   (nonnull k4 (nonnull k3 (nonnull io (nonnull k0 (nonnull k1
   (seqK (upd_mem (\<lambda>m. memset m k4 0 4096))
   (seqK (upd_mem (\<lambda>m. memset m k3 0 4096))
   (seqK (upd_mem (\<lambda>m. memset m io 0 4096))
   (seqK (st64 (k4 + 8 * 511) (v2p k3 OR PTE_P OR PTE_W))
   (seqK (st64 (k3 + 8 * 511) (v2p k1 OR PTE_P OR PTE_W))
   (seqK (st64 (k3 + 8 * 510) (v2p k0 OR PTE_P OR PTE_W))
   (seqK (st64 (k3 + 8 * 509) (v2p io OR PTE_P OR PTE_W))
   (seqK (forK [0..<NPDENTRIES] (\<lambda>n.
            seqK (st64 (k0 + of_nat (8 * n)) (push_bit 21 (of_nat n) OR PTE_PS OR PTE_P OR PTE_W))
                 (st64 (k1 + of_nat (8 * n)) (push_bit 21 (of_nat (n + 512)) OR PTE_PS OR PTE_P OR PTE_W))))
   (seqK (forK [0..<16] (\<lambda>n.
            st64 (io + of_nat (8 * n)) ((DEVSPACE + push_bit 21 (of_nat n)) OR PTE_PS OR PTE_P OR PTE_W OR PTE_PWT OR PTE_PCD)))
         switchkvm)))))))))))))))))))"

definition KSTACKSIZE :: addr where
  "KSTACKSIZE = 4096"

text \<open>The stack pointer in the task state is that of the running process, as the source has it.\<close>

definition switchuvm :: "proc \<Rightarrow> (unit, 'z vm_st_scheme) kern" where
  "switchuvm p =
    seqK pushcli
   (if pgdir p = 0 then panic ''switchuvm: no pgdir''
    else
      bindK (getK (\<lambda>s. cpu_local (cpus s ! cpu s) + 1024)) (\<lambda>tss.
      bindK (getK (\<lambda>s. kstack (myproc s) + KSTACKSIZE)) (\<lambda>top.
      seqK (upd_mem (\<lambda>m. tss_set_rsp m tss 0 top))
     (bindK (ld64 (pgdir p + 8 * 511)) (\<lambda>e.
      seqK (modK (\<lambda>s. s\<lparr>cr3 := v2p (PTE_ADDR e)\<rparr>))
           popcli)))))"

text \<open>\<^verbatim>\<open>copyuvm\<close> of \<^verbatim>\<open>kernel/vm.c\<close>; the label \<^verbatim>\<open>bad\<close> is the result \<open>Inr None\<close> of the loop.\<close>

definition copyuvm :: "addr \<Rightarrow> uint \<Rightarrow> (addr, 'z vm_st_scheme) kern" where
  "copyuvm pgd psz =
    bindK setupkvm (\<lambda>d.
      if d = 0 then ret 0
      else
        bindK (loopK (\<lambda>i.
            if \<not> i < ucast psz then ret (Inr True)
            else bindK (walkpgdir pgd i False) (\<lambda>pte.
              if pte = 0 then panic ''copyuvm: pte should exist''
              else bindK (ld64 pte) (\<lambda>e.
                if e AND PTE_P = 0 then panic ''copyuvm: page not present''
                else bindK kalloc (\<lambda>pg.
                  if pg = 0 then ret (Inr False)
                  else
                    seqK (upd_mem (\<lambda>m. memmove m pg (p2v (PTE_ADDR e)) 4096))
                   (bindK (mappages d i PGSIZE (v2p pg) (PTE_FLAGS e)) (\<lambda>r.
                      ret (if sint r < 0 then Inr False else Inl (i + PGSIZE)))))))) 0)
          (\<lambda>ok. if ok then ret d else seqK (freevm d) (ret 0)))"

section \<open>Access to user memory\<close>

text \<open>
  The four-level walk of the processor from the page table register, with 2-megabyte pages at the
  third level: the physical address of a virtual address.
\<close>

definition hw_walk :: "mem \<Rightarrow> addr \<Rightarrow> addr \<Rightarrow> addr option" where
  "hw_walk m root va =
    (let ent = \<lambda>tab sh. load64 m (p2v (PTE_ADDR tab) + 8 * (drop_bit sh va AND 0x1FF));
         e4 = ent root 39; e3 = ent e4 30; e2 = ent e3 21; e1 = ent e2 12
     in if e4 AND PTE_P = 0 \<or> e3 AND PTE_P = 0 \<or> e2 AND PTE_P = 0 then None
        else if e2 AND PTE_PS \<noteq> 0 then Some ((e2 AND NOT 0x1FFFFF) OR (va AND 0x1FFFFF))
        else if e1 AND PTE_P = 0 then None
        else Some (PTE_ADDR e1 OR (va AND 0xFFF)))"

text \<open>
  Where the kernel finds the byte at a virtual address: kernel addresses directly, user addresses through
  the current page table. A page fault of the kernel ends in the panic of \<^verbatim>\<open>trap\<close>.
\<close>

definition kva :: "addr \<Rightarrow> 'z vm_st_scheme \<Rightarrow> addr option" where
  "kva va s = (if va \<ge> KERNBASE then Some va else map_option p2v (hw_walk (mem s) (cr3 s) va))"

definition uload :: "addr \<Rightarrow> (byte, 'z vm_st_scheme) kern" where
  "uload va = bindK (getK (kva va)) (\<lambda>r. case r of None \<Rightarrow> panic ''trap'' | Some a \<Rightarrow> getK (\<lambda>s. mem s a))"

definition ustore :: "addr \<Rightarrow> byte \<Rightarrow> (unit, 'z vm_st_scheme) kern" where
  "ustore va b = bindK (getK (kva va)) (\<lambda>r. case r of None \<Rightarrow> panic ''trap'' | Some a \<Rightarrow> upd_mem (\<lambda>m. m(a := b)))"

fun uload_n :: "addr \<Rightarrow> nat \<Rightarrow> (byte list, 'z vm_st_scheme) kern" where
  "uload_n va 0 = ret []"
| "uload_n va (Suc n) = bindK (uload va) (\<lambda>b. bindK (uload_n (va + 1) n) (\<lambda>bs. ret (b # bs)))"

fun ustore_n :: "addr \<Rightarrow> byte list \<Rightarrow> (unit, 'z vm_st_scheme) kern" where
  "ustore_n va [] = ret ()"
| "ustore_n va (b # bs) = seqK (ustore va b) (ustore_n (va + 1) bs)"

end
