(* ===== verification/Aspace.thy ===== *)
theory Aspace
  imports Vm
begin

text \<open>
  The page tables of \<^verbatim>\<open>kernel/vm.c\<close> and \<^verbatim>\<open>kernel/vm64.c\<close> as address spaces. The predicates \<open>aspace\<close> and
  \<open>uspace\<close> relate a page directory in memory to a map from page numbers to entries, with its table pages,
  its frames and the pool of free pages kept apart. The lemmas give each routine its effect on that map:
  \<^verbatim>\<open>walkpgdir\<close> and \<^verbatim>\<open>mappages\<close> on every branch, the loops of \<^verbatim>\<open>allocuvm\<close>, \<^verbatim>\<open>deallocuvm\<close> and \<^verbatim>\<open>freevm\<close>, \<^verbatim>\<open>setupkvm\<close>,
  and the agreement of the map with the walk of the processor.
\<close>

section \<open>Entries of a page of entries\<close>

text \<open>The entry \<open>j\<close> of the table page \<open>p\<close>.\<close>

definition slot :: "addr \<Rightarrow> nat \<Rightarrow> addr" where
  "slot p j = p + of_nat (8 * j)"

lemma unat_slot_off: "j < 512 \<Longrightarrow> i < 8 \<Longrightarrow> unat (of_nat (8 * j) + of_nat i :: addr) = 8 * j + i"
proof -
  assume "j < 512" "i < 8"
  then have "8 * j + i < 2 ^ LENGTH(64)" by simp
  then have "unat (of_nat (8 * j + i) :: addr) = 8 * j + i" by (rule unat_of_nat_small)
  then show ?thesis by simp
qed

lemma slot_dist:
  assumes "j < 512" "k < 512" "j \<noteq> k" "i < 8"
  shows "8 \<le> unat (slot p k + of_nat i - slot p j)"
proof (cases "j < k")
  case True
  have "slot p k + of_nat i - slot p j = of_nat (8 * (k - j) + i)" using True by (simp add: slot_def of_nat_diff algebra_simps)
  moreover have "8 * (k - j) + i < 2 ^ LENGTH(64)" using assms by simp
  ultimately have "unat (slot p k + of_nat i - slot p j) = 8 * (k - j) + i" by (simp only: unat_of_nat_small)
  then show ?thesis using True by simp
next
  case False
  let ?d = "8 * (j - k) - i"
  have d: "0 < ?d" "?d < 8 * 512" using False assms by auto
  define D where "D = (of_nat ?d :: addr)"
  have "slot p k + of_nat i - slot p j = 0 - D" using False assms by (simp add: slot_def D_def of_nat_diff algebra_simps)
  moreover have "unat D = ?d" unfolding D_def using d(2) by (intro unat_of_nat_small) simp
  moreover have "unat (0 - D) = 2 ^ 64 - unat D" using calculation(2) d unat_sub_if_size [of 0 D] by (simp add: word_size)
  ultimately have "unat (slot p k + of_nat i - slot p j) = 2 ^ 64 - ?d" by (simp only:)
  then show ?thesis using d by simp
qed

lemma load_store_slot:
  "j < 512 \<Longrightarrow> k < 512 \<Longrightarrow> load64 (store64 m (slot p j) w) (slot p k) = (if k = j then w else load64 m (slot p k))"
proof (cases "k = j")
  case False
  assume "j < 512" "k < 512"
  with False show ?thesis by (auto intro!: load64_cong store64_other slot_dist)
qed simp

lemma slot_byte: "k < 512 \<Longrightarrow> i < 8 \<Longrightarrow> slot q k + of_nat i = q + (of_nat (8 * k) + of_nat i) \<and> unat (of_nat (8 * k) + of_nat i :: addr) < 4096"
  using unat_slot_off [of k i] by (simp add: slot_def)

lemma store_slot_other:
  assumes "pg_aligned p" "pg_aligned q" "p \<noteq> q" "j < 512" "unat off < 4096"
  shows "store64 m (slot p j) w (q + off) = m (q + off)"
proof (rule store64_other)
  have "4096 \<le> unat (q + off - p)" using assms by (intro page_distance) auto
  moreover have "unat (of_nat (8 * j) :: addr) = 8 * j" using unat_slot_off [of j 0] assms by simp
  ultimately show "8 \<le> unat (q + off - slot p j)" using assms(4) unat_sub_off [of "of_nat (8 * j)" "q + off" p]
    by (simp add: slot_def)
qed

lemma load_store_other_slot:
  assumes "pg_aligned p" "pg_aligned q" "p \<noteq> q" "j < 512" "k < 512"
  shows "load64 (store64 m (slot p j) w) (slot q k) = load64 m (slot q k)"
proof (rule load64_cong)
  fix i :: nat assume "i < 8"
  then show "store64 m (slot p j) w (slot q k + of_nat i) = m (slot q k + of_nat i)"
    using store_slot_other [OF assms(1-4)] slot_byte [OF assms(5)] by metis
qed

lemma load64_zero: "(\<And>i. i < 8 \<Longrightarrow> m (a + of_nat i) = 0) \<Longrightarrow> load64 m a = 0"
  by (rule bit_word_eqI) (auto simp: load64_def bit_word_of_bytes)

lemma load_memset_slot:
  assumes "k < 512"
  shows "load64 (memset m p 0 4096) (slot p k) = 0"
proof (rule load64_zero)
  fix i :: nat assume "i < 8"
  then show "memset m p 0 4096 (slot p k + of_nat i) = 0" using slot_byte [OF assms, of i p] by (simp add: memset_at)
qed

lemma load_memset_other_slot:
  assumes "pg_aligned p" "pg_aligned q" "p \<noteq> q" "k < 512"
  shows "load64 (memset m p c 4096) (slot q k) = load64 m (slot q k)"
proof (rule load64_cong)
  fix i :: nat assume "i < 8"
  then show "memset m p c 4096 (slot q k + of_nat i) = m (slot q k + of_nat i)"
    using memset_other_page [of q p] assms slot_byte [OF assms(4)] by metis
qed

section \<open>Page numbers, entries and flags\<close>

lemma and_mask9: "(x :: addr) AND 0x1FF = of_nat (unat x mod 512)"
proof -
  have "x AND 0x1FF = take_bit 9 x" by (simp add: take_bit_eq_mask mask_eq_exp_minus_1)
  also have "\<dots> = x mod 512" by (simp add: take_bit_eq_mod)
  finally have "unat (x AND 0x1FF) = unat x mod 512" by (simp add: unat_mod)
  moreover have "unat (of_nat (unat x mod 512) :: addr) = unat x mod 512" by (rule unat_of_nat_small) simp
  ultimately show ?thesis by (simp only: word_unat_eq_iff)
qed

lemma unat_drop: "unat (drop_bit 12 (x :: addr)) = unat x div 4096" "unat (drop_bit 21 x) = unat x div 2 ^ 21"
  by (simp_all add: drop_bit_eq_div unat_div)

lemma pde_slot: "unat va < 2 ^ 30 \<Longrightarrow> pgd + 8 * PDX va = slot pgd (unat va div 2 ^ 21)"
  by (simp add: PDX_def slot_def and_mask9 unat_drop)

lemma pte_slot: "t + 8 * PTX va = slot t (unat va div 4096 mod 512)"
  by (simp add: PTX_def slot_def and_mask9 unat_drop)

lemma page_mask: "pg_aligned x \<longleftrightarrow> x AND 0xFFF = 0"
proof -
  have "x AND 0xFFF = take_bit 12 x" by (simp add: take_bit_eq_mask mask_eq_exp_minus_1)
  also have "\<dots> = x mod 4096" by (simp add: take_bit_eq_mod)
  finally show ?thesis by (simp add: pg_aligned_def PGSIZE_def)
qed

lemma and_not_id: "(x :: addr) AND m = 0 \<Longrightarrow> x AND NOT m = x"
proof -
  assume "x AND m = 0"
  then have "\<not> (bit x n \<and> bit m n)" for n using bit_and_iff [of x m n] by simp
  then show ?thesis by (intro bit_word_eqI) (auto simp: bit_simps)
qed

lemma PTE_ADDR_or: "pg_aligned x \<Longrightarrow> f AND NOT 0xFFF = 0 \<Longrightarrow> PTE_ADDR (x OR f) = x"
  unfolding PTE_ADDR_def page_mask bit.conj_disj_distrib2 by (simp only: and_not_id or.right_neutral)

lemma PTE_FLAGS_or: "pg_aligned x \<Longrightarrow> f AND NOT 0xFFF = 0 \<Longrightarrow> PTE_FLAGS (x OR f) = f"
  unfolding PTE_FLAGS_def page_mask bit.conj_disj_distrib2
  using and_not_id [of f "NOT 0xFFF"] by (simp only: bit.double_compl or.left_neutral)

lemma pg_aligned_unat: "pg_aligned x \<longleftrightarrow> 4096 dvd unat x"
  using unat_mod [of x 4096] by (simp add: pg_aligned_def PGSIZE_def word_unat_eq_iff dvd_eq_mod_eq_0)

lemma pg_aligned_diff:
  assumes "pg_aligned p" "pg_aligned q"
  shows "pg_aligned (p - q)" "pg_aligned (p + q)"
proof -
  have d: "4096 dvd unat p" "4096 dvd unat q" "(4096 :: nat) dvd 2 ^ 64" using assms by (simp_all add: pg_aligned_unat)
  have z: "size p = 64" by (simp add: word_size)
  have "4096 dvd unat p - unat q" "4096 dvd unat p + 2 ^ 64 - unat q" using d by (blast intro: dvd_diff_nat dvd_add)+
  then show "pg_aligned (p - q)" unfolding pg_aligned_unat unat_sub_if_size z by (simp only: split: if_split) blast
  show "pg_aligned (p + q)" using d by (simp only: pg_aligned_unat unat_word_ariths) (simp add: dvd_mod)
qed

lemma pg_aligned_v2p: "pg_aligned p \<Longrightarrow> pg_aligned (v2p p)" "pg_aligned p \<Longrightarrow> pg_aligned (p2v p)"
proof -
  have "pg_aligned KERNBASE" by (simp add: pg_aligned_def PGSIZE_def KERNBASE_def)
  then show "pg_aligned p \<Longrightarrow> pg_aligned (v2p p)" "pg_aligned p \<Longrightarrow> pg_aligned (p2v p)"
    unfolding v2p_def p2v_def by (auto intro: pg_aligned_diff)
qed

lemma p2v_v2p [simp]: "p2v (v2p p) = p" "v2p (p2v p) = p"
  by (simp_all add: p2v_def v2p_def)

lemma or_and_absorb: "((x :: uintp) OR y) AND y = y"
  by (rule bit_word_eqI) (auto simp: bit_simps)

lemma or_P: "((x :: uintp) OR PTE_P) AND PTE_P \<noteq> 0"
  by (simp only: or_and_absorb) (simp add: PTE_P_def)

lemma pde_enc:
  assumes "pg_aligned p"
  shows "PTE_ADDR (v2p p OR PTE_P OR PTE_W OR PTE_U) = v2p p" "(v2p p OR PTE_P OR PTE_W OR PTE_U) AND PTE_P \<noteq> 0"
proof -
  have "(PTE_P OR PTE_W OR PTE_U) AND NOT 0xFFF = 0" by (simp add: PTE_P_def PTE_W_def PTE_U_def)
  with PTE_ADDR_or [OF pg_aligned_v2p(1) [OF assms]] show "PTE_ADDR (v2p p OR PTE_P OR PTE_W OR PTE_U) = v2p p"
    by (simp only: or.assoc)
  have "v2p p OR PTE_P OR PTE_W OR PTE_U = (v2p p OR PTE_W OR PTE_U) OR PTE_P" by (simp only: ac_simps)
  then show "(v2p p OR PTE_P OR PTE_W OR PTE_U) AND PTE_P \<noteq> 0" by (simp only: or_P not_False_eq_True)
qed

lemma PGROUNDDOWN_eq: "PGROUNDDOWN x = x - x mod 4096"
proof -
  have m: "PGSIZE - 1 = mask 12" by (simp add: mask_eq_exp_minus_1 PGSIZE_def)
  have "PGROUNDDOWN x = push_bit 12 (drop_bit 12 x)"
    unfolding PGROUNDDOWN_def m by (rule bit_word_eqI) (auto simp: bit_simps)
  moreover have "take_bit 12 x = x mod 4096" by (simp add: take_bit_eq_mod)
  ultimately show ?thesis using bits_ident [of 12 x] by (simp only: eq_diff_eq)
qed

lemma unat_PGROUNDDOWN: "unat (PGROUNDDOWN x) = unat x div 4096 * 4096"
proof -
  have m: "unat (x mod 4096) = unat x mod 4096" using unat_mod [of x 4096] by simp
  then have "x mod 4096 \<le> x" unfolding word_le_nat_alt m by (intro mod_less_eq_dividend)
  from unat_sub [OF this] have "unat (PGROUNDDOWN x) = unat x - unat x mod 4096" unfolding PGROUNDDOWN_eq m .
  then show ?thesis unfolding minus_mod_eq_div_mult .
qed

section \<open>The page pool under page updates\<close>

definition pg_same :: "mem \<Rightarrow> mem \<Rightarrow> addr \<Rightarrow> bool" where
  "pg_same m m' p \<longleftrightarrow> (\<forall>off. unat off < 4096 \<longrightarrow> m' (p + off) = m (p + off))"

lemma pg_same_refl [simp]: "pg_same m m p"
  by (simp add: pg_same_def)

lemma pg_same_trans: "pg_same m m' p \<Longrightarrow> pg_same m' m'' p \<Longrightarrow> pg_same m m'' p"
  by (simp add: pg_same_def)

lemma pg_same_memset: "pg_aligned p \<Longrightarrow> pg_aligned q \<Longrightarrow> p \<noteq> q \<Longrightarrow> pg_same m (memset m p c 4096) q"
  by (simp add: pg_same_def memset_other_page)

lemma pg_same_store: "pg_aligned p \<Longrightarrow> pg_aligned q \<Longrightarrow> p \<noteq> q \<Longrightarrow> j < 512 \<Longrightarrow> pg_same m (store64 m (slot p j) w) q"
  by (simp add: pg_same_def store_slot_other)

lemma pg_same_load: "pg_same m m' p \<Longrightarrow> k < 512 \<Longrightarrow> load64 m' (slot p k) = load64 m (slot p k)"
  unfolding pg_same_def by (rule load64_cong) (metis slot_byte)

lemma slot_0 [simp]: "slot p 0 = p"
  by (simp add: slot_def)

lemma flist_same: "(\<And>p. p \<in> set ps \<Longrightarrow> pg_same m m' p) \<Longrightarrow> flist m a ps \<Longrightarrow> flist m' a ps"
proof (induction ps arbitrary: a)
  case (Cons p ps)
  have "load64 m' p = load64 m p" using pg_same_load [of m m' p 0] Cons.prems(1) [of p] by simp
  with Cons show ?case by simp
qed simp

lemma kmem_rep_mem: "kmem_rep s ps \<Longrightarrow> (\<And>p. p \<in> set ps \<Longrightarrow> pg_same (mem s) m p) \<Longrightarrow> kmem_rep (s\<lparr>mem := m\<rparr>) ps"
  by (auto simp: kmem_rep_def intro: flist_same)

lemma kalloc_take:
  assumes "settled s" "kmem_rep s (p # ps)"
  obtains f where "kalloc s = Ok p (s\<lparr>freelist := f\<rparr>)" "kmem_rep (s\<lparr>freelist := f\<rparr>) ps"
proof
  show "kalloc s = Ok p (s\<lparr>freelist := load64 (mem s) p\<rparr>)"
    using assms by (auto simp: kmem_rep_def kalloc_eq kmem_exit_settled settled_def mach_ok_def)
  show "kmem_rep (s\<lparr>freelist := load64 (mem s) p\<rparr>) ps" using assms by (simp add: kmem_rep_def)
qed

lemma kalloc_empty: "settled s \<Longrightarrow> kmem_rep s [] \<Longrightarrow> kalloc s = Ok 0 s"
  by (simp add: kmem_rep_def kalloc_eq kmem_exit_settled)

lemma kfree_put:
  assumes "settled s" "kmem_rep s ps" "valid_page s p" "p \<notin> set ps"
  obtains m f where "kfree p s = Ok () (s\<lparr>mem := m, freelist := f\<rparr>)" "kmem_rep (s\<lparr>mem := m, freelist := f\<rparr>) (p # ps)"
    "\<And>q. pg_aligned q \<Longrightarrow> q \<noteq> p \<Longrightarrow> pg_same (mem s) m q"
proof -
  let ?m = "store64 (memset (mem s) p 1 4096) p (freelist s)"
  have a: "pg_aligned p" using assms(3) by (simp add: valid_page_def)
  have k: "kfree p s = Ok () (s\<lparr>mem := ?m, freelist := p\<rparr>)"
    using assms by (simp add: kmem_rep_def kfree_eq kmem_exit_settled settled_def mach_ok_def)
  moreover from kalloc.free_ok [OF assms(2-4)] k have "kmem_rep (s\<lparr>mem := ?m, freelist := p\<rparr>) (p # ps)" by (simp add: wp_def)
  moreover have "pg_same (mem s) ?m q" if "pg_aligned q" "q \<noteq> p" for q
    using pg_same_trans [OF pg_same_memset pg_same_store [of p q 0, simplified]] a that by blast
  ultimately show thesis by (rule that)
qed

section \<open>Address spaces\<close>

text \<open>
  The page directory \<open>pgd\<close> as the processor reads it below the last two slots, which hold back pointers.
  \<open>T\<close> maps a directory slot to its table page and \<open>M\<close> a page number to its entry; the table
  pages are distinct pages that are not in the pool \<open>ps\<close>.
\<close>

definition NUPAGE :: nat where
  "NUPAGE = 510 * 512"

definition pte_is :: "uintp \<Rightarrow> uintp option \<Rightarrow> bool" where
  "pte_is w e \<longleftrightarrow> (case e of None \<Rightarrow> w AND PTE_P = 0 | Some e \<Rightarrow> w = e \<and> e AND PTE_P \<noteq> 0)"

definition pt_enc :: "addr \<Rightarrow> uintp" where
  "pt_enc t = v2p t OR PTE_P OR PTE_W OR PTE_U"

definition pt_pages :: "'z kmem_st_scheme \<Rightarrow> addr \<Rightarrow> (nat \<rightharpoonup> addr) \<Rightarrow> addr list \<Rightarrow> bool" where
  "pt_pages s pgd T ps \<longleftrightarrow> settled s \<and> kmem_rep s ps \<and> valid_page s pgd \<and> pgd \<notin> set ps
     \<and> (\<forall>i t. T i = Some t \<longrightarrow> i < 510 \<and> valid_page s t \<and> t \<notin> set ps \<and> t \<noteq> pgd)
     \<and> (\<forall>i j t. T i = Some t \<longrightarrow> T j = Some t \<longrightarrow> i = j)"

definition pt_ents :: "mem \<Rightarrow> addr \<Rightarrow> (nat \<rightharpoonup> addr) \<Rightarrow> (nat \<rightharpoonup> uintp) \<Rightarrow> bool" where
  "pt_ents m pgd T M \<longleftrightarrow>
     (\<forall>i < 510. load64 m (slot pgd i) = (case T i of None \<Rightarrow> 0 | Some t \<Rightarrow> pt_enc t))
   \<and> (\<forall>n < NUPAGE. case T (n div 512) of None \<Rightarrow> M n = None | Some t \<Rightarrow> pte_is (load64 m (slot t (n mod 512))) (M n))
   \<and> dom M \<subseteq> {..<NUPAGE}"

definition aspace :: "'z kmem_st_scheme \<Rightarrow> addr \<Rightarrow> (nat \<rightharpoonup> addr) \<Rightarrow> (nat \<rightharpoonup> uintp) \<Rightarrow> addr list \<Rightarrow> bool" where
  "aspace s pgd T M ps \<longleftrightarrow> pt_pages s pgd T ps \<and> pt_ents (mem s) pgd T M"

lemma aspaceD:
  assumes "aspace s pgd T M ps"
  shows "settled s" "kmem_rep s ps" "valid_page s pgd" "pg_aligned pgd" "pgd \<notin> set ps"
    "T i = Some t \<Longrightarrow> valid_page s t \<and> pg_aligned t \<and> t \<notin> set ps \<and> t \<noteq> pgd \<and> i < 510"
    "T i = Some t \<Longrightarrow> T j = Some t \<Longrightarrow> i = j"
    "i < 510 \<Longrightarrow> load64 (mem s) (slot pgd i) = (case T i of None \<Rightarrow> 0 | Some t \<Rightarrow> pt_enc t)"
    "n < NUPAGE \<Longrightarrow> T (n div 512) = None \<Longrightarrow> M n = None"
    "n < NUPAGE \<Longrightarrow> T (n div 512) = Some t \<Longrightarrow> pte_is (load64 (mem s) (slot t (n mod 512))) (M n)"
    "M n = Some e \<Longrightarrow> n < NUPAGE"
proof -
  show "T i = Some t \<Longrightarrow> T j = Some t \<Longrightarrow> i = j" using assms
    unfolding aspace_def pt_pages_def by blast
  show "n < NUPAGE \<Longrightarrow> T (n div 512) = None \<Longrightarrow> M n = None"
    "n < NUPAGE \<Longrightarrow> T (n div 512) = Some t \<Longrightarrow> pte_is (load64 (mem s) (slot t (n mod 512))) (M n)"
    using assms unfolding aspace_def pt_ents_def by fastforce+
qed (use assms in \<open>auto simp: aspace_def pt_pages_def pt_ents_def valid_page_def\<close>)

lemma pt_enc_simps: "pg_aligned t \<Longrightarrow> PTE_ADDR (pt_enc t) = v2p t" "pg_aligned t \<Longrightarrow> pt_enc t AND PTE_P \<noteq> 0"
  by (simp_all add: pt_enc_def pde_enc)

text \<open>The address \<open>a\<close> lies in page \<open>n\<close>.\<close>

definition in_page :: "addr \<Rightarrow> nat \<Rightarrow> bool" where
  "in_page a n \<longleftrightarrow> unat a div 4096 = n \<and> n < NUPAGE"

lemma in_page_slots:
  assumes "in_page a n"
  shows "pgd + 8 * PDX a = slot pgd (n div 512)" "t + 8 * PTX a = slot t (n mod 512)" "n div 512 < 510"
proof -
  have "unat a < 2 ^ 30" using assms by (auto simp: in_page_def NUPAGE_def)
  moreover have "unat a div 2 ^ 21 = n div 512" using assms by (auto simp: in_page_def div_mult2_eq [symmetric])
  ultimately show "pgd + 8 * PDX a = slot pgd (n div 512)" by (simp add: pde_slot)
qed (use assms in \<open>auto simp: in_page_def NUPAGE_def pte_slot\<close>)

lemma walk_found:
  assumes "aspace s pgd T M ps" "in_page a n" "T (n div 512) = Some t"
  shows "walkpgdir pgd a alloc s = Ok (slot t (n mod 512)) s"
  using aspaceD [OF assms(1)] in_page_slots [OF assms(2)] assms(3) pt_enc_simps [of t]
  by (simp add: walkpgdir_def Let_def ld64_def run_steps ret_def)

lemma walk_none:
  assumes "aspace s pgd T M ps" "in_page a n" "T (n div 512) = None"
  shows "walkpgdir pgd a False s = Ok 0 s"
  using aspaceD(8) [OF assms(1)] in_page_slots [OF assms(2)] assms(3)
  by (simp add: walkpgdir_def Let_def ld64_def run_steps ret_def)

text \<open>The state changes of the routines that build page tables.\<close>

definition kframe :: "'z kmem_st_scheme \<Rightarrow> 'z kmem_st_scheme \<Rightarrow> bool" where
  "kframe s t \<longleftrightarrow> (\<exists>m f. t = s\<lparr>mem := m, freelist := f\<rparr>)"

lemma kframe_refl [simp]: "kframe s s"
  unfolding kframe_def by (rule exI [of _ "mem s"], rule exI [of _ "freelist s"]) simp

lemma kframe_trans: "kframe s t \<Longrightarrow> kframe t u \<Longrightarrow> kframe s u"
  by (clarsimp simp: kframe_def) blast

lemma kframe_upd [simp]: "kframe s (s\<lparr>mem := m, freelist := f\<rparr>)" "kframe s (s\<lparr>mem := m\<rparr>)" "kframe s (s\<lparr>freelist := f\<rparr>)"
  "kframe s (s\<lparr>freelist := f, mem := m\<rparr>)"
proof -
  have a: "kframe s (s\<lparr>mem := m, freelist := f\<rparr>)" for m f unfolding kframe_def by blast
  then show "kframe s (s\<lparr>mem := m, freelist := f\<rparr>)" .
  show "kframe s (s\<lparr>mem := m\<rparr>)" using a [where m = m and f = "freelist s"] by simp
  show "kframe s (s\<lparr>freelist := f\<rparr>)" using a [where m = "mem s" and f = f] by simp
  have "s\<lparr>freelist := f, mem := m\<rparr> = s\<lparr>mem := m, freelist := f\<rparr>" by simp
  then show "kframe s (s\<lparr>freelist := f, mem := m\<rparr>)" by (simp only: a)
qed

lemma kframe_sel:
  assumes "kframe s t"
  shows "valid_page t = valid_page s" "settled t = settled s" "free_lock l t = free_lock l s"
  using assms by (auto simp: kframe_def valid_page_def settled_def mach_ok_def free_lock_def fun_eq_iff)

lemma pt_pages_new:
  assumes "pt_pages s pgd T (p # ps)" "kmem_rep t ps" "kframe s t" "i < 510" "T i = None"
  shows "pt_pages t pgd (T(i \<mapsto> p)) ps"
proof -
  have "p \<noteq> pgd" "p \<notin> set ps" "valid_page s p" "T j \<noteq> Some p" for j using assms(1) by (auto simp: pt_pages_def kmem_rep_def)
  then show ?thesis using assms unfolding pt_pages_def by (auto simp: kframe_sel)
qed

lemma walk_full:
  assumes "aspace s pgd T M []" "in_page a n" "T (n div 512) = None"
  shows "walkpgdir pgd a True s = Ok 0 s"
  using aspaceD(1,2,8) [OF assms(1)] in_page_slots [OF assms(2)] assms(3) kalloc_empty [of s]
  by (simp add: walkpgdir_def Let_def ld64_def run_steps run_Ok ret_def)

lemma walk_new:
  assumes A: "aspace s pgd T M (p # ps)" and n: "in_page a n" "T (n div 512) = None"
  shows "\<exists>t. walkpgdir pgd a True s = Ok (slot p (n mod 512)) t \<and> aspace t pgd (T(n div 512 \<mapsto> p)) M ps \<and> kframe s t
    \<and> (\<forall>q. pg_aligned q \<and> q \<noteq> pgd \<and> q \<noteq> p \<longrightarrow> pg_same (mem s) (mem t) q)"
proof -
  note D = aspaceD [OF A]
  let ?i = "n div 512" and ?m = "store64 (memset (mem s) p 0 4096) (slot pgd (n div 512)) (pt_enc p)"
  from kalloc_take [OF D(1,2)] obtain f where f: "kalloc s = Ok p (s\<lparr>freelist := f\<rparr>)" "kmem_rep (s\<lparr>freelist := f\<rparr>) ps" .
  let ?t = "s\<lparr>freelist := f, mem := ?m\<rparr>"
  have p: "valid_page s p" "pg_aligned p" "p \<noteq> pgd" "p \<noteq> 0" "p \<notin> set ps" "distinct (p # ps)"
    using D(2,5) by (auto simp: kmem_rep_def valid_page_def)
  note i = in_page_slots [OF n(1)]
  have "walkpgdir pgd a True s = Ok (slot p (n mod 512)) ?t"
    using D(8) [OF i(3)] n(2) i f(1) p(4)
    by (simp add: walkpgdir_def Let_def ld64_def st64_def upd_mem_def run_steps run_Ok ret_def pt_enc_def)
  moreover have same: "pg_same (mem s) ?m q" if "pg_aligned q" "q \<noteq> pgd" "q \<noteq> p" for q
    using pg_same_trans [OF pg_same_memset pg_same_store] that p D(4) i(3) by auto
  moreover have "aspace ?t pgd (T(?i \<mapsto> p)) M ps"
  proof -
    have al: "pg_aligned q \<and> q \<noteq> pgd \<and> q \<noteq> p" if "q \<in> set ps" for q
      using that D(2,5) p by (auto simp: kmem_rep_def valid_page_def)
    have rep: "kmem_rep ?t ps" by (rule kmem_rep_mem [OF f(2)]) (use al same in auto)
    have "pt_pages ?t pgd (T(?i \<mapsto> p)) ps" using A i(3) n(2)
      by (intro pt_pages_new [OF _ rep, of s]) (simp_all add: aspace_def)
    moreover have "pt_ents ?m pgd (T(?i \<mapsto> p)) M" unfolding pt_ents_def
    proof (intro conjI allI impI)
      fix i :: nat assume "i < 510"
      then show "load64 ?m (slot pgd i) = (case (T(?i \<mapsto> p)) i of None \<Rightarrow> 0 | Some t \<Rightarrow> pt_enc t)"
        using load_store_slot [of ?i i] load_memset_other_slot [of p pgd i] D(4) D(8) [of i] p i(3) by simp
    next
      fix k assume k: "k < NUPAGE"
      show "case (T(?i \<mapsto> p)) (k div 512) of None \<Rightarrow> M k = None | Some t \<Rightarrow> pte_is (load64 ?m (slot t (k mod 512))) (M k)"
      proof (cases "k div 512 = ?i")
        case True
        then show ?thesis using D(4) D(9) [OF k] n(2) p i(3) load_store_other_slot [of pgd p ?i "k mod 512"]
          by (simp add: load_memset_slot pte_is_def)
      next
        case False
        then show ?thesis using D(9) [OF k] D(10) [OF k] D(6) pg_same_load [OF same]
          by (cases "T (k div 512)") (auto simp: p)
      qed
    qed (use D(11) in auto)
    ultimately show ?thesis by (simp add: aspace_def)
  qed
  ultimately show ?thesis by auto
qed

text \<open>The table of page \<open>n\<close>, taken from the pool if there is none yet.\<close>

fun with_table :: "nat \<Rightarrow> (nat \<rightharpoonup> addr) \<times> addr list \<Rightarrow> (nat \<rightharpoonup> addr) \<times> addr list" where
  "with_table n (T, ps) = (if T (n div 512) = None then (T(n div 512 \<mapsto> hd ps), tl ps) else (T, ps))"

definition can_table :: "nat \<Rightarrow> (nat \<rightharpoonup> addr) \<Rightarrow> addr list \<Rightarrow> bool" where
  "can_table n T ps \<longleftrightarrow> T (n div 512) \<noteq> None \<or> ps \<noteq> []"

definition others_same :: "'z kmem_st_scheme \<Rightarrow> addr \<Rightarrow> (nat \<rightharpoonup> addr) \<Rightarrow> addr list \<Rightarrow> 'z kmem_st_scheme \<Rightarrow> bool" where
  "others_same s pgd T ps t \<longleftrightarrow>
     (\<forall>q. pg_aligned q \<longrightarrow> q \<noteq> pgd \<longrightarrow> q \<notin> ran T \<longrightarrow> q \<notin> set ps \<longrightarrow> pg_same (mem s) (mem t) q)"

lemma walk_alloc:
  assumes "aspace s pgd T M ps" "in_page a n" "can_table n T ps" "with_table n (T, ps) = (T', ps')"
  obtains t pt where "walkpgdir pgd a True s = Ok (slot pt (n mod 512)) t" "aspace t pgd T' M ps'"
    "T' (n div 512) = Some pt" "kframe s t" "others_same s pgd T ps t"
proof (cases "T (n div 512)")
  case None
  then obtain p qs where ps: "ps = p # qs" using assms(3) by (cases ps) (auto simp: can_table_def)
  from walk_new [OF assms(1) [unfolded ps] assms(2) None] obtain t where
    "walkpgdir pgd a True s = Ok (slot p (n mod 512)) t" "aspace t pgd (T(n div 512 \<mapsto> p)) M qs" "kframe s t"
    "\<forall>q. pg_aligned q \<and> q \<noteq> pgd \<and> q \<noteq> p \<longrightarrow> pg_same (mem s) (mem t) q" by blast
  with None assms(4) show ?thesis by (intro that [of p t]) (auto simp: ps others_same_def)
next
  case (Some pt)
  with walk_found [OF assms(1,2) Some] assms show ?thesis by (intro that [of pt s]) (auto simp: others_same_def)
qed

lemma set_pte:
  assumes A: "aspace s pgd T M ps" and n: "n < NUPAGE" "T (n div 512) = Some pt"
  shows "aspace (s\<lparr>mem := store64 (mem s) (slot pt (n mod 512)) w\<rparr>) pgd T (M(n := if w AND PTE_P = 0 then None else Some w)) ps"
    "pg_aligned q \<Longrightarrow> q \<noteq> pt \<Longrightarrow> pg_same (mem s) (store64 (mem s) (slot pt (n mod 512)) w) q"
proof -
  note D = aspaceD [OF A]
  let ?m = "store64 (mem s) (slot pt (n mod 512)) w"
  have pt: "pg_aligned pt" "pt \<noteq> pgd" "pt \<notin> set ps" "valid_page s pt" using D(6) [OF n(2)] by auto
  show same: "pg_same (mem s) ?m q" if "pg_aligned q" "q \<noteq> pt" for q using that pt by (auto intro!: pg_same_store)
  have "pg_same (mem s) ?m q" if "q \<in> set ps" for q
    using that pt D(2) by (intro same) (auto simp: kmem_rep_def valid_page_def)
  then have "kmem_rep (s\<lparr>mem := ?m\<rparr>) ps" by (intro kmem_rep_mem D(2))
  then have "pt_pages (s\<lparr>mem := ?m\<rparr>) pgd T ps" using A by (simp add: aspace_def pt_pages_def settled_def mach_ok_def)
  moreover have "pt_ents ?m pgd T (M(n := if w AND PTE_P = 0 then None else Some w))" unfolding pt_ents_def
  proof (intro conjI allI impI)
    fix i :: nat assume "i < 510"
    then show "load64 ?m (slot pgd i) = (case T i of None \<Rightarrow> 0 | Some t \<Rightarrow> pt_enc t)"
      using D(8) [of i] pg_same_load [OF same [OF D(4)], of i] pt(2) by simp
  next
    fix k assume k: "k < NUPAGE"
    show "case T (k div 512) of None \<Rightarrow> (M(n := if w AND PTE_P = 0 then None else Some w)) k = None
      | Some t \<Rightarrow> pte_is (load64 ?m (slot t (k mod 512))) ((M(n := if w AND PTE_P = 0 then None else Some w)) k)"
    proof (cases "T (k div 512)")
      case None
      with D(9) [OF k] n(2) show ?thesis by auto
    next
      case (Some t)
      show ?thesis
      proof (cases "k = n")
        case True
        then show ?thesis using n(2) by (simp add: pte_is_def)
      next
        case False
        have "load64 ?m (slot t (k mod 512)) = load64 (mem s) (slot t (k mod 512))"
        proof (cases "t = pt")
          case True
          with D(7) Some n(2) have "k div 512 = n div 512" by blast
          with False have "k mod 512 \<noteq> n mod 512" by (metis div_mod_decomp)
          with True show ?thesis by (simp add: load_store_slot)
        next
          case False
          with D(6) [OF Some] show ?thesis by (intro pg_same_load same) auto
        qed
        with False D(10) [OF k Some] Some show ?thesis by simp
      qed
    qed
  qed (use D(11) n in auto)
  ultimately show "aspace (s\<lparr>mem := ?m\<rparr>) pgd T (M(n := if w AND PTE_P = 0 then None else Some w)) ps" by (simp add: aspace_def)
qed

lemma pte_at:
  assumes "aspace s pgd T M ps" "n < NUPAGE" "T (n div 512) = Some pt"
  shows "load64 (mem s) (slot pt (n mod 512)) AND PTE_P \<noteq> 0 \<longleftrightarrow> M n \<noteq> None"
    "M n = Some e \<Longrightarrow> load64 (mem s) (slot pt (n mod 512)) = e"
  using aspaceD(10) [OF assms] by (auto simp: pte_is_def split: option.splits)

lemma slot_nonnull:
  assumes "valid_page s p" "j < 512"
  shows "slot p j \<noteq> 0"
proof
  assume "slot p j = 0"
  define x where "x = (of_nat (8 * j) :: addr)"
  have x: "unat x = 8 * j" using unat_slot_off [of j 0] assms(2) by (simp add: x_def)
  from \<open>slot p j = 0\<close> have "p = - x" by (simp add: slot_def x_def eq_neg_iff_add_eq_0)
  then have "v2p p = 0x80000000 - x" by (simp add: v2p_def KERNBASE_def)
  moreover have "unat (0x80000000 - x) = 0x80000000 - 8 * j"
    using unat_sub [where a = "0x80000000" and b = x] x assms(2) by (simp add: word_le_nat_alt)
  ultimately have "unat (v2p p) = 0x80000000 - 8 * j" by simp
  with assms show False by (auto simp: valid_page_def PHYSTOP_def word_less_nat_alt)
qed

lemma last_page: 
  assumes "in_page a n" "pg_aligned a"
  shows "PGROUNDDOWN a = a" "PGROUNDDOWN (a + PGSIZE - 1) = a"
proof -
  have a: "unat a = 4096 * n" "unat a < 2 ^ 30" using assms by (auto simp: in_page_def pg_aligned_unat NUPAGE_def)
  then show "PGROUNDDOWN a = a" by (simp add: word_unat_eq_iff unat_PGROUNDDOWN)
  have "a + PGSIZE - 1 = a + 4095" by (simp add: PGSIZE_def)
  moreover have "unat (a + 4095) = 4096 * n + 4095" using a by (simp add: unat_plus_if_size word_size)
  ultimately show "PGROUNDDOWN (a + PGSIZE - 1) = a" by (simp add: word_unat_eq_iff unat_PGROUNDDOWN a(1))
qed

text \<open>\<^verbatim>\<open>mappages\<close> of one page: every branch.\<close>

lemma mappages_step:
  assumes A: "aspace s pgd T M ps" and n: "in_page a n" "pg_aligned a"
  shows "\<not> can_table n T ps \<Longrightarrow> mappages pgd a PGSIZE pa perm s = Ok (- 1) s"
    "M n \<noteq> None \<Longrightarrow> mappages pgd a PGSIZE pa perm s = Panic ''remap''"
    "M n = None \<Longrightarrow> can_table n T ps \<Longrightarrow> with_table n (T, ps) = (T', ps') \<Longrightarrow>
      \<exists>t. mappages pgd a PGSIZE pa perm s = Ok 0 t \<and> aspace t pgd T' (M(n \<mapsto> pa OR perm OR PTE_P)) ps' \<and> kframe s t
        \<and> others_same s pgd T ps t"
proof -
  note lp = last_page [OF n]
  have nn: "n < NUPAGE" using n(1) by (simp add: in_page_def)
  note run = mappages_def Let_def lp loopK_unfold run_steps run_Ok ret_def
  show "mappages pgd a PGSIZE pa perm s = Ok (- 1) s" if "\<not> can_table n T ps"
    using that walk_full [OF _ n(1), of s pgd T M] A by (auto simp: can_table_def run)
  show "mappages pgd a PGSIZE pa perm s = Panic ''remap''" if m: "M n \<noteq> None"
  proof -
    have "T (n div 512) \<noteq> None" using aspaceD(9) [OF A nn] m by auto
    then obtain pt where pt: "T (n div 512) = Some pt" by auto
    from aspaceD(6) [OF A pt] have "slot pt (n mod 512) \<noteq> 0" using slot_nonnull [of s] by auto
    with walk_found [OF A n(1) pt] pte_at(1) [OF A nn pt] m show ?thesis by (simp add: run ld64_def bindK_def getK_def panic_def)
  qed
  assume m: "M n = None" "can_table n T ps" "with_table n (T, ps) = (T', ps')"
  from walk_alloc [OF A n(1) m(2,3)] obtain t pt where t: "walkpgdir pgd a True s = Ok (slot pt (n mod 512)) t" "aspace t pgd T' M ps'"
    "T' (n div 512) = Some pt" "kframe s t" "others_same s pgd T ps t" .
  let ?w = "pa OR perm OR PTE_P" let ?u = "t\<lparr>mem := store64 (mem t) (slot pt (n mod 512)) ?w\<rparr>"
  have ne: "slot pt (n mod 512) \<noteq> 0" using slot_nonnull [of t] aspaceD(6) [OF t(2,3)] by auto
  have "?w AND PTE_P \<noteq> 0" by (metis or.assoc or_P)
  with set_pte [OF t(2) nn t(3), of ?w] have "aspace ?u pgd T' (M(n \<mapsto> ?w)) ps'" by simp
  moreover have "mappages pgd a PGSIZE pa perm s = Ok 0 ?u"
    using t(1) ne pte_at(1) [OF t(2) nn t(3)] m(1) by (simp add: run ld64_def st64_def upd_mem_def)
  moreover have "kframe s ?u" by (rule kframe_trans [OF t(4)]) simp
  moreover have "others_same s pgd T ps ?u"
  proof -
    have "pt \<in> ran T \<or> pt \<in> set ps" using m t(3) by (auto simp: can_table_def split: if_splits intro: ranI)
    with t(5) set_pte(2) [OF t(2) nn t(3)] show ?thesis unfolding others_same_def by (auto intro: pg_same_trans)
  qed
  ultimately show "\<exists>t. mappages pgd a PGSIZE pa perm s = Ok 0 t \<and> aspace t pgd T' (M(n \<mapsto> ?w)) ps' \<and> kframe s t \<and> others_same s pgd T ps t"
    by blast
qed

section \<open>User pages\<close>

definition fr :: "uintp \<Rightarrow> addr" where
  "fr e = p2v (PTE_ADDR e)"

text \<open>Every mapped page has a frame of its own, which is neither a table nor in the pool.\<close>

definition frames_ok :: "'z kmem_st_scheme \<Rightarrow> addr \<Rightarrow> (nat \<rightharpoonup> addr) \<Rightarrow> (nat \<rightharpoonup> uintp) \<Rightarrow> addr list \<Rightarrow> bool" where
  "frames_ok s pgd T M ps \<longleftrightarrow> KERNBASE < kend s
   \<and> (\<forall>n e. M n = Some e \<longrightarrow> valid_page s (fr e) \<and> fr e \<notin> set ps \<and> fr e \<noteq> pgd \<and> fr e \<notin> ran T)
   \<and> (\<forall>n k e f. M n = Some e \<longrightarrow> M k = Some f \<longrightarrow> fr e = fr f \<longrightarrow> n = k)"

definition uspace :: "'z kmem_st_scheme \<Rightarrow> addr \<Rightarrow> (nat \<rightharpoonup> addr) \<Rightarrow> (nat \<rightharpoonup> uintp) \<Rightarrow> addr list \<Rightarrow> bool" where
  "uspace s pgd T M ps \<longleftrightarrow> aspace s pgd T M ps \<and> frames_ok s pgd T M ps"

lemma aspace_upd:
  assumes A: "aspace s pgd T M ps" and t: "kframe s t" "kmem_rep t ps'" and out: "pgd \<notin> set ps'" "ran T \<inter> set ps' = {}"
    and same: "\<And>q. q = pgd \<or> q \<in> ran T \<Longrightarrow> pg_same (mem s) (mem t) q"
  shows "aspace t pgd T M ps'"
proof -
  note D = aspaceD [OF A]
  have "t' \<notin> set ps'" if "T i = Some t'" for i t' using that out(2) by (auto intro: ranI)
  then have "pt_pages t pgd T ps'" using A t out(1) by (simp add: aspace_def pt_pages_def kframe_sel)
  moreover have "pt_ents (mem t) pgd T M" unfolding pt_ents_def
  proof (intro conjI allI impI)
    fix i :: nat assume i: "i < 510"
    have "load64 (mem t) (slot pgd i) = load64 (mem s) (slot pgd i)" using i same by (intro pg_same_load) auto
    then show "load64 (mem t) (slot pgd i) = (case T i of None \<Rightarrow> 0 | Some t \<Rightarrow> pt_enc t)" using D(8) [OF i] by simp
  next
    fix n assume n: "n < NUPAGE"
    show "case T (n div 512) of None \<Rightarrow> M n = None | Some p \<Rightarrow> pte_is (load64 (mem t) (slot p (n mod 512))) (M n)"
    proof (cases "T (n div 512)")
      case (Some p)
      have "load64 (mem t) (slot p (n mod 512)) = load64 (mem s) (slot p (n mod 512))"
        using same Some by (intro pg_same_load) (auto intro: ranI)
      with D(10) [OF n Some] Some show ?thesis by simp
    qed (use D(9) [OF n] in simp)
  qed (use D(11) in auto)
  ultimately show ?thesis by (simp add: aspace_def)
qed

lemma aspace_ran: "aspace s pgd T M ps \<Longrightarrow> t \<in> ran T \<Longrightarrow> pg_aligned t \<and> t \<notin> set ps \<and> t \<noteq> pgd \<and> valid_page s t"
  by (auto simp: ran_def dest: aspaceD(6))

lemma aspace_pool: "aspace s pgd T M ps \<Longrightarrow> p \<in> set ps \<Longrightarrow> pg_aligned p \<and> valid_page s p \<and> p \<noteq> pgd \<and> p \<notin> ran T"
  by (auto simp: aspace_def pt_pages_def kmem_rep_def valid_page_def ran_def)

lemma aspace_free:
  assumes A: "aspace s pgd T M ps" and p: "valid_page s p" "p \<notin> set ps" "p \<noteq> pgd" "p \<notin> ran T"
  obtains m f where "kfree p s = Ok () (s\<lparr>mem := m, freelist := f\<rparr>)" "aspace (s\<lparr>mem := m, freelist := f\<rparr>) pgd T M (p # ps)"
    "\<And>q. pg_aligned q \<Longrightarrow> q \<noteq> p \<Longrightarrow> pg_same (mem s) m q"
proof -
  note D = aspaceD [OF A]
  from kfree_put [OF D(1,2) p(1,2)] obtain m f where k: "kfree p s = Ok () (s\<lparr>mem := m, freelist := f\<rparr>)"
    "kmem_rep (s\<lparr>mem := m, freelist := f\<rparr>) (p # ps)" "\<And>q. pg_aligned q \<Longrightarrow> q \<noteq> p \<Longrightarrow> pg_same (mem s) m q" by metis
  have "aspace (s\<lparr>mem := m, freelist := f\<rparr>) pgd T M (p # ps)"
    using D(4,5) p k(3) aspace_ran [OF A] by (intro aspace_upd [OF A _ k(2)]) auto
  with k(1,3) show thesis by (intro that)
qed

text \<open>One page is given back.\<close>

definition dealloc_body :: "addr \<Rightarrow> uintp \<Rightarrow> uintp \<Rightarrow> addr \<Rightarrow> (addr + uint, 'z kmem_st_scheme) kern" where
  "dealloc_body pgd oldsz newsz a =
    (if \<not> a < oldsz then ret (Inr (ucast newsz))
     else bindK (walkpgdir pgd a False) (\<lambda>pte.
       if pte = 0 then ret (Inl (a + of_nat (NPTENTRIES - 1) * PGSIZE + PGSIZE))
       else bindK (ld64 pte) (\<lambda>e.
         if e AND PTE_P \<noteq> 0 then
           if PTE_ADDR e = 0 then panic ''kfree''
           else
             seqK (kfree (p2v (PTE_ADDR e)))
            (seqK (st64 pte 0)
                  (ret (Inl (a + PGSIZE))))
         else ret (Inl (a + PGSIZE)))))"

lemma deallocuvm_eq:
  "deallocuvm pgd oldsz newsz =
    (if newsz \<ge> oldsz then ret (ucast oldsz) else loopK (dealloc_body pgd oldsz newsz) (PGROUNDUP newsz))"
  by (simp add: deallocuvm_def dealloc_body_def [abs_def])

lemma dealloc_one:
  assumes U: "uspace s pgd T M ps" and n: "in_page a n" "a < oldsz" and T: "T (n div 512) = Some pt"
  shows "\<exists>t ps'. dealloc_body pgd oldsz newsz a s = Ok (Inl (a + PGSIZE)) t \<and> uspace t pgd T (M(n := None)) ps' \<and> kframe s t
     \<and> set ps' = set ps \<union> (case M n of None \<Rightarrow> {} | Some e \<Rightarrow> {fr e})
     \<and> (\<forall>q. pg_aligned q \<longrightarrow> q \<noteq> pt \<longrightarrow> (\<forall>e. M n = Some e \<longrightarrow> q \<noteq> fr e) \<longrightarrow> pg_same (mem s) (mem t) q)"
proof -
  have A: "aspace s pgd T M ps" and F: "frames_ok s pgd T M ps" using U by (simp_all add: uspace_def)
  have nn: "n < NUPAGE" using n(1) by (simp add: in_page_def)
  have ne: "slot pt (n mod 512) \<noteq> 0" using slot_nonnull [of s] aspaceD(6) [OF A T] by auto
  note w = walk_found [OF A n(1) T, of False]
  show ?thesis
  proof (cases "M n")
    case None
    then have "M(n := None) = M" by auto
    with None U ne w pte_at(1) [OF A nn T] n(2) show ?thesis
      by (intro exI [of _ s] exI [of _ ps]) (simp add: dealloc_body_def run_Ok run_steps ld64_def ret_def)
  next
    case (Some e)
    have e: "load64 (mem s) (slot pt (n mod 512)) = e" "e AND PTE_P \<noteq> 0" using pte_at [OF A nn T] Some by auto
    have f: "valid_page s (fr e)" "fr e \<notin> set ps" "fr e \<noteq> pgd" "fr e \<notin> ran T" and kb: "KERNBASE < kend s"
      using F Some unfolding frames_ok_def by blast+
    have f0: "PTE_ADDR e \<noteq> 0" using f(1) kb by (auto simp: valid_page_def fr_def p2v_def)
    from aspace_free [OF A f(1-4)] obtain m fl where k: "kfree (fr e) s = Ok () (s\<lparr>mem := m, freelist := fl\<rparr>)"
      "aspace (s\<lparr>mem := m, freelist := fl\<rparr>) pgd T M (fr e # ps)" "\<And>q. pg_aligned q \<Longrightarrow> q \<noteq> fr e \<Longrightarrow> pg_same (mem s) m q" by metis
    let ?t = "s\<lparr>mem := m, freelist := fl\<rparr>\<lparr>mem := store64 m (slot pt (n mod 512)) 0\<rparr>"
    have "dealloc_body pgd oldsz newsz a s = Ok (Inl (a + PGSIZE)) ?t"
      using w ne e n(2) f0 k(1) by (simp add: dealloc_body_def run_Ok run_steps ld64_def st64_def upd_mem_def ret_def fr_def)
    moreover have "aspace ?t pgd T (M(n := None)) (fr e # ps)" using set_pte(1) [OF k(2) nn T, of 0] by simp
    moreover have "frames_ok ?t pgd T (M(n := None)) (fr e # ps)"
      using F Some unfolding frames_ok_def by (auto split: if_splits)
    moreover have "pg_same (mem s) (mem ?t) q" if "pg_aligned q" "q \<noteq> pt" "q \<noteq> fr e" for q
      using pg_same_trans [OF k(3) [OF that(1,3)]] set_pte(2) [OF k(2) nn T that(1,2)] by simp
    ultimately show ?thesis using Some kframe_trans [of s "s\<lparr>mem := m, freelist := fl\<rparr>" ?t]
      by (intro exI [of _ ?t] exI [of _ "fr e # ps"]) (auto simp: uspace_def)
  qed
qed

text \<open>The number of pages that \<open>usz\<close> bytes take.\<close>

definition npages :: "addr \<Rightarrow> nat" where
  "npages usz = (unat usz + 4095) div 4096"

lemma npages_iff: "4096 * n < unat usz \<longleftrightarrow> n < npages usz"
proof -
  have "n < npages usz \<longleftrightarrow> Suc n * 4096 \<le> unat usz + 4095"
    unfolding npages_def Suc_le_eq [symmetric] by (rule less_eq_div_iff_mult_less_eq) simp
  then show ?thesis by auto
qed

definition pgaddr :: "nat \<Rightarrow> addr" where
  "pgaddr n = of_nat (4096 * n)"

lemma unat_pgaddr: "n < 2 ^ 40 \<Longrightarrow> unat (pgaddr n) = 4096 * n"
  unfolding pgaddr_def by (rule unat_of_nat_small) simp

lemma pgaddr_less: "n < 2 ^ 40 \<Longrightarrow> pgaddr n < usz \<longleftrightarrow> n < npages usz"
  by (simp add: word_less_nat_alt unat_pgaddr npages_iff)

lemma pgaddr_page: "n < NUPAGE \<Longrightarrow> in_page (pgaddr n) n" "n < NUPAGE \<Longrightarrow> pg_aligned (pgaddr n)"
  by (simp_all add: in_page_def unat_pgaddr NUPAGE_def pg_aligned_unat)

lemma pgaddr_next: "pgaddr n + PGSIZE = pgaddr (Suc n)"
  "pgaddr n + of_nat (NPTENTRIES - 1) * PGSIZE + PGSIZE = pgaddr (n + 512)"
  by (simp_all add: pgaddr_def PGSIZE_def NPTENTRIES_def)

lemma PGROUNDUP_pages:
  assumes "unat usz + 4095 < 2 ^ 64"
  shows "PGROUNDUP usz = pgaddr (npages usz)"
proof -
  have "PGROUNDUP usz = PGROUNDDOWN (usz + 4095)" by (simp add: PGROUNDUP_def PGROUNDDOWN_def PGSIZE_def)
  then have "unat (PGROUNDUP usz) = unat (usz + 4095) div 4096 * 4096" by (simp only: unat_PGROUNDDOWN)
  also have "unat (usz + 4095) = unat usz + 4095" using assms by (simp add: unat_plus_if_size word_size)
  finally have u: "unat (PGROUNDUP usz) = npages usz * 4096" by (simp only: npages_def)
  have "npages usz * 4096 < 2 ^ 64" using u unat_lt_exp [of "PGROUNDUP usz"] by simp
  then have "npages usz < 2 ^ 52" by simp
  then have "unat (pgaddr (npages usz)) = 4096 * npages usz" unfolding pgaddr_def by (intro unat_of_nat_small) simp
  with u show ?thesis by (simp only: word_unat_eq_iff mult.commute)
qed

text \<open>After the pages from \<open>n0\<close> to \<open>n\<close> have been given back.\<close>

definition freed_ok :: "'z kmem_st_scheme \<Rightarrow> addr \<Rightarrow> (nat \<rightharpoonup> addr) \<Rightarrow> (nat \<rightharpoonup> uintp) \<Rightarrow> addr list \<Rightarrow> nat \<Rightarrow> nat \<Rightarrow> 'z kmem_st_scheme \<Rightarrow> bool" where
  "freed_ok s pgd T M ps n0 n t \<longleftrightarrow> (\<exists>ps'. uspace t pgd T (M |` {k. k < n0 \<or> n \<le> k}) ps' \<and> kframe s t
     \<and> set ps' = set ps \<union> fr ` ran (M |` {n0..<n})
     \<and> (\<forall>q. pg_aligned q \<longrightarrow> q \<notin> ran T \<longrightarrow> q \<notin> fr ` ran (M |` {n0..<n}) \<longrightarrow> pg_same (mem s) (mem t) q))"

lemma freed_Suc:
  assumes f: "freed_ok s pgd T M ps n0 n t" and n: "n0 \<le> n" "n < npages oldsz" "npages oldsz \<le> NUPAGE" and T: "T (n div 512) = Some pt"
  shows "\<exists>u. dealloc_body pgd oldsz newsz (pgaddr n) t = Ok (Inl (pgaddr (Suc n))) u \<and> freed_ok s pgd T M ps n0 (Suc n) u"
proof -
  obtain ps' where t: "uspace t pgd T (M |` {k. k < n0 \<or> n \<le> k}) ps'" "kframe s t" "set ps' = set ps \<union> fr ` ran (M |` {n0..<n})"
    "\<forall>q. pg_aligned q \<longrightarrow> q \<notin> ran T \<longrightarrow> q \<notin> fr ` ran (M |` {n0..<n}) \<longrightarrow> pg_same (mem s) (mem t) q"
    using f unfolding freed_ok_def by blast
  let ?M = "M |` {k. k < n0 \<or> n \<le> k}"
  have nn: "n < NUPAGE" "n < 2 ^ 40" using n by (auto simp: NUPAGE_def)
  have "pgaddr n < oldsz" using n nn by (simp add: pgaddr_less)
  from dealloc_one [OF t(1) pgaddr_page(1) [OF nn(1)] this T, of newsz] obtain u qs where u:
    "dealloc_body pgd oldsz newsz (pgaddr n) t = Ok (Inl (pgaddr n + PGSIZE)) u" "uspace u pgd T (?M(n := None)) qs" "kframe t u"
    "set qs = set ps' \<union> (case ?M n of None \<Rightarrow> {} | Some e \<Rightarrow> {fr e})"
    "\<forall>q. pg_aligned q \<longrightarrow> q \<noteq> pt \<longrightarrow> (\<forall>e. ?M n = Some e \<longrightarrow> q \<noteq> fr e) \<longrightarrow> pg_same (mem t) (mem u) q" by blast
  have M: "?M n = M n" "?M(n := None) = M |` {k. k < n0 \<or> Suc n \<le> k}" using n by (auto simp: restrict_map_def)
  have R: "fr ` ran (M |` {n0..<Suc n}) = fr ` ran (M |` {n0..<n}) \<union> (case M n of None \<Rightarrow> {} | Some e \<Rightarrow> {fr e})"
    using n(1) by (auto simp: ran_def restrict_map_def less_Suc_eq split: option.splits if_splits)
  have "freed_ok s pgd T M ps n0 (Suc n) u" unfolding freed_ok_def
  proof (intro exI [of _ qs] conjI allI impI)
    show "uspace u pgd T (M |` {k. k < n0 \<or> Suc n \<le> k}) qs" using u(2) by (simp only: M)
    show "kframe s u" by (rule kframe_trans [OF t(2) u(3)])
    show "set qs = set ps \<union> fr ` ran (M |` {n0..<Suc n})" using u(4) t(3) by (simp add: M R Un_assoc)
  next
    fix q assume q: "pg_aligned q" "q \<notin> ran T" "q \<notin> fr ` ran (M |` {n0..<Suc n})"
    then have "q \<noteq> pt" "q \<notin> fr ` ran (M |` {n0..<n})" "\<forall>e. M n = Some e \<longrightarrow> q \<noteq> fr e" using T R by (auto intro: ranI)
    with q(1,2) t(4) u(5) show "pg_same (mem s) (mem u) q" unfolding M by (blast intro: pg_same_trans)
  qed
  with u(1) show ?thesis by (simp add: pgaddr_next)
qed

lemma freed_skip:
  assumes f: "freed_ok s pgd T M ps n0 n t" and U: "uspace s pgd T M ps"
    and n: "n0 \<le> n" "512 dvd n" "n < npages oldsz" "npages oldsz \<le> NUPAGE" and T: "T (n div 512) = None"
  shows "dealloc_body pgd oldsz newsz (pgaddr n) t = Ok (Inl (pgaddr (n + 512))) t" "\<forall>k \<in> {n..<n + 512}. M k = None"
    "freed_ok s pgd T M ps n0 (n + 512) t"
proof -
  from f obtain ps' where A: "aspace t pgd T (M |` {k. k < n0 \<or> n \<le> k}) ps'" by (auto simp: freed_ok_def uspace_def)
  have nn: "n < NUPAGE" "n < 2 ^ 40" using n by (auto simp: NUPAGE_def)
  have lt: "pgaddr n < oldsz" using n nn by (simp add: pgaddr_less)
  show "dealloc_body pgd oldsz newsz (pgaddr n) t = Ok (Inl (pgaddr (n + 512))) t"
    using walk_none [OF A pgaddr_page(1) [OF nn(1)] T] lt
    by (simp add: dealloc_body_def run_Ok ret_def pgaddr_next [unfolded One_nat_def])
  have M: "M k = None" if "n \<le> k" "k < n + 512" for k
  proof -
    from n(2) that have "k div 512 = n div 512" by (auto elim!: dvdE)
    moreover have "aspace s pgd T M ps" using U by (simp add: uspace_def)
    ultimately show ?thesis using T aspaceD(9) [of s pgd T M ps k] aspaceD(11) [of s pgd T M ps k] by (cases "M k") auto
  qed
  then show "\<forall>k \<in> {n..<n + 512}. M k = None" by simp
  have "M |` {k. k < n0 \<or> n + 512 \<le> k} = M |` {k. k < n0 \<or> n \<le> k}" "M |` {n0..<n + 512} = M |` {n0..<n}"
    using M n(1) by (auto simp: restrict_map_def fun_eq_iff not_le not_less)
  then show "freed_ok s pgd T M ps n0 (n + 512) t" using f by (simp only: freed_ok_def)
qed

lemma dealloc_loop:
  fixes s :: "'z kmem_st_scheme"
  assumes U: "uspace s pgd T M ps" and N: "npages oldsz \<le> NUPAGE" "n0 \<le> npages oldsz"
    and J: "512 dvd n0 \<or> (\<forall>k. n0 \<le> k \<longrightarrow> k < npages oldsz \<longrightarrow> T (k div 512) \<noteq> None)"
  shows "wp (loopK (dealloc_body pgd oldsz newsz) (pgaddr n0))
    (\<lambda>r t. r = ucast newsz \<and> freed_ok s pgd T M ps n0 (npages oldsz) t) s"
proof -
  let ?N = "npages oldsz"
  let ?I = "\<lambda>a (t :: 'z kmem_st_scheme). \<exists>n. a = pgaddr n \<and> n0 \<le> n \<and> n \<le> ?N + 512 \<and> freed_ok s pgd T M ps n0 n t
    \<and> (n < ?N \<longrightarrow> 512 dvd n \<or> T (n div 512) \<noteq> None) \<and> (\<forall>k \<in> {?N..<n}. M k = None)"
  show ?thesis
  proof (rule wp_loopK [where I = ?I and m = "\<lambda>a t. ?N * 4096 + 512 * 4096 - unat a"])
    have "freed_ok s pgd T M ps n0 n0 s" unfolding freed_ok_def
      using U by (intro exI [of _ ps]) (simp add: restrict_map_def not_less [symmetric] cong: if_cong)
    then show "?I (pgaddr n0) s" using N J by (intro exI [of _ n0]) auto
  next
    fix a and t :: "'z kmem_st_scheme" assume "?I a t"
    then obtain n where n: "a = pgaddr n" "n0 \<le> n" "n \<le> ?N + 512" "freed_ok s pgd T M ps n0 n t"
      "n < ?N \<longrightarrow> 512 dvd n \<or> T (n div 512) \<noteq> None" "\<forall>k \<in> {?N..<n}. M k = None" by blast
    have sm: "k < 2 ^ 40" if "k \<le> ?N + 1024" for k using that N(1) by (simp add: NUPAGE_def)
    have m: "?N * 4096 + 512 * 4096 - unat (pgaddr k) < ?N * 4096 + 512 * 4096 - unat (pgaddr n)" if "n < k" "k \<le> ?N + 1024" "n < ?N" for k
      using that sm [of k] sm [of n] by (simp add: unat_pgaddr)
    show "wp (dealloc_body pgd oldsz newsz a) (\<lambda>r u. case r of Inl a' \<Rightarrow> ?I a' u \<and>
        ?N * 4096 + 512 * 4096 - unat a' < ?N * 4096 + 512 * 4096 - unat a
      | Inr r \<Rightarrow> r = ucast newsz \<and> freed_ok s pgd T M ps n0 ?N u) t"
    proof (cases "n < ?N")
      case False
      have "M |` {k. k < n0 \<or> n \<le> k} = M |` {k. k < n0 \<or> ?N \<le> k}" "M |` {n0..<n} = M |` {n0..<?N}"
        using n(6) False N by (auto simp: restrict_map_def fun_eq_iff not_le not_less)
      then have "freed_ok s pgd T M ps n0 ?N t" using n(4) by (simp only: freed_ok_def)
      moreover have "\<not> a < oldsz" using False n(1,3) sm [of n] by (simp add: pgaddr_less)
      ultimately show ?thesis by (simp add: dealloc_body_def wp_rules)
    next
      case True
      show ?thesis
      proof (cases "T (n div 512)")
        case None
        with n(5) True have d: "512 dvd n" by simp
        note k = freed_skip [OF n(4) U n(2) d True N(1) None]
        have "?I (pgaddr (n + 512)) t" using k n True d by (intro exI [of _ "n + 512"]) auto
        then show ?thesis using k(1) m [of "n + 512"] True by (simp add: wp_def n(1))
      next
        case (Some pt)
        from freed_Suc [OF n(4,2) True N(1) Some, of newsz] obtain u where
          u: "dealloc_body pgd oldsz newsz (pgaddr n) t = Ok (Inl (pgaddr (Suc n))) u" "freed_ok s pgd T M ps n0 (Suc n) u" by blast
        have "512 dvd Suc n \<or> Suc n div 512 = n div 512" by (metis div_Suc dvd_eq_mod_eq_0)
        then have "?I (pgaddr (Suc n)) u" using n True u(2) Some by (intro exI [of _ "Suc n"]) auto
        then show ?thesis using u(1) m [of "Suc n"] True by (simp add: wp_def n(1))
      qed
    qed
  qed
qed

lemma deallocuvm_law:
  assumes U: "uspace s pgd T M ps" and N: "npages oldsz \<le> NUPAGE" "newsz < oldsz"
    and J: "512 dvd npages newsz \<or> (\<forall>k. npages newsz \<le> k \<longrightarrow> k < npages oldsz \<longrightarrow> T (k div 512) \<noteq> None)"
  shows "wp (deallocuvm pgd oldsz newsz) (\<lambda>r t. r = ucast newsz \<and> freed_ok s pgd T M ps (npages newsz) (npages oldsz) t) s"
proof -
  have o: "unat oldsz \<le> NUPAGE * 4096" using N(1) npages_iff [of NUPAGE oldsz] by simp
  then have n: "unat newsz + 4095 < 2 ^ 64" using N(2) by (simp add: NUPAGE_def word_less_nat_alt)
  have "npages newsz \<le> npages oldsz" using N(2) by (simp add: npages_def word_less_nat_alt div_le_mono)
  from dealloc_loop [OF U N(1) this J, of newsz] show ?thesis using N(2) by (simp add: deallocuvm_eq PGROUNDUP_pages [OF n] not_le [THEN iffD2])
qed

text \<open>A new address space.\<close>

lemma unat_small_addr: "unat (0x3fa00000 :: addr) = 509 * 512 * 4096"
  by simp

lemma npages_top: "npages 0x3fa00000 = 509 * 512"
  by (simp add: npages_def)

text \<open>The loop of \<^verbatim>\<open>freevm\<close> that frees the page tables.\<close>

lemma free_tables:
  fixes s :: "'z kmem_st_scheme"
  assumes "settled s" "kmem_rep s ps" "pg_aligned pgd" "distinct is" "\<forall>i \<in> set is. i < 510"
    "\<forall>i \<in> set is. load64 (mem s) (slot pgd i) = (case T i of None \<Rightarrow> 0 | Some t \<Rightarrow> pt_enc t)"
    "\<forall>i t. T i = Some t \<longrightarrow> valid_page s t \<and> t \<notin> set ps \<and> t \<noteq> pgd" "\<forall>i j t. T i = Some t \<longrightarrow> T j = Some t \<longrightarrow> i = j"
  shows "wp (forK is (\<lambda>i. bindK (ld64 (pgd + of_nat (8 * i))) (\<lambda>e. whenK (e AND PTE_P \<noteq> 0) (kfree (p2v (PTE_ADDR e))))))
     (\<lambda>_ t. \<exists>qs. kmem_rep t qs \<and> kframe s t \<and> set qs = set ps \<union> ran (T |` set is)) s"
  using assms
proof (induction "is" arbitrary: s ps T)
  case Nil
  then show ?case by (auto simp: wp_rules)
next
  case (Cons i js)
  show ?case
  proof (cases "T i")
    case None
    then have "T |` set (i # js) = T |` set js" by (auto simp: restrict_map_def)
    moreover have "wp (forK js (\<lambda>i. bindK (ld64 (pgd + of_nat (8 * i))) (\<lambda>e. whenK (e AND PTE_P \<noteq> 0) (kfree (p2v (PTE_ADDR e))))))
      (\<lambda>_ t. \<exists>qs. kmem_rep t qs \<and> kframe s t \<and> set qs = set ps \<union> ran (T |` set js)) s"
      using Cons.prems by (intro Cons.IH) auto
    ultimately show ?thesis using Cons.prems(6) None by (simp add: wp_rules ld64_def slot_def)
  next
    case (Some p)
    have p: "valid_page s p" "p \<notin> set ps" "p \<noteq> pgd" "pg_aligned p" using Cons.prems(7) Some by (auto simp: valid_page_def)
    from kfree_put [OF Cons.prems(1,2) p(1,2)] obtain m f where k: "kfree p s = Ok () (s\<lparr>mem := m, freelist := f\<rparr>)"
      "kmem_rep (s\<lparr>mem := m, freelist := f\<rparr>) (p # ps)" "\<And>q. pg_aligned q \<Longrightarrow> q \<noteq> p \<Longrightarrow> pg_same (mem s) m q" by metis
    let ?s = "s\<lparr>mem := m, freelist := f\<rparr>"
    let ?T = "T(i := None)"
    have R: "ran (T |` set (i # js)) = insert p (ran (?T |` set js))"
      using Some Cons.prems(4) by (auto simp: ran_def restrict_map_def)
    have same: "load64 m (slot pgd j) = load64 (mem s) (slot pgd j)" if "j < 510" for j
      using that Cons.prems(3) p(3) by (intro pg_same_load k(3)) auto
    have "wp (forK js (\<lambda>i. bindK (ld64 (pgd + of_nat (8 * i))) (\<lambda>e. whenK (e AND PTE_P \<noteq> 0) (kfree (p2v (PTE_ADDR e))))))
      (\<lambda>_ t. \<exists>qs. kmem_rep t qs \<and> kframe ?s t \<and> set qs = set (p # ps) \<union> ran (?T |` set js)) ?s"
    proof (rule Cons.IH)
      show "settled ?s" using Cons.prems(1) by (simp add: settled_def mach_ok_def)
      show "\<forall>i \<in> set js. load64 (mem ?s) (slot pgd i) = (case ?T i of None \<Rightarrow> 0 | Some t \<Rightarrow> pt_enc t)"
        using Cons.prems(4-6) same by auto
      show "\<forall>i t. ?T i = Some t \<longrightarrow> valid_page ?s t \<and> t \<notin> set (p # ps) \<and> t \<noteq> pgd"
        using Cons.prems(7,8) Some by auto
      show "\<forall>i j t. ?T i = Some t \<longrightarrow> ?T j = Some t \<longrightarrow> i = j" using Cons.prems(8) by (auto split: if_splits)
    qed (use Cons.prems k(2) in auto)
    then have "wp (forK js (\<lambda>i. bindK (ld64 (pgd + of_nat (8 * i))) (\<lambda>e. whenK (e AND PTE_P \<noteq> 0) (kfree (p2v (PTE_ADDR e))))))
      (\<lambda>_ t. \<exists>qs. kmem_rep t qs \<and> kframe s t \<and> set qs = set ps \<union> ran (T |` set (i # js))) ?s"
      unfolding R by (rule wp_mono) (auto intro: kframe_trans [OF kframe_upd(1)])
    moreover have "load64 (mem s) (pgd + of_nat (8 * i)) = pt_enc p" using Cons.prems(6) Some by (simp add: slot_def)
    ultimately show ?thesis using k(1) pt_enc_simps [OF p(4)] by (simp add: wp_rules ld64_def wp_def [of "kfree p"])
  qed
qed

lemma freevm_law:
  assumes U: "uspace s pgd T M ps" and top: "dom M \<subseteq> {..<509 * 512}"
  shows "wp (freevm pgd) (\<lambda>_ t. \<exists>qs. kmem_rep t qs \<and> kframe s t \<and> set qs = set ps \<union> fr ` ran M \<union> ran T \<union> {pgd}) s"
proof -
  have A: "aspace s pgd T M ps" using U by (simp add: uspace_def)
  note D = aspaceD [OF A]
  have "pgd \<noteq> 0" using valid_page_neq_0 [OF D(3)] .
  have "npages 0 = 0" by (simp add: npages_def)
  have "wp (deallocuvm pgd 0x3fa00000 0) (\<lambda>r t. r = ucast (0 :: addr) \<and> freed_ok s pgd T M ps 0 (509 * 512) t) s"
    using deallocuvm_law [OF U, of "0x3fa00000" 0] \<open>npages 0 = 0\<close> by (simp add: npages_top NUPAGE_def)
  then obtain r t where t: "deallocuvm pgd 0x3fa00000 0 s = Ok r t" "freed_ok s pgd T M ps 0 (509 * 512) t" by (auto simp: wp_returns)
  have out: "M k = None" if "509 * 512 \<le> k" for k
  proof (rule ccontr)
    assume "M k \<noteq> None"
    then have "k \<in> dom M" by auto
    with top have "k < 509 * 512" by auto
    with that show False by simp
  qed
  have M0: "M |` {k. k < 0 \<or> 509 * 512 \<le> k} = Map.empty" "M |` {0..<509 * 512} = M"
    using out by (auto simp: restrict_map_def fun_eq_iff not_less)
  from t(2) [unfolded freed_ok_def M0] obtain ps' where t': "uspace t pgd T Map.empty ps'" "kframe s t" "set ps' = set ps \<union> fr ` ran M" by blast
  have A': "aspace t pgd T Map.empty ps'" using t'(1) by (simp add: uspace_def)
  note D' = aspaceD [OF A']
  have "wp (forK [0..<NPDENTRIES - 2] (\<lambda>i. bindK (ld64 (pgd + of_nat (8 * i))) (\<lambda>e. whenK (e AND PTE_P \<noteq> 0) (kfree (p2v (PTE_ADDR e))))))
     (\<lambda>_ u. \<exists>qs. kmem_rep u qs \<and> kframe t u \<and> set qs = set ps' \<union> ran (T |` set [0..<NPDENTRIES - 2])) t"
  proof (rule free_tables [OF D'(1,2,4)])
    show "\<forall>i j t. T i = Some t \<longrightarrow> T j = Some t \<longrightarrow> i = j" using D'(7) by blast
  qed (use D'(6,8) in \<open>auto simp: NPDENTRIES_def\<close>)
  moreover have "T |` set [0..<NPDENTRIES - 2] = T"
    using D'(6) by (auto simp: restrict_map_def fun_eq_iff NPDENTRIES_def) (metis not_None_eq)
  ultimately obtain u qs where u: "forK [0..<NPDENTRIES - 2] (\<lambda>i. bindK (ld64 (pgd + of_nat (8 * i))) (\<lambda>e. whenK (e AND PTE_P \<noteq> 0) (kfree (p2v (PTE_ADDR e))))) t = Ok () u"
    "kmem_rep u qs" "kframe t u" "set qs = set ps' \<union> ran T" by (auto simp: wp_returns)
  have "valid_page u pgd" "settled u" using D'(3,1) u(3) by (simp_all add: kframe_sel)
  moreover have "pgd \<notin> set qs" using u(4) D'(5,6) by (auto simp: ran_def)
  ultimately obtain m f where k: "kfree pgd u = Ok () (u\<lparr>mem := m, freelist := f\<rparr>)" "kmem_rep (u\<lparr>mem := m, freelist := f\<rparr>) (pgd # qs)"
    using kfree_put [of u qs pgd] u(2) by metis
  have "freevm pgd s = Ok () (u\<lparr>mem := m, freelist := f\<rparr>)" using \<open>pgd \<noteq> 0\<close> t(1) u(1) k(1) by (simp add: freevm_def run_Ok)
  moreover have "kframe s (u\<lparr>mem := m, freelist := f\<rparr>)" using kframe_trans [OF kframe_trans [OF t'(2) u(3)]] by simp
  ultimately show ?thesis using k(2) u(4) t'(3) by (auto simp: wp_returns intro!: exI [of _ "pgd # qs"])
qed

text \<open>\<^verbatim>\<open>setupkvm\<close> takes three pages; the directory is the third.\<close>

lemma pg_same_steps:
  assumes "pg_same m m' q" "pg_aligned p" "pg_aligned q" "p \<noteq> q"
  shows "pg_same m (memset m' p c 4096) q" "j < 512 \<Longrightarrow> pg_same m (store64 m' (slot p j) w) q"
  using assms pg_same_trans [OF assms(1) pg_same_memset [of p q]] pg_same_trans [OF assms(1) pg_same_store [of p q]] by auto

definition kvm_mem :: "mem \<Rightarrow> addr \<Rightarrow> addr \<Rightarrow> addr \<Rightarrow> addr \<Rightarrow> mem" where
  "kvm_mem m k p4 p3 pgd =
    store64 (store64 (store64 (store64 (store64 (memset (memset (memset m p4 0 4096) p3 0 4096) pgd 0 4096)
      (slot p4 511) (pt_enc k)) (slot p4 0) (pt_enc p3)) (slot p3 0) (pt_enc pgd))
      (slot pgd 511) (p4 OR PTE_P)) (slot pgd 510) (p3 OR PTE_P)"

lemma kvm_mem_laws:
  assumes a: "pg_aligned p4" "pg_aligned p3" "pg_aligned pgd" and d: "p4 \<noteq> p3" "p4 \<noteq> pgd" "p3 \<noteq> pgd"
  shows "load64 (kvm_mem m k p4 p3 pgd) (slot p4 0) = pt_enc p3" "load64 (kvm_mem m k p4 p3 pgd) (slot p3 0) = pt_enc pgd"
    "load64 (kvm_mem m k p4 p3 pgd) (slot pgd 511) = p4 OR PTE_P" "i < 510 \<Longrightarrow> load64 (kvm_mem m k p4 p3 pgd) (slot pgd i) = 0"
    "pg_aligned q \<Longrightarrow> q \<noteq> p4 \<Longrightarrow> q \<noteq> p3 \<Longrightarrow> q \<noteq> pgd \<Longrightarrow> pg_same m (kvm_mem m k p4 p3 pgd) q"
proof -
  note L = load_store_slot load_memset_slot load_store_other_slot load_memset_other_slot
  show "load64 (kvm_mem m k p4 p3 pgd) (slot p4 0) = pt_enc p3" "load64 (kvm_mem m k p4 p3 pgd) (slot p3 0) = pt_enc pgd"
    "load64 (kvm_mem m k p4 p3 pgd) (slot pgd 511) = p4 OR PTE_P"
    using a d d [symmetric] by (simp_all add: kvm_mem_def L del: slot_0)
  show "load64 (kvm_mem m k p4 p3 pgd) (slot pgd i) = 0" if "i < 510"
    using a d d [symmetric] that by (simp add: kvm_mem_def L del: slot_0)
  show "pg_same m (kvm_mem m k p4 p3 pgd) q" if "pg_aligned q" "q \<noteq> p4" "q \<noteq> p3" "q \<noteq> pgd"
    unfolding kvm_mem_def using that a by (intro pg_same_steps pg_same_refl) auto
qed

lemma setupkvm_law:
  assumes s: "settled s" "kmem_rep s (p4 # p3 # pgd # ps)" and kb: "KERNBASE < kend s"
  shows "wp setupkvm (\<lambda>r t. r = pgd \<and> uspace t pgd Map.empty Map.empty ps \<and> kframe s t \<and> mem t = kvm_mem (mem s) (kpdpt s) p4 p3 pgd) s"
proof -
  have st: "settled (s\<lparr>freelist := f\<rparr>)" for f using s(1) by (simp add: settled_def mach_ok_def)
  obtain f where f: "kalloc s = Ok p4 (s\<lparr>freelist := f\<rparr>)" "kmem_rep (s\<lparr>freelist := f\<rparr>) (p3 # pgd # ps)"
    using kalloc_take [OF s(1,2)] by blast
  obtain g where g: "kalloc (s\<lparr>freelist := f\<rparr>) = Ok p3 (s\<lparr>freelist := g\<rparr>)" "kmem_rep (s\<lparr>freelist := g\<rparr>) (pgd # ps)"
    using kalloc_take [OF st [of f] f(2)] by auto
  obtain h where h: "kalloc (s\<lparr>freelist := g\<rparr>) = Ok pgd (s\<lparr>freelist := h\<rparr>)" "kmem_rep (s\<lparr>freelist := h\<rparr>) ps"
    using kalloc_take [OF st [of g] g(2)] by auto
  let ?m = "kvm_mem (mem s) (kpdpt s) p4 p3 pgd" let ?t = "s\<lparr>freelist := h, mem := ?m\<rparr>"
  have v: "valid_page s p" "pg_aligned p" "p \<noteq> 0" if "p \<in> set (p4 # p3 # pgd # ps)" for p
  proof -
    show v: "valid_page s p" using s(2) that unfolding kmem_rep_def by blast
    then show "pg_aligned p" by (simp add: valid_page_def)
    from v show "p \<noteq> 0" by (rule valid_page_neq_0)
  qed
  have d: "distinct (p4 # p3 # pgd # ps)" using s(2) by (simp add: kmem_rep_def)
  have "setupkvm s = Ok pgd ?t"
    using f(1) g(1) h(1) v(3) by (simp add: setupkvm_def run_Ok run_steps nonnull_def upd_mem_def st64_def ret_def kvm_mem_def slot_def pt_enc_def)
  moreover note L = kvm_mem_laws [of p4 p3 pgd, where m = "mem s" and k = "kpdpt s"]
  have "kmem_rep ?t ps" by (rule kmem_rep_mem [OF h(2)]) (use v d L(5) in auto)
  then have "pt_pages ?t pgd Map.empty ps" using d v(1) [of pgd] st [of h] by (simp add: pt_pages_def settled_def mach_ok_def)
  moreover have "pt_ents ?m pgd Map.empty Map.empty" using L(4) d v(2) by (simp add: pt_ents_def)
  ultimately show ?thesis using kb by (simp add: wp_def uspace_def aspace_def frames_ok_def)
qed

section \<open>What the processor sees\<close>

definition rooted :: "mem \<Rightarrow> addr \<Rightarrow> addr \<Rightarrow> addr \<Rightarrow> bool" where
  "rooted m p4 p3 pgd \<longleftrightarrow> load64 m (slot p4 0) = pt_enc p3 \<and> load64 m (slot p3 0) = pt_enc pgd"

lemma PTE_ADDR_id: "pg_aligned x \<Longrightarrow> PTE_ADDR x = x"
  using PTE_ADDR_or [of x 0] by simp

lemma pt_enc_PS: "pg_aligned t \<Longrightarrow> pt_enc t AND PTE_PS = 0"
proof -
  assume "pg_aligned t"
  then have "PTE_FLAGS (pt_enc t) = PTE_P OR PTE_W OR PTE_U" using PTE_FLAGS_or [OF pg_aligned_v2p(1), of t "PTE_P OR PTE_W OR PTE_U"]
    by (simp add: pt_enc_def or.assoc PTE_P_def PTE_W_def PTE_U_def)
  moreover have "pt_enc t AND PTE_PS = PTE_FLAGS (pt_enc t) AND PTE_PS"
    unfolding PTE_FLAGS_def and.assoc by (simp add: PTE_PS_def)
  ultimately show ?thesis by (simp add: PTE_P_def PTE_W_def PTE_U_def PTE_PS_def)
qed

lemma high_index: "unat (va :: addr) < 2 ^ 30 \<Longrightarrow> drop_bit 39 va = 0 \<and> drop_bit 30 va = 0"
  by (simp add: word_unat_eq_iff drop_bit_eq_div unat_div)

lemma hw_walk_aspace:
  assumes A: "aspace s pgd T M ps" and r: "rooted (mem s) p4 p3 pgd" "pg_aligned p4" "pg_aligned p3" and n: "in_page va n"
  shows "hw_walk (mem s) (v2p p4) va = map_option (\<lambda>e. PTE_ADDR e OR (va AND 0xFFF)) (M n)"
proof -
  note D = aspaceD [OF A] and i = in_page_slots [OF n]
  have nn: "n < NUPAGE" using n by (simp add: in_page_def)
  have va: "unat va < 2 ^ 30" using n by (auto simp: in_page_def NUPAGE_def)
  have idx: "drop_bit 39 va AND 0x1FF = 0" "drop_bit 30 va AND 0x1FF = 0" using high_index [OF va] by simp_all
  have pd: "p + 8 * (drop_bit 21 va AND 0x1FF) = slot p (n div 512)" "p + 8 * (drop_bit 12 va AND 0x1FF) = slot p (n mod 512)" for p
    using i(1) [of p] i(2) [of p] by (simp_all add: PDX_def PTX_def)
  have e4: "load64 (mem s) (p2v (PTE_ADDR (v2p p4)) + 8 * 0) = pt_enc p3"
    using r PTE_ADDR_id [OF pg_aligned_v2p(1) [OF r(2)]] by (simp add: rooted_def)
  have e3: "load64 (mem s) (p2v (PTE_ADDR (pt_enc p3)) + 8 * 0) = pt_enc pgd"
    using r(1) pt_enc_simps(1) [OF r(3)] by (simp add: rooted_def)
  have g: "p2v (PTE_ADDR (pt_enc pgd)) = pgd" using pt_enc_simps(1) [OF D(4)] by simp
  show ?thesis
  proof (cases "T (n div 512)")
    case None
    with D(8) [OF i(3)] D(9) [OF nn] show ?thesis
      by (simp add: hw_walk_def Let_def idx e4 [simplified] e3 [simplified] g pd)
  next
    case (Some pt)
    have pt: "pg_aligned pt" using D(6) [OF Some] by simp
    have e2: "load64 (mem s) (slot pgd (n div 512)) = pt_enc pt" using D(8) [OF i(3)] Some by simp
    have e1: "p2v (PTE_ADDR (pt_enc pt)) = pt" using pt_enc_simps(1) [OF pt] by simp
    have P: "pt_enc p3 AND PTE_P \<noteq> 0" "pt_enc pgd AND PTE_P \<noteq> 0" "pt_enc pt AND PTE_P \<noteq> 0"
      using pt_enc_simps(2) r(3) D(4) pt by auto
    show ?thesis using pte_at [OF A nn Some] P pt_enc_PS [OF pt]
      by (cases "M n") (simp_all add: hw_walk_def Let_def idx e4 [simplified] e3 [simplified] g pd e2 e1)
  qed
qed

lemma aspace_mem:
  assumes A: "aspace s pgd T M ps" and same: "\<And>q. q = pgd \<or> q \<in> ran T \<or> q \<in> set ps \<Longrightarrow> pg_same (mem s) m q"
  shows "aspace (s\<lparr>mem := m\<rparr>) pgd T M ps"
proof (rule aspace_upd [OF A])
  show "kmem_rep (s\<lparr>mem := m\<rparr>) ps" using same by (intro kmem_rep_mem aspaceD(2) [OF A]) auto
qed (use aspaceD(5) [OF A] aspace_ran [OF A] same in auto)

lemma aspace_take:
  assumes A: "aspace s pgd T M (p # ps)"
  obtains f where "kalloc s = Ok p (s\<lparr>freelist := f\<rparr>)" "aspace (s\<lparr>freelist := f\<rparr>) pgd T M ps"
proof -
  obtain f where f: "kalloc s = Ok p (s\<lparr>freelist := f\<rparr>)" "kmem_rep (s\<lparr>freelist := f\<rparr>) ps"
    using kalloc_take [OF aspaceD(1,2) [OF A]] .
  moreover have "aspace (s\<lparr>freelist := f\<rparr>) pgd T M ps"
    using aspaceD(5) [OF A] aspace_ran [OF A] by (intro aspace_upd [OF A _ f(2)]) auto
  ultimately show thesis by (intro that)
qed

section \<open>Growing an address space\<close>

definition zero_pg :: "mem \<Rightarrow> addr \<Rightarrow> bool" where
  "zero_pg m p \<longleftrightarrow> (\<forall>off. unat off < 4096 \<longrightarrow> m (p + off) = 0)"

lemma zero_pg_memset: "zero_pg (memset m p 0 4096) p"
  by (simp add: zero_pg_def memset_at)

lemma zero_pg_same: "zero_pg m p \<Longrightarrow> pg_same m m' p \<Longrightarrow> zero_pg m' p"
  by (simp add: zero_pg_def pg_same_def)

definition alloc_body :: "addr \<Rightarrow> uint \<Rightarrow> uint \<Rightarrow> addr \<Rightarrow> (addr + uint, 'z cons_st_scheme) kern" where
  "alloc_body pgd oldsz newsz a =
    (if \<not> a < ucast newsz then ret (Inr newsz)
     else bindK kalloc (\<lambda>pg.
       if pg = 0 then
         seqK (cprintf (''allocuvm out of memory'' @ [CHR 0x0A]) [])
        (seqK (deallocuvm pgd (ucast newsz) (ucast oldsz))
              (ret (Inr 0)))
       else
         seqK (upd_mem (\<lambda>m. memset m pg 0 4096))
        (seqK (mappages pgd a PGSIZE (v2p pg) (PTE_W OR PTE_U))
              (ret (Inl (a + PGSIZE))))))"

lemma allocuvm_eq:
  "allocuvm pgd oldsz newsz =
    (if ucast newsz \<ge> KERNBASE then ret 0 else if newsz < oldsz then ret oldsz
     else loopK (alloc_body pgd oldsz newsz) (PGROUNDUP (ucast oldsz)))"
  by (simp add: allocuvm_def alloc_body_def [abs_def])

definition user_pte :: "addr \<Rightarrow> uintp" where
  "user_pte p = v2p p OR (PTE_W OR PTE_U) OR PTE_P"

lemma user_pte_simps:
  assumes "pg_aligned p"
  shows "fr (user_pte p) = p" "PTE_FLAGS (user_pte p) = PTE_W OR PTE_U OR PTE_P"
proof -
  have "(PTE_W OR PTE_U OR PTE_P) AND NOT 0xFFF = 0" by (simp add: PTE_P_def PTE_W_def PTE_U_def)
  note PTE_ADDR_or [OF pg_aligned_v2p(1) [OF assms] this] PTE_FLAGS_or [OF pg_aligned_v2p(1) [OF assms] this]
  then show "fr (user_pte p) = p" "PTE_FLAGS (user_pte p) = PTE_W OR PTE_U OR PTE_P" by (simp_all add: user_pte_def or.assoc fr_def)
qed

text \<open>One page is added: the first free page becomes the frame, the next one the table if it is missing.\<close>

lemma alloc_one:
  assumes U: "uspace s pgd T M (p # ps)" and n: "n < NUPAGE" "pgaddr n < ucast newsz" "M n = None"
    and tab: "can_table n T ps" "with_table n (T, ps) = (T', ps')"
  shows "\<exists>t. alloc_body pgd oldsz newsz (pgaddr n) s = Ok (Inl (pgaddr (Suc n))) t \<and> uspace t pgd T' (M(n \<mapsto> user_pte p)) ps'
     \<and> kframe s t \<and> zero_pg (mem t) p \<and> others_same s pgd T (p # ps) t"
proof -
  have A: "aspace s pgd T M (p # ps)" and F: "frames_ok s pgd T M (p # ps)" using U by (simp_all add: uspace_def)
  have p: "pg_aligned p" "valid_page s p" "p \<noteq> pgd" "p \<notin> ran T" "p \<noteq> 0" "p \<notin> set ps"
    using aspace_pool [OF A, of p] valid_page_neq_0 [of s p] aspaceD(2) [OF A] by (auto simp: kmem_rep_def)
  obtain f where f: "kalloc s = Ok p (s\<lparr>freelist := f\<rparr>)" "aspace (s\<lparr>freelist := f\<rparr>) pgd T M ps" by (rule aspace_take [OF A])
  let ?s = "s\<lparr>freelist := f, mem := memset (mem s) p 0 4096\<rparr>"
  have same: "pg_same (mem s) (memset (mem s) p 0 4096) q" if "pg_aligned q" "q \<noteq> p" for q
    using pg_same_memset [of p q] p that by auto
  have A1: "aspace ?s pgd T M ps" using p aspaceD(4) [OF A] aspace_ran [OF f(2)] aspace_pool [OF f(2)]
    by (intro aspace_mem [OF f(2)]) (auto intro!: pg_same_memset)
  from mappages_step(3) [OF A1 pgaddr_page [OF n(1)] n(3) tab, of "v2p p" "PTE_W OR PTE_U"] obtain t where
    t: "mappages pgd (pgaddr n) PGSIZE (v2p p) (PTE_W OR PTE_U) ?s = Ok 0 t" "aspace t pgd T' (M(n \<mapsto> user_pte p)) ps'"
      "kframe ?s t" "others_same ?s pgd T ps t" unfolding user_pte_def by blast
  have "alloc_body pgd oldsz newsz (pgaddr n) s = Ok (Inl (pgaddr (Suc n))) t"
    using f(1) t(1) p(5) n(2) by (simp add: alloc_body_def run_Ok run_steps upd_mem_def ret_def pgaddr_next)
  moreover have k: "kframe s t" by (rule kframe_trans [OF _ t(3)]) simp
  moreover have T': "ran T' \<subseteq> ran T \<union> set ps" "set ps' \<subseteq> set ps"
    using tab by (auto simp: can_table_def ran_def split: if_splits dest: list.set_sel(2) [rotated])
  have "frames_ok t pgd T' (M(n \<mapsto> user_pte p)) ps'"
  proof -
    have old: "valid_page s (fr e) \<and> fr e \<noteq> p \<and> fr e \<notin> set ps \<and> fr e \<noteq> pgd \<and> fr e \<notin> ran T" if "M k = Some e" for k e
      using F that unfolding frames_ok_def by auto
    have v: "valid_page t = valid_page s" "kend t = kend s" using k by (auto simp: kframe_sel kframe_def)
    have "p \<notin> ran T'" "p \<notin> set ps'" using T' p by auto
    moreover have "fr e \<notin> ran T'" "fr e \<notin> set ps'" if "M k = Some e" for k e using T' old [OF that] by auto
    ultimately show ?thesis using old F p unfolding frames_ok_def v
      by (auto simp: user_pte_simps) (use old in blast)
  qed
  moreover have "zero_pg (mem t) p"
    using t(4) p zero_pg_memset by (auto simp: others_same_def intro: zero_pg_same)
  moreover have "others_same s pgd T (p # ps) t" using t(4) same unfolding others_same_def by (auto intro: pg_same_trans)
  ultimately show ?thesis using t(2) by (auto simp: uspace_def)
qed

text \<open>The page tables that the pages from \<open>n\<close> to \<open>N\<close> still lack.\<close>

definition missing :: "(nat \<rightharpoonup> addr) \<Rightarrow> nat \<Rightarrow> nat \<Rightarrow> nat set" where
  "missing T n N = {i. n div 512 \<le> i \<and> i \<le> (N - 1) div 512 \<and> T i = None}"

lemma finite_missing [simp]: "finite (missing T n N)"
  by (rule finite_subset [of _ "{..(N - 1) div 512}"]) (auto simp: missing_def)

definition grown :: "'z kmem_st_scheme \<Rightarrow> addr \<Rightarrow> (nat \<rightharpoonup> addr) \<Rightarrow> (nat \<rightharpoonup> uintp) \<Rightarrow> addr list \<Rightarrow> nat \<Rightarrow> nat
    \<Rightarrow> 'z kmem_st_scheme \<Rightarrow> (nat \<rightharpoonup> addr) \<Rightarrow> (nat \<rightharpoonup> uintp) \<Rightarrow> addr list \<Rightarrow> bool" where
  "grown s pgd T M ps n0 n t T' M' ps' \<longleftrightarrow> uspace t pgd T' M' ps' \<and> kframe s t
     \<and> (\<forall>k. k \<notin> {n0..<n} \<longrightarrow> M' k = M k)
     \<and> (\<forall>k \<in> {n0..<n}. \<exists>e. M' k = Some e \<and> PTE_FLAGS e = PTE_W OR PTE_U OR PTE_P \<and> zero_pg (mem t) (fr e))
     \<and> ran T \<subseteq> ran T' \<and> set ps = set ps' \<union> (ran T' - ran T) \<union> fr ` ran (M' |` {n0..<n}) \<and> others_same s pgd T ps t"

lemma missing_step:
  assumes w: "with_table n (T', rs) = (T2, qs)" and n: "n < N"
    and enough: "N - n + card (missing T' n N) \<le> length (p # rs)" and tab: "can_table n T' rs"
  shows "N - Suc n + card (missing T2 (Suc n) N) \<le> length qs"
proof (cases "T' (n div 512)")
  case None
  have idx: "n div 512 \<le> (N - 1) div 512" using n by (intro div_le_mono) simp
  from None have t2: "T2 = T'(n div 512 \<mapsto> hd rs)" "length qs = length rs - 1" "rs \<noteq> []" using w tab by (auto simp: can_table_def)
  have "missing T2 (Suc n) N \<subseteq> missing T' n N - {n div 512}" unfolding t2
    using div_le_mono [of n "Suc n" 512] by (auto simp: missing_def split: if_splits)
  then have "card (missing T2 (Suc n) N) \<le> card (missing T' n N - {n div 512})" by (intro card_mono) simp_all
  also have "\<dots> = card (missing T' n N) - 1" using None idx by (intro card_Diff_singleton) (simp add: missing_def)
  finally have "card (missing T2 (Suc n) N) \<le> card (missing T' n N) - 1" .
  moreover have "0 < card (missing T' n N)" using None idx by (auto simp: card_gt_0_iff missing_def)
  ultimately show ?thesis using enough n t2(2,3) by (cases rs) auto
next
  case (Some x)
  then have "T2 = T'" "qs = rs" using w by auto
  moreover have "missing T' (Suc n) N \<subseteq> missing T' n N" using div_le_mono [of n "Suc n" 512] by (auto simp: missing_def)
  then have "card (missing T' (Suc n) N) \<le> card (missing T' n N)" by (intro card_mono) simp_all
  ultimately show ?thesis using enough n by auto
qed

lemma with_table_pages:
  assumes "with_table n (T, ps) = (T', ps')" "can_table n T ps"
  shows "ran T \<subseteq> ran T'" "set ps \<union> ran T = set ps' \<union> ran T'"
proof -
  show "ran T \<subseteq> ran T'" using assms(1) by (auto simp: ran_def split: if_splits) force
  show "set ps \<union> ran T = set ps' \<union> ran T'"
  proof (cases "T (n div 512)")
    case None
    then obtain q qs where "ps = q # qs" using assms(2) by (cases ps) (auto simp: can_table_def)
    with None assms(1) show ?thesis by (auto simp: ran_map_upd)
  qed (use assms in auto)
qed

lemma grown_step:
  assumes g: "grown s pgd T M ps n0 n t T' M' ps'" and n: "n0 \<le> n" "n < npages (ucast newsz)" "npages (ucast newsz) \<le> NUPAGE"
    and M: "M n = None" and enough: "npages (ucast newsz) - n + card (missing T' n (npages (ucast newsz))) \<le> length ps'"
  shows "\<exists>u T2 M2 qs. alloc_body pgd oldsz newsz (pgaddr n) t = Ok (Inl (pgaddr (Suc n))) u \<and> grown s pgd T M ps n0 (Suc n) u T2 M2 qs
     \<and> npages (ucast newsz) - Suc n + card (missing T2 (Suc n) (npages (ucast newsz))) \<le> length qs"
proof -
  let ?N = "npages (ucast newsz)"
  from enough n obtain p rs where ps': "ps' = p # rs" by (cases ps') auto
  have U: "uspace t pgd T' M' (p # rs)" using g by (simp add: grown_def ps')
  have nn: "n < NUPAGE" "n < 2 ^ 40" using n by (auto simp: NUPAGE_def)
  have idx: "n div 512 \<le> (?N - 1) div 512" using n by (intro div_le_mono) simp
  have tab: "can_table n T' rs"
  proof (cases "T' (n div 512)")
    case None
    then have "missing T' n ?N \<noteq> {}" using idx by (auto simp: missing_def)
    then have "0 < card (missing T' n ?N)" by (simp add: card_gt_0_iff)
    with enough n ps' show ?thesis by (auto simp: can_table_def)
  qed (simp add: can_table_def)
  obtain T2 qs where w: "with_table n (T', rs) = (T2, qs)" by fastforce
  have "M' n = None" using g M by (simp add: grown_def)
  with alloc_one [OF U nn(1) _ _ tab w, of newsz oldsz] n nn obtain u where u:
    "alloc_body pgd oldsz newsz (pgaddr n) t = Ok (Inl (pgaddr (Suc n))) u" "uspace u pgd T2 (M'(n \<mapsto> user_pte p)) qs"
    "kframe t u" "zero_pg (mem u) p" "others_same t pgd T' (p # rs) u" by (auto simp: pgaddr_less)
  have A: "aspace t pgd T' M' (p # rs)" and F: "frames_ok t pgd T' M' (p # rs)" using U by (simp_all add: uspace_def)
  have p: "pg_aligned p" using aspace_pool [OF A] by auto
  have T2: "ran T' \<subseteq> ran T2" "set rs \<union> ran T' = set qs \<union> ran T2" using with_table_pages [OF w tab] .
  have "grown s pgd T M ps n0 (Suc n) u T2 (M'(n \<mapsto> user_pte p)) qs" unfolding grown_def
  proof (intro conjI)
    show "kframe s u" using g u(3) by (auto simp: grown_def intro: kframe_trans)
    show "\<forall>k. k \<notin> {n0..<Suc n} \<longrightarrow> (M'(n \<mapsto> user_pte p)) k = M k" using g n(1) by (auto simp: grown_def)
    show "\<forall>k \<in> {n0..<Suc n}. \<exists>e. (M'(n \<mapsto> user_pte p)) k = Some e \<and> PTE_FLAGS e = PTE_W OR PTE_U OR PTE_P \<and> zero_pg (mem u) (fr e)"
    proof
      fix k assume k: "k \<in> {n0..<Suc n}"
      show "\<exists>e. (M'(n \<mapsto> user_pte p)) k = Some e \<and> PTE_FLAGS e = PTE_W OR PTE_U OR PTE_P \<and> zero_pg (mem u) (fr e)"
      proof (cases "k = n")
        case True
        with u(4) p show ?thesis by (simp add: user_pte_simps)
      next
        case False
        with k have "k \<in> {n0..<n}" by auto
        with g obtain e where e: "M' k = Some e" "PTE_FLAGS e = PTE_W OR PTE_U OR PTE_P" "zero_pg (mem t) (fr e)"
          unfolding grown_def by blast
        have "valid_page t (fr e)" "fr e \<notin> set (p # rs)" "fr e \<noteq> pgd" "fr e \<notin> ran T'" using F e(1) unfolding frames_ok_def by blast+
        then have "pg_same (mem t) (mem u) (fr e)" using u(5) by (simp add: others_same_def valid_page_def)
        with e False show ?thesis by (simp add: zero_pg_same)
      qed
    qed
    have g': "ran T \<subseteq> ran T'" "set ps = set (p # rs) \<union> (ran T' - ran T) \<union> fr ` ran (M' |` {n0..<n})" "others_same s pgd T ps t"
      using g unfolding grown_def ps' by blast+
    then show "ran T \<subseteq> ran T2" using T2(1) by blast
    have R: "ran ((M'(n \<mapsto> user_pte p)) |` {n0..<Suc n}) = insert (user_pte p) (ran (M' |` {n0..<n}))"
      using n(1) \<open>M' n = None\<close> by (auto simp: ran_def restrict_map_def less_Suc_eq split: if_splits)
    have "x \<notin> ran T2" if "x \<in> set qs" for x using that aspace_pool [of u] u(2) by (auto simp: uspace_def)
    moreover have "x \<notin> ran T'" if "x \<in> set rs" for x using that aspace_pool [OF A] by auto
    ultimately show "set ps = set qs \<union> (ran T2 - ran T) \<union> fr ` ran ((M'(n \<mapsto> user_pte p)) |` {n0..<Suc n})"
      using g'(1,2) T2 unfolding R image_insert user_pte_simps(1) [OF p] by auto
    have "ran T' \<subseteq> ran T \<union> set ps" "set (p # rs) \<subseteq> set ps" using g' by auto
    with u(5) g'(3) show "others_same s pgd T ps u" unfolding others_same_def by (blast intro: pg_same_trans)
  qed (rule u(2))
  moreover have "?N - Suc n + card (missing T2 (Suc n) ?N) \<le> length qs"
    using missing_step [OF w n(2) enough [unfolded ps'] tab] .
  ultimately show ?thesis using u(1) by blast
qed

lemma alloc_loop:
  fixes s :: "'z cons_st_scheme"
  assumes U: "uspace s pgd T M ps" and N: "npages (ucast newsz) \<le> NUPAGE" "n0 \<le> npages (ucast newsz)"
    and M: "\<And>k. n0 \<le> k \<Longrightarrow> k < npages (ucast newsz) \<Longrightarrow> M k = None"
    and enough: "npages (ucast newsz) - n0 + card (missing T n0 (npages (ucast newsz))) \<le> length ps"
  shows "wp (loopK (alloc_body pgd oldsz newsz) (pgaddr n0))
    (\<lambda>r t. r = newsz \<and> (\<exists>T' M' ps'. grown s pgd T M ps n0 (npages (ucast newsz)) t T' M' ps')) s"
proof -
  let ?N = "npages (ucast newsz)"
  let ?I = "\<lambda>a (t :: 'z cons_st_scheme). \<exists>n T' M' ps'. a = pgaddr n \<and> n0 \<le> n \<and> n \<le> ?N \<and> grown s pgd T M ps n0 n t T' M' ps'
    \<and> ?N - n + card (missing T' n ?N) \<le> length ps'"
  show ?thesis
  proof (rule wp_loopK [where I = ?I and m = "\<lambda>a t. ?N * 4096 - unat a"])
    have "grown s pgd T M ps n0 n0 s T M ps" using U by (auto simp: grown_def others_same_def)
    then show "?I (pgaddr n0) s" using N enough by blast
  next
    fix a and t :: "'z cons_st_scheme" assume "?I a t"
    then obtain n T' M' ps' where n: "a = pgaddr n" "n0 \<le> n" "n \<le> ?N" "grown s pgd T M ps n0 n t T' M' ps'"
      "?N - n + card (missing T' n ?N) \<le> length ps'" by blast
    have sm: "k < 2 ^ 40" if "k \<le> Suc ?N" for k using that N(1) by (simp add: NUPAGE_def)
    show "wp (alloc_body pgd oldsz newsz a) (\<lambda>r u. case r of Inl a' \<Rightarrow> ?I a' u \<and> ?N * 4096 - unat a' < ?N * 4096 - unat a
      | Inr r \<Rightarrow> r = newsz \<and> (\<exists>T' M' ps'. grown s pgd T M ps n0 ?N u T' M' ps')) t"
    proof (cases "n < ?N")
      case False
      with n have "n = ?N" by simp
      moreover have "\<not> pgaddr n < ucast newsz" using False sm [of n] n(3) by (simp add: pgaddr_less)
      ultimately show ?thesis using n by (auto simp: alloc_body_def wp_rules)
    next
      case True
      from grown_step [OF n(4,2) True N(1) M [OF n(2) True] n(5), of oldsz] obtain u T2 M2 qs where u:
        "alloc_body pgd oldsz newsz (pgaddr n) t = Ok (Inl (pgaddr (Suc n))) u" "grown s pgd T M ps n0 (Suc n) u T2 M2 qs"
        "?N - Suc n + card (missing T2 (Suc n) ?N) \<le> length qs" by blast
      have "?I (pgaddr (Suc n)) u" using u(2,3) n(2) True by (intro exI conjI) auto
      moreover have "?N * 4096 - unat (pgaddr (Suc n)) < ?N * 4096 - unat (pgaddr n)"
        using True sm [of n] sm [of "Suc n"] by (simp add: unat_pgaddr)
      ultimately show ?thesis using u(1) by (simp add: wp_def n(1))
    qed
  qed
qed

lemma allocuvm_law:
  fixes s :: "'z cons_st_scheme"
  assumes U: "uspace s pgd T M ps" and N: "npages (ucast newsz) \<le> NUPAGE" "oldsz \<le> newsz"
    and M: "\<And>k. npages (ucast oldsz) \<le> k \<Longrightarrow> k < npages (ucast newsz) \<Longrightarrow> M k = None"
    and enough: "npages (ucast newsz) - npages (ucast oldsz) + card (missing T (npages (ucast oldsz)) (npages (ucast newsz))) \<le> length ps"
  shows "wp (allocuvm pgd oldsz newsz)
    (\<lambda>r t. r = newsz \<and> (\<exists>T' M' ps'. grown s pgd T M ps (npages (ucast oldsz)) (npages (ucast newsz)) t T' M' ps')) s"
proof -
  have u: "unat (ucast newsz :: addr) = unat newsz" "unat (ucast oldsz :: addr) = unat oldsz" by (simp_all add: unat_ucast_up)
  have "unat newsz < 2 ^ 32" "unat oldsz < 2 ^ 32" using unat_lt_exp [of newsz] unat_lt_exp [of oldsz] by simp_all
  then have k: "\<not> KERNBASE \<le> ucast newsz" and r: "unat (ucast oldsz :: addr) + 4095 < 2 ^ 64"
    by (simp_all add: KERNBASE_def word_le_nat_alt u)
  have "npages (ucast oldsz) \<le> npages (ucast newsz)" using N(2) by (simp add: npages_def u word_le_nat_alt div_le_mono)
  from alloc_loop [OF U N(1) this M enough, of oldsz] show ?thesis
    using N(2) k by (simp add: allocuvm_eq PGROUNDUP_pages [OF r] not_less [THEN iffD2])
qed

section \<open>Buffers in user memory\<close>

text \<open>
  The \<open>n\<close> bytes at the virtual address \<open>a\<close> are the distinct kernel bytes \<open>g 0\<close>, \<open>g 1\<close>, \<open>\<dots>\<close>, and
  stay so whatever is written to them: the buffer does not overlap the page tables it is reached through.
\<close>

definition ubuf :: "'z vm_st_scheme \<Rightarrow> addr \<Rightarrow> nat \<Rightarrow> (nat \<Rightarrow> addr) \<Rightarrow> bool" where
  "ubuf s a n g \<longleftrightarrow> inj_on g {..<n}
     \<and> (\<forall>m i. i < n \<longrightarrow> (\<forall>x. x \<notin> g ` {..<n} \<longrightarrow> m x = mem s x) \<longrightarrow> kva (a + of_nat i) (s\<lparr>mem := m\<rparr>) = Some (g i))"

lemma uload_eq: "kva a s = Some x \<Longrightarrow> uload a s = Ok (mem s x) s"
  by (simp add: uload_def kdefs)

lemma uload_n_eq: "(\<And>i. i < n \<Longrightarrow> kva (a + of_nat i) s = Some (g i)) \<Longrightarrow> uload_n a n s = Ok (map (\<lambda>i. mem s (g i)) [0..<n]) s"
proof (induction n arbitrary: a g)
  case (Suc n)
  have "uload_n (a + 1) n s = Ok (map (\<lambda>i. mem s (g (Suc i))) [0..<n]) s"
    using Suc.prems [of "Suc _"] by (intro Suc.IH) (simp add: add.assoc)
  moreover have "uload a s = Ok (mem s (g 0)) s" using Suc.prems [of 0] by (simp add: uload_eq)
  ultimately show ?case by (simp add: run_Ok ret_def upt_conv_Cons map_Suc_upt [symmetric] del: upt_Suc)
qed (simp add: ret_def)

lemma ubuf_at: "ubuf s a n g \<Longrightarrow> i < n \<Longrightarrow> kva (a + of_nat i) s = Some (g i)"
  unfolding ubuf_def by (metis (no_types, lifting) kmem_st.surjective kmem_st.update_convs(1))

lemma ustore_n_from:
  assumes U: "ubuf s a n g" and "j + length bs \<le> n" and "\<forall>x. x \<notin> g ` {..<n} \<longrightarrow> m x = mem s x"
  shows "\<exists>m'. ustore_n (a + of_nat j) bs (s\<lparr>mem := m\<rparr>) = Ok () (s\<lparr>mem := m'\<rparr>)
    \<and> (\<forall>i < length bs. m' (g (j + i)) = bs ! i) \<and> (\<forall>x. x \<notin> g ` {j..<j + length bs} \<longrightarrow> m' x = m x)"
  using assms(2,3)
proof (induction bs arbitrary: j m)
  case Nil
  then show ?case by (auto simp: ret_def intro!: exI [of _ m])
next
  case (Cons b bs)
  let ?m = "m(g j := b)"
  have k: "kva (a + of_nat j) (s\<lparr>mem := m\<rparr>) = Some (g j)" using U Cons.prems unfolding ubuf_def by auto
  have "j < n" using Cons.prems by simp
  then have "\<forall>x. x \<notin> g ` {..<n} \<longrightarrow> ?m x = mem s x" using Cons.prems(2) by auto
  moreover have "Suc j + length bs \<le> n" using Cons.prems(1) by simp
  moreover have a1: "a + of_nat (Suc j) = a + of_nat j + 1" by simp
  ultimately obtain m' where m': "ustore_n (a + of_nat j + 1) bs (s\<lparr>mem := ?m\<rparr>) = Ok () (s\<lparr>mem := m'\<rparr>)"
    "\<forall>i < length bs. m' (g (Suc j + i)) = bs ! i" "\<forall>x. x \<notin> g ` {Suc j..<Suc j + length bs} \<longrightarrow> m' x = ?m x"
    using Cons.IH [of "Suc j" ?m] unfolding a1 by blast
  have "g j \<notin> g ` {Suc j..<Suc j + length bs}"
  proof -
    have "inj_on g {..<n}" "j \<in> {..<n}" "{Suc j..<Suc j + length bs} \<subseteq> {..<n}" using U Cons.prems(1) by (auto simp: ubuf_def)
    from inj_on_image_mem_iff [OF this] show ?thesis by simp
  qed
  then have 0: "m' (g j) = b" using m'(3) by simp
  have "ustore (a + of_nat j) b (s\<lparr>mem := m\<rparr>) = Ok () (s\<lparr>mem := ?m\<rparr>)" using k by (simp add: ustore_def kdefs)
  then have "ustore_n (a + of_nat j) (b # bs) (s\<lparr>mem := m\<rparr>) = Ok () (s\<lparr>mem := m'\<rparr>)" using m'(1) by (simp add: run_Ok)
  moreover have "m' (g (j + i)) = (b # bs) ! i" if "i < length (b # bs)" for i using that 0 m'(2) by (cases i) auto
  moreover have "m' x = m x" if "x \<notin> g ` {j..<j + length (b # bs)}" for x
  proof -
    have "x \<noteq> g j" "x \<notin> g ` {Suc j..<Suc j + length bs}" using that by auto
    then show ?thesis using m'(3) by simp
  qed
  ultimately show ?case by blast
qed

text \<open>Writing to a user buffer and reading it back.\<close>

lemma ustore_n_law:
  assumes "ubuf s a n g" "length bs \<le> n"
  obtains m where "ustore_n a bs s = Ok () (s\<lparr>mem := m\<rparr>)" "\<And>i. i < length bs \<Longrightarrow> m (g i) = bs ! i"
    "\<And>x. x \<notin> g ` {..<length bs} \<Longrightarrow> m x = mem s x"
  using ustore_n_from [OF assms(1), of 0 bs "mem s"] assms(2) by (auto simp: atLeast0LessThan)

lemma and_mask12: "(va :: addr) AND 0xFFF = of_nat (unat va mod 4096)"
proof -
  have "va AND 0xFFF = take_bit 12 va" by (simp add: take_bit_eq_mask mask_eq_exp_minus_1)
  also have "\<dots> = va mod 4096" by (simp add: take_bit_eq_mod)
  finally have "unat (va AND 0xFFF) = unat va mod 4096" by (simp add: unat_mod)
  moreover have "unat (of_nat (unat va mod 4096) :: addr) = unat va mod 4096" by (rule unat_of_nat_small) simp
  ultimately show ?thesis by (simp only: word_unat_eq_iff)
qed

lemma aligned_or: "pg_aligned x \<Longrightarrow> x OR (va AND 0xFFF) = x + (va AND 0xFFF)"
  unfolding page_mask by (rule disjunctive_add [symmetric]) (metis bit_and_iff bit_0_eq bot_apply bot_bool_def)

text \<open>Any range of mapped user addresses is such a buffer.\<close>

lemma uspace_ubuf:
  fixes s :: "'z vm_st_scheme"
  assumes U: "uspace s pgd T M ps" and r: "rooted (mem s) p4 p3 pgd" "pg_aligned p4" "pg_aligned p3" "p4 \<notin> fr ` ran M" "p3 \<notin> fr ` ran M"
    and cr3: "cr3 s = v2p p4" and a: "unat a + n \<le> NUPAGE * 4096" and M: "\<forall>i < n. M ((unat a + i) div 4096) \<noteq> None"
  shows "ubuf s a n (\<lambda>i. fr (the (M ((unat a + i) div 4096))) + of_nat ((unat a + i) mod 4096))"
proof -
  let ?k = "\<lambda>i. (unat a + i) div 4096" and ?o = "\<lambda>i. (unat a + i) mod 4096"
  let ?g = "\<lambda>i. fr (the (M (?k i))) + of_nat (?o i)"
  have A: "aspace s pgd T M ps" and F: "frames_ok s pgd T M ps" using U by (simp_all add: uspace_def)
  have u: "unat (a + of_nat i) = unat a + i" if "i < n" for i
  proof -
    have "unat a + i < 2 ^ 64" using a that by (simp add: NUPAGE_def)
    then show ?thesis by (simp add: unat_word_ariths unat_of_nat mod_simps)
  qed
  have page: "in_page (a + of_nat i) (?k i)" if "i < n" for i using u [OF that] that a by (simp add: in_page_def NUPAGE_def)
  have fa: "pg_aligned (fr (the (M (?k i))))" "fr (the (M (?k i))) \<in> fr ` ran M" if "i < n" for i
    using M that F by (auto simp: frames_ok_def valid_page_def intro!: imageI ranI)
  have ne: "q \<noteq> fr (the (M (?k i))) \<longrightarrow> pg_aligned q \<longrightarrow> unat off < 4096 \<longrightarrow> q + off \<noteq> ?g i" if "i < n" for i q off
  proof (intro impI notI)
    assume q: "q \<noteq> fr (the (M (?k i)))" "pg_aligned q" "unat off < 4096" "q + off = ?g i"
    then have "q + off - fr (the (M (?k i))) = of_nat (?o i)" by simp
    moreover have "unat (of_nat (?o i) :: addr) = ?o i" by (rule unat_of_nat_small) simp
    moreover have "4096 \<le> unat (q + off - fr (the (M (?k i))))" using page_distance [OF q(2) fa(1) [OF that] q(1,3)] .
    ultimately have "4096 \<le> ?o i" by simp
    then show False using mod_less_divisor [of 4096 "unat a + i"] by simp
  qed
  have "inj_on ?g {..<n}"
  proof (rule inj_onI)
    fix i j assume ij: "i \<in> {..<n}" "j \<in> {..<n}" "?g i = ?g j"
    have ofs: "unat (of_nat (?o x) :: addr) = ?o x" for x by (rule unat_of_nat_small) simp
    have "fr (the (M (?k i))) = fr (the (M (?k j)))"
      using ne [of j "fr (the (M (?k i)))" "of_nat (?o i)"] ij fa(1) [of i] ofs [of i] by auto
    moreover from this ij(3) ofs [of i] ofs [of j] have "?o i = ?o j" by (metis add_left_imp_eq)
    moreover obtain e where "M (?k i) = Some e" using M ij(1) by auto
    moreover obtain f where "M (?k j) = Some f" using M ij(2) by auto
    ultimately have "?k i = ?k j" "?o i = ?o j" using F unfolding frames_ok_def by auto
    then show "i = j" by (metis add_left_imp_eq div_mod_decomp)
  qed
  moreover have "kva (a + of_nat i) (s\<lparr>mem := m\<rparr>) = Some (?g i)" if i: "i < n" and m: "\<forall>x. x \<notin> ?g ` {..<n} \<longrightarrow> m x = mem s x" for m i
  proof -
    have same: "pg_same (mem s) m q" if "pg_aligned q" "q \<notin> fr ` ran M" for q
      unfolding pg_same_def using m ne that fa(2) by (auto simp: image_iff) (metis lessThan_iff)
    have "aspace (s\<lparr>mem := m\<rparr>) pgd T M ps"
    proof (rule aspace_mem [OF A])
      fix q assume q: "q = pgd \<or> q \<in> ran T \<or> q \<in> set ps"
      have "q \<notin> fr ` ran M" using q F by (auto simp: frames_ok_def ran_def)
      moreover have "pg_aligned q" using q aspaceD(4) [OF A] aspace_ran [OF A] aspace_pool [OF A] by auto
      ultimately show "pg_same (mem s) m q" by (intro same)
    qed
    moreover have "rooted m p4 p3 pgd"
      using r(1) pg_same_load [OF same [OF r(2,4)], of 0] pg_same_load [OF same [OF r(3,5)], of 0] by (simp add: rooted_def)
    ultimately have "hw_walk m (v2p p4) (a + of_nat i) = map_option (\<lambda>e. PTE_ADDR e OR ((a + of_nat i) AND 0xFFF)) (M (?k i))"
      using hw_walk_aspace [of "s\<lparr>mem := m\<rparr>" pgd T M ps p4 p3] r page [OF i] by simp
    moreover obtain e where e: "M (?k i) = Some e" using M i by auto
    moreover have "PTE_ADDR e OR ((a + of_nat i) AND 0xFFF) = PTE_ADDR e + ((a + of_nat i) AND 0xFFF)"
      by (rule aligned_or) (simp add: page_mask PTE_ADDR_def and.assoc)
    moreover have "a + of_nat i < KERNBASE" using u [OF i] a i by (simp add: word_less_nat_alt KERNBASE_def NUPAGE_def)
    ultimately show ?thesis using u [OF i] cr3
      by (simp add: kva_def not_le [symmetric] and_mask12 fr_def p2v_def algebra_simps)
  qed
  ultimately show ?thesis by (simp add: ubuf_def)
qed

section \<open>Properties\<close>

text \<open>A machine with six free pages, after \<^verbatim>\<open>setupkvm\<close> took three of them.\<close>

definition vm_boot :: vm_st where
  "vm_boot = cons_st.extend cons_boot (vm_st.fields 0 0 0 0 0 0 (0, 0) 0 0 (\<lambda>_. 0) [] [] 0)"

lemmas vm_boot_defs = vm_boot_def cons_boot_def cons_boot_defs vm_st.defs

definition pg :: "nat \<Rightarrow> addr" where
  "pg i = 0xFFFFFFFF80200000 + of_nat (4096 * i)"

lemma put_pages:
  "settled s \<Longrightarrow> kmem_rep s ps \<Longrightarrow> \<forall>p \<in> set xs. valid_page s p \<Longrightarrow> distinct (xs @ ps) \<Longrightarrow>
   \<exists>t. kframe s t \<and> kmem_rep t (rev xs @ ps)"
proof (induction xs arbitrary: s ps)
  case Nil
  then show ?case by (auto intro!: exI [of _ s])
next
  case (Cons p xs)
  have "valid_page s p" "p \<notin> set ps" using Cons.prems by auto
  from kfree_put [OF Cons.prems(1,2) this] obtain m f where k: "kmem_rep (s\<lparr>mem := m, freelist := f\<rparr>) (p # ps)" by blast
  let ?s = "s\<lparr>mem := m, freelist := f\<rparr>"
  have "\<exists>t. kframe ?s t \<and> kmem_rep t (rev xs @ p # ps)" using Cons.prems k
    by (intro Cons.IH) (auto simp: settled_def mach_ok_def)
  then obtain t where "kframe ?s t" "kmem_rep t (rev xs @ p # ps)" by blast
  then show ?case using kframe_trans [OF kframe_upd(1)] by (intro exI [of _ t]) auto
qed

lemma vm_boot_pages:
  obtains s :: vm_st where "settled s" "kmem_rep s [pg 5, pg 4, pg 3, pg 2, pg 1, pg 0]" "KERNBASE < kend s"
proof -
  have b: "settled vm_boot" "kmem_rep vm_boot []" "KERNBASE < kend vm_boot"
    by (simp_all add: vm_boot_defs settled_def mach_ok_def kmem_rep_def kmem_ready_def free_lock_def KERNBASE_def)
  have "\<exists>t. kframe vm_boot t \<and> kmem_rep t (rev (map pg [0, 1, 2, 3, 4, 5]) @ [])"
    by (rule put_pages [OF b(1,2)]) (simp_all add: pg_def vm_boot_defs valid_page_def pg_aligned_def PGSIZE_def v2p_def KERNBASE_def PHYSTOP_def)
  then obtain t where "kframe vm_boot t" "kmem_rep t [pg 5, pg 4, pg 3, pg 2, pg 1, pg 0]" by auto
  with b show thesis by (intro that [of t]) (auto simp: kframe_sel kframe_def)
qed

text \<open>The address space that \<^verbatim>\<open>setupkvm\<close> makes there: three pages are left.\<close>

lemma vm_boot_space:
  obtains s :: vm_st where "uspace s (pg 3) Map.empty Map.empty [pg 2, pg 1, pg 0]" "rooted (mem s) (pg 5) (pg 4) (pg 3)"
proof -
  obtain s :: vm_st where s: "settled s" "kmem_rep s [pg 5, pg 4, pg 3, pg 2, pg 1, pg 0]" "KERNBASE < kend s" by (rule vm_boot_pages)
  from setupkvm_law [OF this] obtain t :: vm_st where t: "uspace t (pg 3) Map.empty Map.empty [pg 2, pg 1, pg 0]"
    "mem t = kvm_mem (mem s) (kpdpt s) (pg 5) (pg 4) (pg 3)" unfolding wp_returns by blast
  have a: "pg_aligned (pg 5)" "pg_aligned (pg 4)" "pg_aligned (pg 3)" "pg 5 \<noteq> pg 4" "pg 5 \<noteq> pg 3" "pg 4 \<noteq> pg 3"
    by (simp_all add: pg_def pg_aligned_def PGSIZE_def)
  from t(2) kvm_mem_laws(1,2) [OF a] have "rooted (mem t) (pg 5) (pg 4) (pg 3)" by (simp only: rooted_def)
  with t(1) show thesis by (rule that)
qed

text \<open>
  C17. \<^verbatim>\<open>mappages\<close> of one page, seen by the processor. If the page table page is missing and there is no free
  page it returns -1 and changes nothing; if the page is already mapped it panics; otherwise it returns 0 and
  from then on the four-level walk from the root of the address space takes the addresses of the
  page to the given physical page, and every other user address where it went before.
\<close>

theorem mappages_maps_page:
  fixes s :: "'z kmem_st_scheme"
  assumes "aspace s pgd T M ps" and "in_page a n" and "pg_aligned a" and "pg_aligned pa" and "perm AND NOT 0xFFF = 0"
    and "rooted (mem s) p4 p3 pgd" and "pg_aligned p4" and "pg_aligned p3"
    and "p4 \<notin> insert pgd (ran T \<union> set ps)" and "p3 \<notin> insert pgd (ran T \<union> set ps)"
  shows "(\<not> can_table n T ps \<longrightarrow> mappages pgd a PGSIZE pa perm s = Ok (- 1) s)
    \<and> (M n \<noteq> None \<longrightarrow> mappages pgd a PGSIZE pa perm s = Panic ''remap'')
    \<and> (M n = None \<and> can_table n T ps \<longrightarrow> wp (mappages pgd a PGSIZE pa perm) (\<lambda>r t. r = 0
         \<and> (\<forall>va k. in_page va k \<longrightarrow> hw_walk (mem t) (v2p p4) va =
               (if k = n then Some (pa OR (va AND 0xFFF)) else hw_walk (mem s) (v2p p4) va))) s)"
proof (intro conjI impI)
  show "\<not> can_table n T ps \<Longrightarrow> mappages pgd a PGSIZE pa perm s = Ok (- 1) s" by (rule mappages_step(1) [OF assms(1-3)])
  show "M n \<noteq> None \<Longrightarrow> mappages pgd a PGSIZE pa perm s = Panic ''remap''" by (rule mappages_step(2) [OF assms(1-3)])
  assume "M n = None \<and> can_table n T ps"
  then have n: "M n = None" "can_table n T ps" by auto
  obtain T' ps' where w: "with_table n (T, ps) = (T', ps')" by fastforce
  from mappages_step(3) [OF assms(1-3) n w, of pa perm] obtain t :: "'z kmem_st_scheme" where
    t: "mappages pgd a PGSIZE pa perm s = Ok 0 t" "aspace t pgd T' (M(n \<mapsto> pa OR perm OR PTE_P)) ps'" "others_same s pgd T ps t" by blast
  have "pg_same (mem s) (mem t) p4" "pg_same (mem s) (mem t) p3" using t(3) assms(7-10) by (auto simp: others_same_def)
  then have r: "rooted (mem t) p4 p3 pgd"
    using assms(6) pg_same_load [of "mem s" "mem t" p4 0] pg_same_load [of "mem s" "mem t" p3 0] by (simp add: rooted_def)
  have "(perm OR PTE_P) AND NOT 0xFFF = 0" using assms(5) by (simp add: bit.conj_disj_distrib2 PTE_P_def)
  then have "PTE_ADDR (pa OR perm OR PTE_P) = pa" using PTE_ADDR_or [OF assms(4)] by (simp add: or.assoc)
  with hw_walk_aspace [OF t(2) r assms(7,8)] hw_walk_aspace [OF assms(1,6-8)] t(1)
  show "wp (mappages pgd a PGSIZE pa perm) (\<lambda>r t. r = 0 \<and> (\<forall>va k. in_page va k \<longrightarrow> hw_walk (mem t) (v2p p4) va =
               (if k = n then Some (pa OR (va AND 0xFFF)) else hw_walk (mem s) (v2p p4) va))) s"
    by (auto simp: wp_def)
qed

theorem mappages_maps_page_witness:
  "\<exists>s :: vm_st. wp (mappages (pg 3) 0x5000 PGSIZE 0x7000 (PTE_W OR PTE_U)) (\<lambda>r t. r = 0 \<and> hw_walk (mem t) (v2p (pg 5)) 0x5123 = Some 0x7123) s"
proof -
  obtain s :: vm_st where s: "uspace s (pg 3) Map.empty Map.empty [pg 2, pg 1, pg 0]" "rooted (mem s) (pg 5) (pg 4) (pg 3)" by (rule vm_boot_space)
  have i: "in_page 0x5000 5" "in_page 0x5123 5" "pg_aligned 0x5000" "pg_aligned 0x7000" "pg_aligned (pg 5)" "pg_aligned (pg 4)"
    "(PTE_W OR PTE_U) AND NOT 0xFFF = 0" by (simp_all add: in_page_def NUPAGE_def pg_aligned_def PGSIZE_def PTE_W_def PTE_U_def pg_def)
  have o: "pg 5 \<notin> insert (pg 3) (ran Map.empty \<union> set [pg 2, pg 1, pg 0])" "pg 4 \<notin> insert (pg 3) (ran Map.empty \<union> set [pg 2, pg 1, pg 0])"
    by (simp_all add: pg_def)
  have "wp (mappages (pg 3) 0x5000 PGSIZE 0x7000 (PTE_W OR PTE_U)) (\<lambda>r t. r = 0 \<and> (\<forall>va k. in_page va k \<longrightarrow>
      hw_walk (mem t) (v2p (pg 5)) va = (if k = 5 then Some (0x7000 OR (va AND 0xFFF)) else hw_walk (mem s) (v2p (pg 5)) va))) s"
    by (rule mappages_maps_page [OF _ i(1,3,4,7) s(2) i(5,6) o, THEN conjunct2, THEN conjunct2, THEN mp])
       (use s(1) in \<open>auto simp: uspace_def can_table_def\<close>)
  then have "wp (mappages (pg 3) 0x5000 PGSIZE 0x7000 (PTE_W OR PTE_U)) (\<lambda>r t. r = 0 \<and> hw_walk (mem t) (v2p (pg 5)) 0x5123 = Some 0x7123) s"
    by (rule wp_mono) (use i(2) in auto)
  then show ?thesis by blast
qed

lemma ucast_ucast32: "ucast (ucast x :: addr) = (x :: uint)"
  by (rule bit_word_eqI) (auto simp: bit_simps)

text \<open>
  C18. \<^verbatim>\<open>allocuvm\<close> with enough free pages for the new pages and the page tables they lack: it returns the new
  size; each new page is mapped to a frame of its own, writable by the user and full of zeros; all older
  pages and the contents of every page outside the pool and the tables stay as they were; and the pages
  taken from the pool are exactly the new frames and the new tables. \<^verbatim>\<open>deallocuvm\<close> back to the old size then
  restores the mapping and gives back every frame.
\<close>

theorem allocuvm_deallocuvm_roundtrip:
  fixes s :: "'z cons_st_scheme"
  assumes "uspace s pgd T M ps" and "npages (ucast newsz) \<le> NUPAGE" and "oldsz < newsz"
    and "\<And>k. npages (ucast oldsz) \<le> k \<Longrightarrow> k < npages (ucast newsz) \<Longrightarrow> M k = None"
    and "npages (ucast newsz) - npages (ucast oldsz) + card (missing T (npages (ucast oldsz)) (npages (ucast newsz))) \<le> length ps"
  shows "wp (allocuvm pgd oldsz newsz) (\<lambda>r t. r = newsz
      \<and> (\<exists>T' M' ps'. grown s pgd T M ps (npages (ucast oldsz)) (npages (ucast newsz)) t T' M' ps')
      \<and> wp (deallocuvm pgd (ucast newsz) (ucast oldsz)) (\<lambda>r u. r = oldsz
          \<and> (\<exists>T' qs. uspace u pgd T' M qs \<and> set qs \<union> (ran T' - ran T) = set ps)) t) s"
proof -
  let ?a = "npages (ucast oldsz)" and ?b = "npages (ucast newsz)"
  have "wp (allocuvm pgd oldsz newsz) (\<lambda>r t. r = newsz \<and> (\<exists>T' M' ps'. grown s pgd T M ps ?a ?b t T' M' ps')) s"
    using assms(3) by (intro allocuvm_law assms(1,2,4,5)) auto
  then show ?thesis
  proof (rule wp_mono)
    fix r t assume "r = newsz \<and> (\<exists>T' M' ps'. grown s pgd T M ps ?a ?b t T' M' ps')"
    then obtain T' M' ps' where r: "r = newsz" and g: "grown s pgd T M ps ?a ?b t T' M' ps'" by blast
    have U: "uspace t pgd T' M' ps'" and out: "\<And>k. k \<notin> {?a..<?b} \<Longrightarrow> M' k = M k" and inn: "\<And>k. k \<in> {?a..<?b} \<Longrightarrow> M' k \<noteq> None"
      and pool: "set ps = set ps' \<union> (ran T' - ran T) \<union> fr ` ran (M' |` {?a..<?b})" using g unfolding grown_def by fastforce+
    have "T' (k div 512) \<noteq> None" if "?a \<le> k" "k < ?b" for k
      using aspaceD(9) [of t pgd T' M' ps' k] U inn [of k] that assms(2) by (auto simp: uspace_def)
    moreover have "(ucast oldsz :: addr) < ucast newsz" using assms(3) by (simp add: word_less_nat_alt unat_ucast_up)
    ultimately have "wp (deallocuvm pgd (ucast newsz) (ucast oldsz)) (\<lambda>r u. r = ucast (ucast oldsz :: addr) \<and> freed_ok t pgd T' M' ps' ?a ?b u) t"
      using assms(2) by (intro deallocuvm_law [OF U]) auto
    moreover have "M' |` {k. k < ?a \<or> ?b \<le> k} = M"
      using out assms(4) by (auto simp: restrict_map_def fun_eq_iff not_le not_less)
    ultimately have "wp (deallocuvm pgd (ucast newsz) (ucast oldsz)) (\<lambda>r u. r = oldsz \<and> (\<exists>T' qs. uspace u pgd T' M qs \<and> set qs \<union> (ran T' - ran T) = set ps)) t"
      by (elim wp_mono) (auto simp: freed_ok_def pool ucast_ucast32 intro!: exI [of _ T'])
    with r g show "r = newsz \<and> (\<exists>T' M' ps'. grown s pgd T M ps ?a ?b t T' M' ps')
      \<and> wp (deallocuvm pgd (ucast newsz) (ucast oldsz)) (\<lambda>r u. r = oldsz \<and> (\<exists>T' qs. uspace u pgd T' M qs \<and> set qs \<union> (ran T' - ran T) = set ps)) t"
      by blast
  qed
qed

theorem allocuvm_deallocuvm_roundtrip_witness:
  "\<exists>s :: vm_st. wp (allocuvm (pg 3) 0 5000) (\<lambda>r t. r = 5000 \<and> wp (deallocuvm (pg 3) 5000 0) (\<lambda>r u. r = 0) t) s"
proof -
  obtain s :: vm_st where s: "uspace s (pg 3) Map.empty Map.empty [pg 2, pg 1, pg 0]" by (rule vm_boot_space)
  have "missing Map.empty 0 2 = {0}" by (auto simp: missing_def)
  then have "wp (allocuvm (pg 3) 0 5000) (\<lambda>r t. r = 5000 \<and> (\<exists>T' M' ps'. grown s (pg 3) Map.empty Map.empty [pg 2, pg 1, pg 0] 0 2 t T' M' ps')
      \<and> wp (deallocuvm (pg 3) 5000 0) (\<lambda>r u. r = 0 \<and> (\<exists>T' qs. uspace u (pg 3) T' Map.empty qs \<and> set qs \<union> (ran T' - ran Map.empty) = set [pg 2, pg 1, pg 0])) t) s"
    using allocuvm_deallocuvm_roundtrip [OF s, of 5000 0] by (simp add: npages_def NUPAGE_def)
  then have "wp (allocuvm (pg 3) 0 5000) (\<lambda>r t. r = 5000 \<and> wp (deallocuvm (pg 3) 5000 0) (\<lambda>r u. r = 0) t) s"
    by (rule wp_mono) (auto elim: wp_mono)
  then show ?thesis by blast
qed



text \<open>
  C20. A defect: the address space that \<^verbatim>\<open>setupkvm\<close> makes takes three pages, and \<^verbatim>\<open>freevm\<close> gives only
  one of them back. The top-level table and the table below it are lost each time a process ends or
  replaces its program.
\<close>

theorem freevm_leaks_two_pages:
  assumes "settled s" and "kmem_rep s (p4 # p3 # pgd # ps)" and "KERNBASE < kend s"
  shows "wp (bindK setupkvm freevm) (\<lambda>_ t. \<exists>qs. kmem_rep t qs \<and> set qs = insert pgd (set ps) \<and> p4 \<notin> set qs \<and> p3 \<notin> set qs) s"
proof -
  have d: "distinct (p4 # p3 # pgd # ps)" using assms(2) by (simp add: kmem_rep_def)
  from setupkvm_law [OF assms] show ?thesis unfolding wp_bindK
  proof (rule wp_mono)
    fix r t assume "r = pgd \<and> uspace t pgd Map.empty Map.empty ps \<and> kframe s t \<and> mem t = kvm_mem (mem s) (kpdpt s) p4 p3 pgd"
    then have "r = pgd" "uspace t pgd Map.empty Map.empty ps" by auto
    with freevm_law [of t pgd Map.empty Map.empty ps] d
    show "wp (freevm r) (\<lambda>_ t. \<exists>qs. kmem_rep t qs \<and> set qs = insert pgd (set ps) \<and> p4 \<notin> set qs \<and> p3 \<notin> set qs) t"
      by (auto elim!: wp_mono)
  qed
qed

theorem freevm_leaks_two_pages_witness:
  "\<exists>s :: vm_st. kmem_rep s [pg 5, pg 4, pg 3, pg 2, pg 1, pg 0]
     \<and> wp (bindK setupkvm freevm) (\<lambda>_ t. \<exists>qs. kmem_rep t qs \<and> set qs = {pg 0, pg 1, pg 2, pg 3}) s"
proof -
  obtain s :: vm_st where s: "settled s" "kmem_rep s [pg 5, pg 4, pg 3, pg 2, pg 1, pg 0]" "KERNBASE < kend s" by (rule vm_boot_pages)
  have "wp (bindK setupkvm freevm) (\<lambda>_ t. \<exists>qs. kmem_rep t qs \<and> set qs = {pg 0, pg 1, pg 2, pg 3}) s"
    by (rule wp_mono [OF freevm_leaks_two_pages [OF s]]) (auto simp: insert_commute)
  with s(2) show ?thesis by blast
qed

text \<open>
  C21. A defect: \<^verbatim>\<open>allocuvm\<close> ignores the result of \<^verbatim>\<open>mappages\<close>. When the last free page becomes the frame of a
  page whose page table does not exist yet, it reports success although the page is not mapped, and the frame
  is in no list any more.
\<close>

theorem allocuvm_ignores_failed_mapping:
  fixes s :: "'z cons_st_scheme"
  assumes "aspace s pgd T M [p]" and "npages (ucast newsz) = Suc (npages (ucast oldsz))" and "npages (ucast newsz) \<le> NUPAGE"
    and "oldsz \<le> newsz" and "T (npages (ucast oldsz) div 512) = None"
  shows "wp (allocuvm pgd oldsz newsz) (\<lambda>r t. r = newsz \<and> aspace t pgd T M [] \<and> M (npages (ucast oldsz)) = None) s"
proof -
  let ?n = "npages (ucast oldsz)"
  have nn: "?n < NUPAGE" "?n < 2 ^ 40" "Suc ?n < 2 ^ 40" using assms(2,3) by (auto simp: NUPAGE_def)
  have p: "pg_aligned p" "p \<noteq> 0" "p \<noteq> pgd" "p \<notin> ran T" using aspace_pool [OF assms(1), of p] by (auto dest: valid_page_neq_0)
  obtain f where f: "kalloc s = Ok p (s\<lparr>freelist := f\<rparr>)" "aspace (s\<lparr>freelist := f\<rparr>) pgd T M []" by (rule aspace_take [OF assms(1)])
  let ?s = "s\<lparr>freelist := f, mem := memset (mem s) p 0 4096\<rparr>"
  have A: "aspace ?s pgd T M []" using p aspaceD(4) [OF f(2)] aspace_ran [OF f(2)]
    by (intro aspace_mem [OF f(2)]) (auto intro!: pg_same_memset)
  have m: "mappages pgd (pgaddr ?n) PGSIZE (v2p p) (PTE_W OR PTE_U) ?s = Ok (- 1) ?s"
    using mappages_step(1) [OF A pgaddr_page [OF nn(1)]] assms(5) by (simp add: can_table_def)
  have b1: "alloc_body pgd oldsz newsz (pgaddr ?n) s = Ok (Inl (pgaddr (Suc ?n))) ?s"
    using f(1) m p(2) assms(2) nn by (simp add: alloc_body_def run_Ok run_steps upd_mem_def ret_def pgaddr_next pgaddr_less)
  have b2: "alloc_body pgd oldsz newsz (pgaddr (Suc ?n)) ?s = Ok (Inr newsz) ?s"
    using assms(2) nn by (simp add: alloc_body_def ret_def pgaddr_less)
  have "loopK (alloc_body pgd oldsz newsz) (pgaddr ?n) s = Ok newsz ?s"
    by (simp add: loopK_unfold [of _ "pgaddr ?n"] loopK_unfold [of _ "pgaddr (Suc ?n)"] bindK_def b1 b2 ret_def)
  moreover have "\<not> KERNBASE \<le> ucast newsz" "unat (ucast oldsz :: addr) + 4095 < 2 ^ 64"
    using unat_lt_exp [of newsz] unat_lt_exp [of oldsz] by (simp_all add: KERNBASE_def word_le_nat_alt unat_ucast_up)
  ultimately have "allocuvm pgd oldsz newsz s = Ok newsz ?s" using assms(4) by (simp add: allocuvm_eq PGROUNDUP_pages not_less [THEN iffD2])
  then show ?thesis using A aspaceD(9) [OF A nn(1) assms(5)] by (simp add: wp_def)
qed

theorem allocuvm_ignores_failed_mapping_witness:
  "\<exists>s :: vm_st. aspace s (pg 3) Map.empty Map.empty [pg 0]
     \<and> wp (allocuvm (pg 3) 0 100) (\<lambda>r t. r = 100 \<and> aspace t (pg 3) Map.empty Map.empty []) s"
proof -
  obtain s :: vm_st where s: "uspace s (pg 3) Map.empty Map.empty [pg 2, pg 1, pg 0]" by (rule vm_boot_space)
  then have A: "aspace s (pg 3) Map.empty Map.empty [pg 2, pg 1, pg 0]" unfolding uspace_def by blast
  obtain f where f: "aspace (s\<lparr>freelist := f\<rparr>) (pg 3) Map.empty Map.empty [pg 1, pg 0]" using aspace_take [OF A] by blast
  obtain g where g: "aspace (s\<lparr>freelist := g\<rparr>) (pg 3) Map.empty Map.empty [pg 0]" using aspace_take [OF f] by auto
  from allocuvm_ignores_failed_mapping [OF g, of 100 0]
  have "wp (allocuvm (pg 3) 0 100) (\<lambda>r t. r = 100 \<and> aspace t (pg 3) Map.empty Map.empty []) (s\<lparr>freelist := g\<rparr>)"
    by (simp add: npages_def NUPAGE_def)
  with g show ?thesis by blast
qed

end
