(* ===== verification/Inode.thy ===== *)
theory Inode
  imports Aspace
begin

text \<open>
  The lower half of \<^verbatim>\<open>kernel/fs.c\<close>: the block allocator (\<^verbatim>\<open>bzero\<close>, \<^verbatim>\<open>balloc\<close>, \<^verbatim>\<open>bfree\<close>) and the inode layer
  (\<^verbatim>\<open>ialloc\<close>, \<^verbatim>\<open>iupdate\<close>, \<^verbatim>\<open>iget\<close>, \<^verbatim>\<open>idup\<close>, \<^verbatim>\<open>ilock\<close>, \<^verbatim>\<open>iunlock\<close>, \<^verbatim>\<open>iput\<close>, \<^verbatim>\<open>itrunc\<close>), over the block store of the log.
\<close>

section \<open>State\<close>

datatype iflag = I_BUSY | I_VALID

record inode =
  idev :: uint
  inum :: uint
  iref :: int
  iflags :: "iflag set"
  itype :: ushort
  imajor :: ushort
  iminor :: ushort
  inlink :: ushort
  isize :: uint
  addrs :: "uint list"

definition NINODE :: nat where "NINODE = 50"
definition NDIRECT :: nat where "NDIRECT = 12"
definition NINDIRECT :: nat where "NINDIRECT = 128"
definition MAXFILE :: nat where "MAXFILE = NDIRECT + NINDIRECT"
definition IPB :: nat where "IPB = 8"
definition BPB :: nat where "BPB = 4096"

definition T_DIR :: ushort where "T_DIR = 1"
definition T_FILE :: ushort where "T_FILE = 2"
definition T_DEV :: ushort where "T_DEV = 3"

definition IBLOCK :: "uint \<Rightarrow> uint" where
  "IBLOCK i = i div of_nat IPB + 2"

definition BBLOCK :: "uint \<Rightarrow> uint \<Rightarrow> uint" where
  "BBLOCK b ninodes = b div of_nat BPB + ninodes div of_nat IPB + 3"

text \<open>
  The inode cache, and which of the entries of \<^verbatim>\<open>devsw\<close> have been set: \<^verbatim>\<open>consoleinit\<close> makes the only
  assignments, so a non-null entry is the pair \<^verbatim>\<open>consoleread\<close>, \<^verbatim>\<open>consolewrite\<close>.
\<close>

record fs_st = vm_st +
  icache :: "nat \<Rightarrow> inode"
  devsw :: "nat \<Rightarrow> bool"

definition inode0 :: inode where
  "inode0 = \<lparr>idev = 0, inum = 0, iref = 0, iflags = {}, itype = 0, imajor = 0, iminor = 0, inlink = 0, isize = 0,
     addrs = replicate 13 0\<rparr>"

text \<open>The machine at boot, before any inode is cached.\<close>

definition fs_boot :: fs_st where
  "fs_boot = vm_st.extend vm_boot (fs_st.fields (\<lambda>_. inode0) (\<lambda>_. False))"

lemmas fs_boot_defs = fs_boot_def vm_boot_defs fs_st.defs

definition upd_inode :: "nat \<Rightarrow> (inode \<Rightarrow> inode) \<Rightarrow> (unit, 'z fs_st_scheme) kern" where
  [kdefs]: "upd_inode i f = modK (\<lambda>s. s\<lparr>icache := (icache s)(i := f (icache s i))\<rparr>)"

section \<open>Blocks\<close>

definition bzero :: "uint \<Rightarrow> uint \<Rightarrow> (unit, 'z log_st_scheme) kern" where
  "bzero dv bno =
    bindK (bread dv bno) (\<lambda>bp.
    seqK (modK (set_buf_data bp (replicate 512 0)))
   (seqK (log_write bp)
         (brelse bp)))"

text \<open>Bit \<open>bi\<close> of a bitmap block.\<close>

definition bit_mask :: "nat \<Rightarrow> byte" where
  "bit_mask bi = push_bit (bi mod 8) 1"

definition bm_get :: "byte list \<Rightarrow> nat \<Rightarrow> bool" where
  "bm_get d bi \<longleftrightarrow> d ! (bi div 8) AND bit_mask bi \<noteq> 0"

definition bm_set :: "nat \<Rightarrow> byte list \<Rightarrow> byte list" where
  "bm_set bi d = d[bi div 8 := d ! (bi div 8) OR bit_mask bi]"

definition bm_clear :: "nat \<Rightarrow> byte list \<Rightarrow> byte list" where
  "bm_clear bi d = d[bi div 8 := d ! (bi div 8) AND NOT (bit_mask bi)]"

text \<open>
  The outer loop runs over the bitmap blocks, \<open>k\<close> being \<^verbatim>\<open>b/BPB\<close>; the inner loop looks for the first clear bit
  below \<^verbatim>\<open>sb.size\<close>.
\<close>

definition balloc_scan :: "uint \<Rightarrow> superblock \<Rightarrow> nat \<Rightarrow> (uint option, 'z log_st_scheme) kern" where
  "balloc_scan dv sb k =
    (let b = k * BPB in
     bindK (bread dv (BBLOCK (of_nat b) (sb_ninodes sb))) (\<lambda>bp.
     bindK (getK (buf_data bp)) (\<lambda>d.
       case find (\<lambda>bi. \<not> bm_get d bi) [0..<min BPB (unat (sb_size sb) - b)] of
         Some bi \<Rightarrow>
           seqK (modK (\<lambda>s. set_buf_data bp (bm_set bi (buf_data bp s)) s))
          (seqK (log_write bp)
          (seqK (brelse bp)
          (seqK (bzero dv (of_nat (b + bi)))
                (ret (Some (of_nat (b + bi)))))))
       | None \<Rightarrow> seqK (brelse bp) (ret None))))"

definition balloc :: "uint \<Rightarrow> (uint, 'z log_st_scheme) kern" where
  "balloc dv =
    bindK (readsb dv) (\<lambda>sb.
    bindK (findK [0..<(unat (sb_size sb) + BPB - 1) div BPB] (balloc_scan dv sb)) (\<lambda>r.
      case r of Some b \<Rightarrow> ret b | None \<Rightarrow> panic ''balloc: out of blocks''))"

definition bfree :: "uint \<Rightarrow> uint \<Rightarrow> (unit, 'z log_st_scheme) kern" where
  "bfree dv b =
    bindK (readsb dv) (\<lambda>sb.
    bindK (bread dv (BBLOCK b (sb_ninodes sb))) (\<lambda>bp.
    bindK (getK (buf_data bp)) (\<lambda>d.
      let bi = unat b mod BPB in
      if \<not> bm_get d bi then panic ''freeing free block''
      else
        seqK (modK (set_buf_data bp (bm_clear bi d)))
       (seqK (log_write bp)
             (brelse bp)))))"

section \<open>Inodes\<close>

text \<open>\<^verbatim>\<open>struct dinode\<close>: 64 bytes, eight to a block.\<close>

record dinode =
  di_type :: ushort
  di_major :: ushort
  di_minor :: ushort
  di_nlink :: ushort
  di_size :: uint
  di_addrs :: "uint list"

definition get_dinode :: "nat \<Rightarrow> byte list \<Rightarrow> dinode" where
  "get_dinode off d = \<lparr>di_type = get16 off d, di_major = get16 (off + 2) d, di_minor = get16 (off + 4) d,
     di_nlink = get16 (off + 6) d, di_size = get32 (off + 8) d, di_addrs = get_words (off + 12) (NDIRECT + 1) d\<rparr>"

definition put_dinode :: "nat \<Rightarrow> dinode \<Rightarrow> byte list \<Rightarrow> byte list" where
  "put_dinode off di d =
    put_words (off + 12) (di_addrs di)
   (put32 (off + 8) (di_size di)
   (put16 (off + 6) (di_nlink di)
   (put16 (off + 4) (di_minor di)
   (put16 (off + 2) (di_major di)
   (put16 off (di_type di) d)))))"

text \<open>The offset of inode \<open>n\<close> in its block.\<close>

definition dinode_off :: "uint \<Rightarrow> nat" where
  "dinode_off n = 64 * (unat n mod IPB)"

definition iinit :: "(unit, 'z fs_st_scheme) kern" where
  "iinit = initlock L_icache ''icache''"

text \<open>The loop of \<^verbatim>\<open>iget\<close>: the cached entry, or else the first free one.\<close>

definition iget_hit :: "'z fs_st_scheme \<Rightarrow> uint \<Rightarrow> uint \<Rightarrow> nat option" where
  "iget_hit s dv n = find (\<lambda>i. iref (icache s i) > 0 \<and> idev (icache s i) = dv \<and> inum (icache s i) = n) [0..<NINODE]"

definition iget_empty :: "'z fs_st_scheme \<Rightarrow> nat option" where
  "iget_empty s = find (\<lambda>i. iref (icache s i) = 0) [0..<NINODE]"

definition iget :: "uint \<Rightarrow> uint \<Rightarrow> (nat, 'z fs_st_scheme) kern" where
  "iget dv n =
    seqK (acquire L_icache)
   (bindK (getK (\<lambda>s. iget_hit s dv n)) (\<lambda>hit.
    bindK (getK iget_empty) (\<lambda>free.
      case hit of
        Some i \<Rightarrow>
          seqK (upd_inode i (\<lambda>p. p\<lparr>iref := iref p + 1\<rparr>))
         (seqK (release L_icache) (ret i))
      | None \<Rightarrow>
          (case free of None \<Rightarrow> panic ''iget: no inodes''
           | Some i \<Rightarrow>
               seqK (upd_inode i (\<lambda>p. p\<lparr>idev := dv, inum := n, iref := 1, iflags := {}\<rparr>))
              (seqK (release L_icache) (ret i))))))"

definition ialloc_try :: "uint \<Rightarrow> ushort \<Rightarrow> nat \<Rightarrow> (nat option, 'z fs_st_scheme) kern" where
  "ialloc_try dv ty n =
    bindK (bread dv (IBLOCK (of_nat n))) (\<lambda>bp.
    bindK (getK (buf_data bp)) (\<lambda>d.
      let off = dinode_off (of_nat n) in
      if get16 off d = 0 then
        seqK (modK (set_buf_data bp (put16 off ty (splice off (replicate 64 0) d))))
       (seqK (log_write bp)
       (seqK (brelse bp)
       (bindK (iget dv (of_nat n)) (\<lambda>i. ret (Some i)))))
      else seqK (brelse bp) (ret None)))"

definition ialloc :: "uint \<Rightarrow> ushort \<Rightarrow> (nat, 'z fs_st_scheme) kern" where
  "ialloc dv ty =
    bindK (readsb dv) (\<lambda>sb.
    bindK (findK [1..<unat (sb_ninodes sb)] (ialloc_try dv ty)) (\<lambda>r.
      case r of Some i \<Rightarrow> ret i | None \<Rightarrow> panic ''ialloc: no inodes''))"

definition dinode_of :: "inode \<Rightarrow> dinode" where
  "dinode_of p = \<lparr>di_type = itype p, di_major = imajor p, di_minor = iminor p, di_nlink = inlink p,
     di_size = isize p, di_addrs = addrs p\<rparr>"

definition iupdate :: "nat \<Rightarrow> (unit, 'z fs_st_scheme) kern" where
  "iupdate i =
    bindK (getK (\<lambda>s. icache s i)) (\<lambda>p.
    bindK (bread (idev p) (IBLOCK (inum p))) (\<lambda>bp.
    seqK (modK (\<lambda>s. set_buf_data bp (put_dinode (dinode_off (inum p)) (dinode_of p) (buf_data bp s)) s))
   (seqK (log_write bp)
         (brelse bp))))"

definition idup :: "nat \<Rightarrow> (nat, 'z fs_st_scheme) kern" where
  "idup i =
    seqK (acquire L_icache)
   (seqK (upd_inode i (\<lambda>p. p\<lparr>iref := iref p + 1\<rparr>))
   (seqK (release L_icache)
         (ret i)))"

text \<open>\<^verbatim>\<open>ilock\<close> reads the inode from the disk unless \<^verbatim>\<open>I_VALID\<close> is set.\<close>

definition ilock_load :: "nat \<Rightarrow> (unit, 'z fs_st_scheme) kern" where
  "ilock_load i =
    bindK (getK (\<lambda>s. icache s i)) (\<lambda>p.
    whenK (I_VALID \<notin> iflags p)
     (bindK (bread (idev p) (IBLOCK (inum p))) (\<lambda>bp.
      bindK (getK (\<lambda>s. get_dinode (dinode_off (inum p)) (buf_data bp s))) (\<lambda>di.
      seqK (upd_inode i (\<lambda>p. p\<lparr>itype := di_type di, imajor := di_major di, iminor := di_minor di,
                               inlink := di_nlink di, isize := di_size di, addrs := di_addrs di\<rparr>))
     (seqK (brelse bp)
     (seqK (upd_inode i (\<lambda>p. p\<lparr>iflags := insert I_VALID (iflags p)\<rparr>))
           (if di_type di = 0 then panic ''ilock: no type'' else ret ())))))))"

text \<open>
  \<^verbatim>\<open>ilock\<close> from the test of its waiting loop on, with \<^verbatim>\<open>icache.lock\<close> held; a process that sleeps continues
  with \<open>sleep_resume\<close> and \<open>ilock_loop\<close> again.
\<close>

definition ilock_loop :: "nat \<Rightarrow> (unit, 'z fs_st_scheme) kern" where
  "ilock_loop i =
    bindK (getK (\<lambda>s. I_BUSY \<in> iflags (icache s i))) (\<lambda>busy.
      if busy then sleep (ChInode i) (Some L_icache)
      else
        seqK (upd_inode i (\<lambda>p. p\<lparr>iflags := insert I_BUSY (iflags p)\<rparr>))
       (seqK (release L_icache)
             (ilock_load i)))"

definition ilock :: "nat \<Rightarrow> (unit, 'z fs_st_scheme) kern" where
  "ilock i =
    bindK (getK (\<lambda>s. iref (icache s i) < 1)) (\<lambda>bad.
      if bad then panic ''ilock''
      else seqK (acquire L_icache) (ilock_loop i))"

definition iunlock :: "nat \<Rightarrow> (unit, 'z fs_st_scheme) kern" where
  "iunlock i =
    bindK (getK (\<lambda>s. I_BUSY \<notin> iflags (icache s i) \<or> iref (icache s i) < 1)) (\<lambda>bad.
      if bad then panic ''iunlock''
      else
        seqK (acquire L_icache)
       (seqK (upd_inode i (\<lambda>p. p\<lparr>iflags := iflags p - {I_BUSY}\<rparr>))
       (seqK (wakeup (ChInode i))
             (release L_icache))))"

definition itrunc :: "nat \<Rightarrow> (unit, 'z fs_st_scheme) kern" where
  "itrunc i =
    seqK (forK [0..<NDIRECT] (\<lambda>k.
           bindK (getK (\<lambda>s. icache s i)) (\<lambda>p.
           whenK (addrs p ! k \<noteq> 0)
             (seqK (bfree (idev p) (addrs p ! k))
                   (upd_inode i (\<lambda>p. p\<lparr>addrs := (addrs p)[k := 0]\<rparr>))))))
   (bindK (getK (\<lambda>s. icache s i)) (\<lambda>p.
    seqK (whenK (addrs p ! NDIRECT \<noteq> 0)
           (bindK (bread (idev p) (addrs p ! NDIRECT)) (\<lambda>bp.
            seqK (forK [0..<NINDIRECT] (\<lambda>j.
                   bindK (getK (\<lambda>s. get32 (4 * j) (buf_data bp s))) (\<lambda>a.
                   whenK (a \<noteq> 0) (bfree (idev p) a))))
           (seqK (brelse bp)
           (seqK (bfree (idev p) (addrs p ! NDIRECT))
                 (upd_inode i (\<lambda>p. p\<lparr>addrs := (addrs p)[NDIRECT := 0]\<rparr>)))))))
   (seqK (upd_inode i (\<lambda>p. p\<lparr>isize := 0\<rparr>))
         (iupdate i))))"

definition iput :: "nat \<Rightarrow> (unit, 'z fs_st_scheme) kern" where
  "iput i =
    seqK (acquire L_icache)
   (bindK (getK (\<lambda>s. icache s i)) (\<lambda>p.
    seqK (whenK (iref p = 1 \<and> I_VALID \<in> iflags p \<and> inlink p = 0)
           (if I_BUSY \<in> iflags p then panic ''iput busy''
            else
              seqK (upd_inode i (\<lambda>p. p\<lparr>iflags := insert I_BUSY (iflags p)\<rparr>))
             (seqK (release L_icache)
             (seqK (itrunc i)
             (seqK (upd_inode i (\<lambda>p. p\<lparr>itype := 0\<rparr>))
             (seqK (iupdate i)
             (seqK (acquire L_icache)
             (seqK (upd_inode i (\<lambda>p. p\<lparr>iflags := {}\<rparr>))
                   (wakeup (ChInode i))))))))))
   (seqK (upd_inode i (\<lambda>p. p\<lparr>iref := iref p - 1\<rparr>))
         (release L_icache))))"

definition iunlockput :: "nat \<Rightarrow> (unit, 'z fs_st_scheme) kern" where
  "iunlockput i = seqK (iunlock i) (iput i)"

text \<open>
  \<^verbatim>\<open>bmap\<close>: the block number of block \<open>bn\<close> of an inode, allocated if there is none. \<open>bmap_ind\<close> is its end, entry \<open>bn\<close> of the
  indirect block \<open>ind\<close>.
\<close>

definition bmap_ind :: "uint \<Rightarrow> uint \<Rightarrow> nat \<Rightarrow> (uint, 'z log_st_scheme) kern" where
  "bmap_ind dv ind bn =
    bindK (bread dv ind) (\<lambda>bp.
    bindK (getK (\<lambda>s. get32 (4 * bn) (buf_data bp s))) (\<lambda>a.
    bindK (if a = 0 then
             bindK (balloc dv) (\<lambda>a.
             seqK (modK (\<lambda>s. set_buf_data bp (put32 (4 * bn) a (buf_data bp s)) s))
            (seqK (log_write bp) (ret a)))
           else ret a) (\<lambda>a.
    seqK (brelse bp) (ret a))))"

definition bmap :: "nat \<Rightarrow> uint \<Rightarrow> (uint, 'z fs_st_scheme) kern" where
  "bmap i bn =
    bindK (getK (\<lambda>s. icache s i)) (\<lambda>p.
      if unat bn < NDIRECT then
        if addrs p ! unat bn = 0 then
          bindK (balloc (idev p)) (\<lambda>a.
          seqK (upd_inode i (\<lambda>p. p\<lparr>addrs := (addrs p)[unat bn := a]\<rparr>)) (ret a))
        else ret (addrs p ! unat bn)
      else
        let bn = unat bn - NDIRECT in
        if bn < NINDIRECT then
          bindK (if addrs p ! NDIRECT = 0 then
                   bindK (balloc (idev p)) (\<lambda>a.
                   seqK (upd_inode i (\<lambda>p. p\<lparr>addrs := (addrs p)[NDIRECT := a]\<rparr>)) (ret a))
                 else ret (addrs p ! NDIRECT)) (\<lambda>ind.
          bmap_ind (idev p) ind bn)
        else panic ''bmap: out of range'')"

end
