(* ===== verification/Dir.thy ===== *)
theory Dir
  imports Inode
begin

text \<open>
  The upper half of \<^verbatim>\<open>kernel/fs.c\<close>: file contents (\<^verbatim>\<open>readi\<close>, \<^verbatim>\<open>writei\<close>), directories (\<^verbatim>\<open>dirlookup\<close>, \<^verbatim>\<open>dirlink\<close>) and path
  names (\<^verbatim>\<open>skipelem\<close>, \<^verbatim>\<open>namex\<close>); and the console as a device file, \<^verbatim>\<open>consoleread\<close> and \<^verbatim>\<open>consolewrite\<close> of
  \<^verbatim>\<open>kernel/console.c\<close>, which the two reach through \<^verbatim>\<open>devsw\<close>.
\<close>

section \<open>Buffers of the caller\<close>

text \<open>
  The destination of a read is an address, or a local variable of the caller (\<open>None\<close>), whose new value is the
  list of bytes that the routine returns. The source of a write is an address or the bytes of a local variable.
\<close>

datatype csrc = UMem addr | KBytes "byte list"

definition put_dst :: "addr option \<Rightarrow> byte list \<Rightarrow> (unit, 'z vm_st_scheme) kern" where
  "put_dst dst bs = (case dst of None \<Rightarrow> ret () | Some a \<Rightarrow> ustore_n a bs)"

definition get_src :: "csrc \<Rightarrow> nat \<Rightarrow> nat \<Rightarrow> (byte list, 'z vm_st_scheme) kern" where
  "get_src src off n =
    (case src of UMem a \<Rightarrow> uload_n (a + of_nat off) n | KBytes bs \<Rightarrow> ret (slice off n bs))"

definition adv_dst :: "addr option \<Rightarrow> nat \<Rightarrow> addr option" where
  "adv_dst dst n = map_option (\<lambda>a. a + of_nat n) dst"

section \<open>The console device\<close>

text \<open>
  \<^verbatim>\<open>consoleread\<close> from its inner waiting loop on, \<^verbatim>\<open>input.lock\<close> held, with \<open>n\<close> bytes still wanted of \<open>target\<close> and
  \<open>out\<close> delivered so far. The outcome is \<open>Swtch\<close> when it sleeps; it then continues with \<open>sleep_resume\<close> and the
  same loop. The result is that of the \<^verbatim>\<open>while\<close> loops: \<open>None\<close> when the process was killed.
\<close>

definition consoleread_loop :: "addr option \<Rightarrow> uint \<Rightarrow> uint \<Rightarrow> byte list \<Rightarrow> ((uint \<times> byte list) option, 'z vm_st_scheme) kern" where
  "consoleread_loop dst target n out =
    loopK (\<lambda>(n, out).
      if \<not> sint n > 0 then ret (Inr (Some (n, out)))
      else
        bindK (getK (\<lambda>s. in_r s = in_w s)) (\<lambda>empty.
          if empty then
            bindK (getK (\<lambda>s. killed (myproc s) \<noteq> 0)) (\<lambda>k.
              if k then ret (Inr None) else sleep ChInput (Some L_input))
          else
            bindK (getK (\<lambda>s. in_at s (in_r s))) (\<lambda>c.
            seqK (modK (\<lambda>s. s\<lparr>in_r := in_r s + 1\<rparr>))
           (if c = 4 then
              seqK (whenK (n < target) (modK (\<lambda>s. s\<lparr>in_r := in_r s - 1\<rparr>)))
                   (ret (Inr (Some (n, out))))
            else
              seqK (put_dst (adv_dst dst (length out)) [c])
                   (ret (if c = 10 then Inr (Some (n - 1, out @ [c])) else Inl (n - 1, out @ [c])))))))
      (n, out)"

definition consoleread :: "nat \<Rightarrow> addr option \<Rightarrow> uint \<Rightarrow> (uint \<times> byte list, 'z fs_st_scheme) kern" where
  "consoleread ip dst n =
    seqK (iunlock ip)
   (seqK (acquire L_input)
   (bindK (consoleread_loop dst n n []) (\<lambda>r.
    seqK (release L_input)
   (seqK (ilock ip)
         (ret (case r of None \<Rightarrow> (- 1, []) | Some (n', out) \<Rightarrow> (n - n', out)))))))"

definition consolewrite :: "nat \<Rightarrow> csrc \<Rightarrow> uint \<Rightarrow> (uint, 'z fs_st_scheme) kern" where
  "consolewrite ip src n =
    seqK (iunlock ip)
   (seqK (acquire L_cons)
   (seqK (forK [0..<nat (sint n)] (\<lambda>i. bindK (get_src src i 1) (\<lambda>bs. consputc (ucast (bs ! 0)))))
   (seqK (release L_cons)
   (seqK (ilock ip)
         (ret n)))))"

definition CONSOLE :: nat where
  "CONSOLE = 1"

definition consoleinit :: "(unit, 'z fs_st_scheme) kern" where
  "consoleinit =
    seqK (initlock L_cons ''console'')
   (seqK (initlock L_input ''input'')
   (seqK (modK (\<lambda>s. s\<lparr>devsw := (devsw s)(CONSOLE := True), cons_locking := True\<rparr>))
   (seqK (picenable 1)
         (ioapicenable 1 0))))"

section \<open>File contents\<close>

record stat =
  st_type :: ushort
  st_dev :: uint
  st_ino :: uint
  st_nlink :: ushort
  st_size :: uint

definition stati :: "nat \<Rightarrow> 'z fs_st_scheme \<Rightarrow> stat" where
  "stati i s = (let p = icache s i in
    \<lparr>st_type = itype p, st_dev = idev p, st_ino = inum p, st_nlink = inlink p, st_size = isize p\<rparr>)"

definition NDEV :: int where
  "NDEV = 10"

text \<open>Whether \<^verbatim>\<open>devsw\<close> has routines for a major device number.\<close>

definition dev_ok :: "ushort \<Rightarrow> 'z fs_st_scheme \<Rightarrow> bool" where
  "dev_ok major s \<longleftrightarrow> \<not> (sint major < 0 \<or> sint major \<ge> NDEV \<or> \<not> devsw s (nat (sint major)))"

text \<open>The bytes of one turn of the copying loops: \<^verbatim>\<open>min(n - tot, BSIZE - off%BSIZE)\<close>.\<close>

definition chunk :: "uint \<Rightarrow> uint \<Rightarrow> uint \<Rightarrow> uint" where
  "chunk n tot off = min (n - tot) (512 - off mod 512)"

text \<open>One turn of the loop of \<^verbatim>\<open>readi\<close>; its state is \<^verbatim>\<open>tot\<close>, \<^verbatim>\<open>off\<close> and the bytes delivered.\<close>

definition readi_step :: "nat \<Rightarrow> addr option \<Rightarrow> uint \<Rightarrow> uint \<times> uint \<times> byte list
    \<Rightarrow> ((uint \<times> uint \<times> byte list) + byte list, 'z fs_st_scheme) kern" where
  "readi_step i dst n = (\<lambda>(tot, off, out).
      if \<not> tot < n then ret (Inr out)
      else
        bindK (bmap i (off div 512)) (\<lambda>a.
        bindK (getK (\<lambda>s. idev (icache s i))) (\<lambda>dv.
        bindK (bread dv a) (\<lambda>bp.
        let m = chunk n tot off in
        bindK (getK (\<lambda>s. slice (unat (off mod 512)) (unat m) (buf_data bp s))) (\<lambda>bs.
        seqK (put_dst (adv_dst dst (unat tot)) bs)
       (seqK (brelse bp)
             (ret (Inl (tot + m, off + m, out @ bs)))))))))"

definition readi_loop :: "nat \<Rightarrow> addr option \<Rightarrow> uint \<Rightarrow> uint \<Rightarrow> (byte list, 'z fs_st_scheme) kern" where
  "readi_loop i dst off n = loopK (readi_step i dst n) (0, off, [])"

definition readi :: "nat \<Rightarrow> addr option \<Rightarrow> uint \<Rightarrow> uint \<Rightarrow> (uint \<times> byte list, 'z fs_st_scheme) kern" where
  "readi i dst off n =
    bindK (getK (\<lambda>s. icache s i)) (\<lambda>p.
      if itype p = T_DEV then
        bindK (getK (dev_ok (imajor p))) (\<lambda>ok.
          if \<not> ok then ret (- 1, []) else consoleread i dst n)
      else if off > isize p \<or> off + n < off then ret (- 1, [])
      else
        let n = (if off + n > isize p then isize p - off else n) in
        bindK (readi_loop i dst off n) (\<lambda>out. ret (n, out)))"

definition writei_step :: "nat \<Rightarrow> csrc \<Rightarrow> uint \<Rightarrow> uint \<times> uint \<Rightarrow> ((uint \<times> uint) + uint, 'z fs_st_scheme) kern" where
  "writei_step i src n = (\<lambda>(tot, off).
      if \<not> tot < n then ret (Inr off)
      else
        bindK (bmap i (off div 512)) (\<lambda>a.
        bindK (getK (\<lambda>s. idev (icache s i))) (\<lambda>dv.
        bindK (bread dv a) (\<lambda>bp.
        let m = chunk n tot off in
        bindK (get_src src (unat tot) (unat m)) (\<lambda>bs.
        seqK (modK (\<lambda>s. set_buf_data bp (splice (unat (off mod 512)) bs (buf_data bp s)) s))
       (seqK (log_write bp)
       (seqK (brelse bp)
             (ret (Inl (tot + m, off + m))))))))))"

definition writei_loop :: "nat \<Rightarrow> csrc \<Rightarrow> uint \<Rightarrow> uint \<Rightarrow> (uint, 'z fs_st_scheme) kern" where
  "writei_loop i src off n = loopK (writei_step i src n) (0, off)"

definition writei :: "nat \<Rightarrow> csrc \<Rightarrow> uint \<Rightarrow> uint \<Rightarrow> (uint, 'z fs_st_scheme) kern" where
  "writei i src off n =
    bindK (getK (\<lambda>s. icache s i)) (\<lambda>p.
      if itype p = T_DEV then
        bindK (getK (dev_ok (imajor p))) (\<lambda>ok.
          if \<not> ok then ret (- 1) else consolewrite i src n)
      else if off > isize p \<or> off + n < off then ret (- 1)
      else if ucast (off + n) > (of_nat (MAXFILE * 512) :: uintp) then ret (- 1)
      else
        bindK (writei_loop i src off n) (\<lambda>off'.
        bindK (getK (\<lambda>s. isize (icache s i))) (\<lambda>size.
        seqK (whenK (n > 0 \<and> off' > size)
               (seqK (upd_inode i (\<lambda>p. p\<lparr>isize := off'\<rparr>))
                     (iupdate i)))
             (ret n))))"

section \<open>Directories\<close>

definition DIRSIZ :: nat where
  "DIRSIZ = 14"

text \<open>
  \<^verbatim>\<open>strncmp\<close> on names given by their bytes, the byte after the last being NUL.
\<close>

fun lstrncmp :: "nat \<Rightarrow> byte list \<Rightarrow> byte list \<Rightarrow> int" where
  "lstrncmp 0 p q = 0"
| "lstrncmp (Suc n) p q =
    (let a = (case p of [] \<Rightarrow> 0 | x # _ \<Rightarrow> x); b = (case q of [] \<Rightarrow> 0 | x # _ \<Rightarrow> x) in
     if a \<noteq> 0 \<and> a = b then lstrncmp n (tl p) (tl q) else uint a - uint b)"

definition namecmp :: "byte list \<Rightarrow> byte list \<Rightarrow> int" where
  "namecmp s t = lstrncmp DIRSIZ s t"

definition DIRENT :: uint where
  "DIRENT = 16"

definition de_inum :: "byte list \<Rightarrow> ushort" where
  "de_inum de = get16 0 de"

definition de_name :: "byte list \<Rightarrow> byte list" where
  "de_name de = slice 2 DIRSIZ de"

text \<open>The result: the inode and the offset that \<^verbatim>\<open>*poff\<close> gets.\<close>

definition dirlookup :: "nat \<Rightarrow> byte list \<Rightarrow> ((nat \<times> uint) option, 'z fs_st_scheme) kern" where
  "dirlookup dp name =
    bindK (getK (\<lambda>s. itype (icache s dp))) (\<lambda>ty.
      if ty \<noteq> T_DIR then panic ''dirlookup not DIR''
      else
        loopK (\<lambda>off.
          bindK (getK (\<lambda>s. isize (icache s dp))) (\<lambda>size.
            if \<not> off < size then ret (Inr None)
            else
              bindK (readi dp None off DIRENT) (\<lambda>(r, de).
                if r \<noteq> DIRENT then panic ''dirlink read''
                else if de_inum de = 0 then ret (Inl (off + DIRENT))
                else if namecmp name (de_name de) = 0 then
                  bindK (getK (\<lambda>s. idev (icache s dp))) (\<lambda>dv.
                  bindK (iget dv (ucast (de_inum de))) (\<lambda>ip. ret (Inr (Some (ip, off)))))
                else ret (Inl (off + DIRENT))))) 0)"

text \<open>\<^verbatim>\<open>strncpy(de.name, name, DIRSIZ)\<close>: the name, padded with zeros.\<close>

definition de_pack :: "byte list \<Rightarrow> uint \<Rightarrow> byte list" where
  "de_pack name n = bytes16 (ucast n) @ take DIRSIZ (cstr name @ replicate DIRSIZ 0)"

definition dirlink :: "nat \<Rightarrow> byte list \<Rightarrow> uint \<Rightarrow> (uint, 'z fs_st_scheme) kern" where
  "dirlink dp name n =
    bindK (dirlookup dp name) (\<lambda>r.
      case r of
        Some (ip, _) \<Rightarrow> seqK (iput ip) (ret (- 1))
      | None \<Rightarrow>
          bindK (loopK (\<lambda>off.
            bindK (getK (\<lambda>s. isize (icache s dp))) (\<lambda>size.
              if \<not> off < size then ret (Inr off)
              else
                bindK (readi dp None off DIRENT) (\<lambda>(r, de).
                  if r \<noteq> DIRENT then panic ''dirlink read''
                  else ret (if de_inum de = 0 then Inr off else Inl (off + DIRENT))))) 0) (\<lambda>off.
          bindK (writei dp (KBytes (de_pack name n)) off DIRENT) (\<lambda>r.
            if r \<noteq> DIRENT then panic ''dirlink'' else ret 0)))"

section \<open>Paths\<close>

text \<open>
  A path is given by the bytes of its C string. \<^verbatim>\<open>skipelem\<close> gives the rest of the path and the element, which
  the caller's buffer of \<^verbatim>\<open>DIRSIZ\<close> bytes holds up to its first NUL.
\<close>

definition skipelem :: "byte list \<Rightarrow> (byte list \<times> byte list) option" where
  "skipelem path =
    (let path = dropWhile (\<lambda>c. c = 47) path in
     if path = [] then None
     else
       let elem = takeWhile (\<lambda>c. c \<noteq> 47) path;
           rest = dropWhile (\<lambda>c. c \<noteq> 47) path;
           name = (if length elem \<ge> DIRSIZ then take DIRSIZ elem else elem)
       in Some (dropWhile (\<lambda>c. c = 47) rest, name))"

definition ROOTINO :: uint where
  "ROOTINO = 1"

text \<open>The loop of \<^verbatim>\<open>namex\<close>; the result has the last name, which \<^verbatim>\<open>nameiparent\<close> returns to its caller.\<close>

definition namex_loop :: "bool \<Rightarrow> nat \<Rightarrow> byte list \<Rightarrow> byte list \<Rightarrow> ((nat \<times> byte list) option, 'z fs_st_scheme) kern" where
  "namex_loop par ip path name =
    loopK (\<lambda>(ip, path, name).
      case skipelem path of
        None \<Rightarrow> if par then seqK (iput ip) (ret (Inr None)) else ret (Inr (Some (ip, name)))
      | Some (path, name) \<Rightarrow>
          seqK (ilock ip)
         (bindK (getK (\<lambda>s. itype (icache s ip))) (\<lambda>ty.
            if ty \<noteq> T_DIR then seqK (iunlockput ip) (ret (Inr None))
            else if par \<and> path = [] then seqK (iunlock ip) (ret (Inr (Some (ip, name))))
            else
              bindK (dirlookup ip name) (\<lambda>r.
              seqK (iunlockput ip)
                   (ret (case r of None \<Rightarrow> Inr None | Some (next, _) \<Rightarrow> Inl (next, path, name)))))))
      (ip, path, name)"

definition namex :: "byte list \<Rightarrow> bool \<Rightarrow> ((nat \<times> byte list) option, 'z fs_st_scheme) kern" where
  "namex path par =
    bindK (if path \<noteq> [] \<and> hd path = 47 then iget 1 ROOTINO
           else bindK (getK (\<lambda>s. cwd (myproc s))) (\<lambda>c.
             case c of None \<Rightarrow> panic ''undefined: null pointer'' | Some i \<Rightarrow> idup i)) (\<lambda>ip.
      namex_loop par ip path [])"

definition namei :: "byte list \<Rightarrow> (nat option, 'z fs_st_scheme) kern" where
  "namei path = bindK (namex path False) (\<lambda>r. ret (map_option fst r))"

definition nameiparent :: "byte list \<Rightarrow> ((nat \<times> byte list) option, 'z fs_st_scheme) kern" where
  "nameiparent path = namex path True"

end
