(* ===== verification/Pipe.thy ===== *)
theory Pipe
  imports Dir
begin

text \<open>
  \<^verbatim>\<open>kernel/pipe.c\<close> without \<^verbatim>\<open>pipealloc\<close> (in \<open>File\<close>, with the file table). A pipe lives in a page of its own; the
  model keeps its fields in a table indexed by the address of the page.
\<close>

section \<open>State\<close>

definition PIPESIZE :: nat where
  "PIPESIZE = 512"

record pipe =
  pdata :: "byte list"
  nread :: uint
  nwrite :: uint
  readopen :: bool
  writeopen :: bool

record pipe_st = fs_st +
  pipes :: "addr \<Rightarrow> pipe"

definition upd_pipe :: "addr \<Rightarrow> (pipe \<Rightarrow> pipe) \<Rightarrow> (unit, 'z pipe_st_scheme) kern" where
  [kdefs]: "upd_pipe p f = modK (\<lambda>s. s\<lparr>pipes := (pipes s)(p := f (pipes s p))\<rparr>)"

section \<open>Operations\<close>

definition pipe_full :: "pipe \<Rightarrow> bool" where
  "pipe_full q \<longleftrightarrow> nwrite q = nread q + of_nat PIPESIZE"

definition pipe_empty :: "pipe \<Rightarrow> bool" where
  "pipe_empty q \<longleftrightarrow> nread q = nwrite q"

text \<open>\<^verbatim>\<open>p->data[p->nwrite++ % PIPESIZE] = c\<close> and \<^verbatim>\<open>p->data[p->nread++ % PIPESIZE]\<close>.\<close>

definition pipe_put :: "byte \<Rightarrow> pipe \<Rightarrow> pipe" where
  "pipe_put c q = q\<lparr>pdata := (pdata q)[unat (nwrite q) mod PIPESIZE := c], nwrite := nwrite q + 1\<rparr>"

definition pipe_get :: "pipe \<Rightarrow> byte" where
  "pipe_get q = pdata q ! (unat (nread q) mod PIPESIZE)"

definition pipe_drop :: "pipe \<Rightarrow> pipe" where
  "pipe_drop q = q\<lparr>nread := nread q + 1\<rparr>"

definition pipeclose :: "addr \<Rightarrow> bool \<Rightarrow> (unit, 'z pipe_st_scheme) kern" where
  "pipeclose p writable =
    seqK (acquire (L_pipe p))
   (seqK (if writable then
            seqK (upd_pipe p (\<lambda>q. q\<lparr>writeopen := False\<rparr>)) (wakeup (ChPipeRead p))
          else
            seqK (upd_pipe p (\<lambda>q. q\<lparr>readopen := False\<rparr>)) (wakeup (ChPipeWrite p)))
   (bindK (getK (\<lambda>s. \<not> readopen (pipes s p) \<and> \<not> writeopen (pipes s p))) (\<lambda>last.
      if last then seqK (release (L_pipe p)) (kfree p)
      else release (L_pipe p))))"

text \<open>
  The loop of \<^verbatim>\<open>pipewrite\<close> from byte \<open>i\<close> on, with the pipe's lock held. A process that sleeps here
  continues with \<open>sleep_resume\<close> and the loop at the same \<open>i\<close>.
\<close>

definition pipewrite_body :: "addr \<Rightarrow> addr \<Rightarrow> uint \<Rightarrow> nat \<Rightarrow> (nat + uint, 'z pipe_st_scheme) kern" where
  "pipewrite_body p a n i =
    (if \<not> int i < sint n then
       seqK (wakeup (ChPipeRead p))
      (seqK (release (L_pipe p))
            (ret (Inr n)))
     else
       bindK (getK (\<lambda>s. pipes s p)) (\<lambda>q.
         if pipe_full q then
           bindK (getK (\<lambda>s. killed (myproc s) \<noteq> 0)) (\<lambda>k.
             if \<not> readopen q \<or> k then seqK (release (L_pipe p)) (ret (Inr (- 1)))
             else seqK (wakeup (ChPipeRead p)) (sleep (ChPipeWrite p) (Some (L_pipe p))))
         else
           bindK (uload (a + of_nat i)) (\<lambda>c.
           seqK (upd_pipe p (pipe_put c))
                (ret (Inl (i + 1))))))"

definition pipewrite_loop :: "addr \<Rightarrow> addr \<Rightarrow> uint \<Rightarrow> nat \<Rightarrow> (uint, 'z pipe_st_scheme) kern" where
  "pipewrite_loop p a n i = loopK (pipewrite_body p a n) i"

definition pipewrite :: "addr \<Rightarrow> addr \<Rightarrow> uint \<Rightarrow> (uint, 'z pipe_st_scheme) kern" where
  "pipewrite p a n = seqK (acquire (L_pipe p)) (pipewrite_loop p a n 0)"

text \<open>The copying loop of \<^verbatim>\<open>piperead\<close>.\<close>

definition piperead_body :: "addr \<Rightarrow> addr \<Rightarrow> uint \<Rightarrow> nat \<Rightarrow> (nat + uint, 'z pipe_st_scheme) kern" where
  "piperead_body p a n i =
    bindK (getK (\<lambda>s. pipes s p)) (\<lambda>q.
      if \<not> int i < sint n \<or> pipe_empty q then ret (Inr (of_nat i))
      else
        seqK (upd_pipe p pipe_drop)
       (seqK (ustore (a + of_nat i) (pipe_get q))
             (ret (Inl (i + 1)))))"

definition piperead_copy :: "addr \<Rightarrow> addr \<Rightarrow> uint \<Rightarrow> (uint, 'z pipe_st_scheme) kern" where
  "piperead_copy p a n = loopK (piperead_body p a n) 0"

text \<open>\<^verbatim>\<open>piperead\<close> from the test of its waiting loop on.\<close>

definition piperead_loop :: "addr \<Rightarrow> addr \<Rightarrow> uint \<Rightarrow> (uint, 'z pipe_st_scheme) kern" where
  "piperead_loop p a n =
    bindK (getK (\<lambda>s. pipes s p)) (\<lambda>q.
      if pipe_empty q \<and> writeopen q then
        bindK (getK (\<lambda>s. killed (myproc s) \<noteq> 0)) (\<lambda>k.
          if k then seqK (release (L_pipe p)) (ret (- 1))
          else sleep (ChPipeRead p) (Some (L_pipe p)))
      else
        bindK (piperead_copy p a n) (\<lambda>i.
        seqK (wakeup (ChPipeWrite p))
       (seqK (release (L_pipe p))
             (ret i))))"

definition piperead :: "addr \<Rightarrow> addr \<Rightarrow> uint \<Rightarrow> (uint, 'z pipe_st_scheme) kern" where
  "piperead p a n = seqK (acquire (L_pipe p)) (piperead_loop p a n)"

section \<open>The ring buffer is a bounded queue\<close>

text \<open>
  What the pipe code relies on of its buffer: a queue of at most \<open>cap\<close> bytes with the operations on the
  two ends, described by the list of bytes it holds.
\<close>

locale byte_queue =
  fixes rep :: "'q \<Rightarrow> byte list \<Rightarrow> bool"
    and put :: "byte \<Rightarrow> 'q \<Rightarrow> 'q"
    and get :: "'q \<Rightarrow> byte"
    and rest :: "'q \<Rightarrow> 'q"
    and full :: "'q \<Rightarrow> bool"
    and empty :: "'q \<Rightarrow> bool"
    and cap :: nat
  assumes rep_cap: "rep q xs \<Longrightarrow> length xs \<le> cap"
    and full_iff: "rep q xs \<Longrightarrow> full q \<longleftrightarrow> length xs = cap"
    and empty_iff: "rep q xs \<Longrightarrow> empty q \<longleftrightarrow> xs = []"
    and put_rep: "rep q xs \<Longrightarrow> length xs < cap \<Longrightarrow> rep (put c q) (xs @ [c])"
    and get_rep: "rep q (x # xs) \<Longrightarrow> get q = x"
    and rest_rep: "rep q (x # xs) \<Longrightarrow> rep (rest q) xs"
begin

lemma puts_rep: "rep q xs \<Longrightarrow> length xs + length cs \<le> cap \<Longrightarrow> rep (fold put cs q) (xs @ cs)"
proof (induction cs arbitrary: q xs)
  case (Cons c cs)
  then have "rep (put c q) (xs @ [c])" by (intro put_rep) simp_all
  from Cons.IH [OF this] Cons.prems(2) show ?case by simp
qed simp

lemma puts_not_full: "rep q xs \<Longrightarrow> length xs + length cs < cap \<Longrightarrow> \<not> full (fold put cs q)"
  using puts_rep [of q xs cs] by (auto dest: full_iff)

lemma rests_rep: "rep q xs \<Longrightarrow> k \<le> length xs \<Longrightarrow> rep ((rest ^^ k) q) (drop k xs)"
proof (induction k)
  case (Suc k)
  then have "rep ((rest ^^ k) q) (xs ! k # drop (Suc k) xs)" by (simp add: Cons_nth_drop_Suc)
  then show ?case by (auto dest: rest_rep)
qed simp

lemma gets_rep: "rep q xs \<Longrightarrow> k < length xs \<Longrightarrow> get ((rest ^^ k) q) = xs ! k"
  using rests_rep [of q xs k] by (auto simp: Cons_nth_drop_Suc [symmetric] dest: get_rep)

lemma rests_empty: "rep q xs \<Longrightarrow> k \<le> length xs \<Longrightarrow> empty ((rest ^^ k) q) \<longleftrightarrow> k = length xs"
  using rests_rep [of q xs k] by (auto dest: empty_iff)

end

text \<open>
  The bytes of a pipe: \<open>nread\<close> and \<open>nwrite\<close> run freely and wrap around at \<open>2 ^ 32\<close>; the byte number
  \<open>nread + j\<close> is at that index modulo the size of the array.
\<close>

definition pipe_rep :: "pipe \<Rightarrow> byte list \<Rightarrow> bool" where
  "pipe_rep q xs \<longleftrightarrow> length (pdata q) = PIPESIZE \<and> length xs \<le> PIPESIZE \<and> nwrite q = nread q + of_nat (length xs)
     \<and> (\<forall>j < length xs. pdata q ! ((unat (nread q) + j) mod PIPESIZE) = xs ! j)"

lemma pipe_len: "pipe_rep q xs \<Longrightarrow> unat (of_nat (length xs) :: uint) = length xs"
  by (rule unat_of_nat_small) (simp add: pipe_rep_def PIPESIZE_def)

interpretation pq: byte_queue pipe_rep pipe_put pipe_get pipe_drop pipe_full pipe_empty PIPESIZE
proof unfold_locales
  fix q :: pipe and xs assume r: "pipe_rep q xs"
  then show "length xs \<le> PIPESIZE" by (simp add: pipe_rep_def)
  have "unat (of_nat PIPESIZE :: uint) = PIPESIZE" by (simp add: PIPESIZE_def)
  with pipe_len [OF r] have "(of_nat (length xs) :: uint) = of_nat PIPESIZE \<longleftrightarrow> length xs = PIPESIZE"
    by (metis word_unat_eq_iff)
  then show "pipe_full q \<longleftrightarrow> length xs = PIPESIZE" using r by (simp add: pipe_full_def pipe_rep_def)
  have "(of_nat (length xs) :: uint) = 0 \<longleftrightarrow> xs = []" using pipe_len [OF r] by (simp only: unat_eq_zero [symmetric] length_0_conv)
  then show "pipe_empty q \<longleftrightarrow> xs = []" using r by (simp add: pipe_empty_def pipe_rep_def)
next
  fix q :: pipe and xs :: "byte list" and c assume r: "pipe_rep q xs" and l: "length xs < PIPESIZE"
  have w: "unat (nread q + of_nat (length xs)) mod PIPESIZE = (unat (nread q) + length xs) mod PIPESIZE"
    by (rule ring_idx) (simp add: PIPESIZE_def)
  have "(unat (nread q) + length xs) mod PIPESIZE \<noteq> (unat (nread q) + j) mod PIPESIZE" if "j < length xs" for j
    using ring_inj [of j "length xs" PIPESIZE "unat (nread q)"] that l by auto
  moreover have "(unat (nread q) + length xs) mod PIPESIZE < PIPESIZE" by (simp add: PIPESIZE_def)
  ultimately show "pipe_rep (pipe_put c q) (xs @ [c])"
    using r l by (auto simp: pipe_rep_def pipe_put_def w add.commute [of 1 "of_nat _"] nth_append less_Suc_eq add.assoc)
next
  fix q :: pipe and x xs assume r: "pipe_rep q (x # xs)"
  then show "pipe_get q = x" by (auto simp: pipe_rep_def pipe_get_def dest: spec [of _ 0])
  have "(unat (nread q + 1) + j) mod PIPESIZE = (unat (nread q) + Suc j) mod PIPESIZE" for j
    using ring_idx [of PIPESIZE "nread q" 1] by (simp add: PIPESIZE_def mod_simps) (metis mod_add_left_eq add_Suc)
  then show "pipe_rep (pipe_drop q) xs" using r by (auto simp: pipe_rep_def pipe_drop_def add.assoc)
qed


section \<open>Writing and reading\<close>

text \<open>User memory at \<open>a\<close> holds the bytes \<open>bs\<close>.\<close>

definition uholds :: "'z vm_st_scheme \<Rightarrow> addr \<Rightarrow> byte list \<Rightarrow> bool" where
  "uholds s a bs \<longleftrightarrow> (\<forall>j < length bs. \<exists>x. kva (a + of_nat j) s = Some x \<and> mem s x = bs ! j)"

lemma uholds_load: "uholds s a bs \<Longrightarrow> j < length bs \<Longrightarrow> uload (a + of_nat j) s = Ok (bs ! j) s"
  by (auto simp: uholds_def uload_def kdefs)

lemma uholds_cong: "mem t = mem s \<Longrightarrow> cr3 t = cr3 s \<Longrightarrow> uholds t a bs = uholds s a bs"
  by (simp add: uholds_def kva_def)

abbreviation wakened :: "chan \<Rightarrow> 'z sched_st_scheme \<Rightarrow> 'z sched_st_scheme" where
  "wakened ch s \<equiv> s\<lparr>ptable := map (wake_proc ch) (ptable s)\<rparr>"

text \<open>The state in which a process that held the lock \<open>l\<close> has gone to sleep on \<open>ch\<close>.\<close>

abbreviation slept :: "nat \<Rightarrow> chan \<Rightarrow> lockid \<Rightarrow> 'z sched_st_scheme \<Rightarrow> 'z sched_st_scheme" where
  "slept c ch l s \<equiv> (released l (acquired L_ptable s))\<lparr>ptable := (ptable s)[c := sleep_mark ch (ptable s ! c)]\<rparr>"

lemma only_held_wakeup: "only_held l s \<Longrightarrow> l \<noteq> L_ptable \<Longrightarrow> wakeup ch s = Ok () (wakened ch s)"
  by (rule wakeup_eq) (auto simp: only_held_def settled_def mach_ok_def)

lemma only_held_release: "only_held l s \<Longrightarrow> release l s = Ok () (released l s)"
  by (simp add: release_eq only_held_def)

text \<open>The pipe after the bytes \<open>cs\<close> were put into it.\<close>

abbreviation with_bytes :: "addr \<Rightarrow> byte list \<Rightarrow> 'z pipe_st_scheme \<Rightarrow> 'z pipe_st_scheme" where
  "with_bytes p cs s \<equiv> s\<lparr>pipes := (pipes s)(p := fold pipe_put cs (pipes s p))\<rparr>"

lemma puts_flags [simp]: "readopen (fold pipe_put cs q) = readopen q" "writeopen (fold pipe_put cs q) = writeopen q"
  by (induction cs arbitrary: q) (simp_all add: pipe_put_def)

lemma pipewrite_runs:
  assumes "pipe_rep (pipes h p) xs" "uholds h a bs" "sint n = int (length bs)"
    and "i + k \<le> length bs" "length xs + k \<le> PIPESIZE"
  shows "pipewrite_loop p a n i h = pipewrite_loop p a n (i + k) (with_bytes p (take k (drop i bs)) h)"
proof -
  let ?S = "\<lambda>j. with_bytes p (take j (drop i bs)) h"
  have ld: "uload (a + of_nat (i + j)) (?S j) = Ok (bs ! (i + j)) (?S j)" if "j < k" for j
    by (rule uholds_load [where bs = bs]) (use assms that uholds_cong [of "?S j" h a bs] in simp_all)
  have nx: "(?S j)\<lparr>pipes := (pipes (?S j))(p := pipe_put (bs ! (i + j)) (pipes (?S j) p))\<rparr> = ?S (Suc j)" if "j < k" for j
    using that assms(4) by (simp add: take_Suc_conv_app_nth)
  have nf: "\<not> pipe_full (pipes (?S j) p)" if "j < k" for j
    using that assms by (simp, intro pq.puts_not_full [of _ xs]) auto
  have i: "int (i + j) < sint n" if "j < k" for j using that assms by simp
  have st: "pipewrite_body p a n (i + j) (?S j) = Ok (Inl (i + Suc j)) (?S (Suc j))" if "j < k" for j
    using i [OF that] nf [OF that] ld [OF that] nx [OF that, symmetric] by (simp add: pipewrite_body_def kdefs)
  have "loopK (pipewrite_body p a n) (i + 0) (?S 0) = loopK (pipewrite_body p a n) (i + k) (?S k)"
    by (rule loopK_steps [where f = "\<lambda>j. i + j" and S = ?S]) (rule st)
  then show ?thesis by (simp add: pipewrite_loop_def)
qed

text \<open>
  \<^verbatim>\<open>pipewrite\<close> from byte \<open>i\<close> on, up to its return or its next sleep: it takes as many bytes as the
  pipe has room for.
\<close>

lemma pipewrite_loop_law:
  assumes H: "only_held (L_pipe p) h" "curproc h = Some c" "c < length (ptable h)"
    and r: "pipe_rep (pipes h p) xs" and u: "uholds h a bs" "sint n = int (length bs)" "i \<le> length bs"
    and k: "k = min (length bs - i) (PIPESIZE - length xs)" and t: "t = with_bytes p (take k (drop i bs)) h"
  shows "pipewrite_loop p a n i h =
      (if i + k = length bs then Ok n (released (L_pipe p) (wakened (ChPipeRead p) t))
       else if \<not> readopen (pipes h p) \<or> killed (ptable h ! c) \<noteq> 0 then Ok (- 1) (released (L_pipe p) t)
       else Swtch (slept c (ChPipeWrite p) (L_pipe p) (wakened (ChPipeRead p) t)))"
    and "pipe_rep (pipes t p) (xs @ take k (drop i bs))"
proof -
  have l: "length xs + k \<le> PIPESIZE" "i + k \<le> length bs" using k u(3) pq.rep_cap [OF r] by auto
  then have kl: "length (take k (drop i bs)) = k" by simp
  show rt: "pipe_rep (pipes t p) (xs @ take k (drop i bs))" using pq.puts_rep [OF r, of "take k (drop i bs)"] l kl by (simp add: t)
  have "pipe_full (pipes t p)" if "i + k < length bs" using that k pq.full_iff [OF rt] pq.rep_cap [OF r] kl by auto
  moreover have T: "only_held (L_pipe p) t" "only_held (L_pipe p) (wakened (ChPipeRead p) t)"
    "curproc t = Some c" "c < length (ptable t)" "ptable t = ptable h" "readopen (pipes t p) = readopen (pipes h p)"
    using H only_held_cong [of t h] only_held_cong [of "wakened (ChPipeRead p) t" h] by (simp_all add: t)
  moreover have "pipewrite_loop p a n i h = pipewrite_loop p a n (i + k) t"
    unfolding t by (rule pipewrite_runs [OF r u(1,2) l(2,1)])
  ultimately show "pipewrite_loop p a n i h = 
      (if i + k = length bs then Ok n (released (L_pipe p) (wakened (ChPipeRead p) t))
       else if \<not> readopen (pipes h p) \<or> killed (ptable h ! c) \<noteq> 0 then Ok (- 1) (released (L_pipe p) t)
       else Swtch (slept c (ChPipeWrite p) (L_pipe p) (wakened (ChPipeRead p) t)))"
    using u l by (auto simp: pipewrite_loop_def loopK_unfold pipewrite_body_def kdefs myproc_def only_held_wakeup only_held_release sleep_swtch)
qed


text \<open>The memory after the bytes \<open>xs\<close> were copied one by one to the places \<open>g 0\<close>, \<open>g 1\<close>, \<open>\<dots>\<close>\<close>

definition copied :: "(nat \<Rightarrow> addr) \<Rightarrow> byte list \<Rightarrow> mem \<Rightarrow> mem" where
  "copied g xs m = fold (\<lambda>i m. m(g i := xs ! i)) [0..<length xs] m"

lemma copied_take: "k < length xs \<Longrightarrow> copied g (take (Suc k) xs) m = (copied g (take k xs) m)(g k := xs ! k)"
proof -
  assume k: "k < length xs"
  have "fold (\<lambda>i m. m(g i := take (Suc k) xs ! i)) [0..<k] m = fold (\<lambda>i m. m(g i := take k xs ! i)) [0..<k] m"
    using k by (intro fold_cong) (auto simp: fun_eq_iff)
  then show ?thesis using k by (simp add: copied_def)
qed

lemma copied_out: "x \<notin> g ` {..<length xs} \<Longrightarrow> copied g xs m x = m x"
proof (induction xs rule: rev_induct)
  case (snoc y xs)
  then show ?case using copied_take [of "length xs" "xs @ [y]" g m] by (simp add: lessThan_Suc)
qed (simp add: copied_def)

lemma copied_in: "inj_on g {..<length xs} \<Longrightarrow> i < length xs \<Longrightarrow> copied g xs m (g i) = xs ! i"
proof (induction xs rule: rev_induct)
  case (snoc y xs)
  then have "g i \<noteq> g (length xs)" if "i < length xs" using that inj_onD [OF snoc.prems(1), of i "length xs"] by auto
  then show ?case using snoc copied_take [of "length xs" "xs @ [y]" g m]
    by (auto simp: less_Suc_eq nth_append lessThan_Suc)
qed simp

lemma ubuf_kva: "ubuf s a n g \<Longrightarrow> i < n \<Longrightarrow> (\<forall>x. x \<notin> g ` {..<n} \<longrightarrow> m x = mem s x)
    \<Longrightarrow> mem t = m \<Longrightarrow> cr3 t = cr3 s \<Longrightarrow> kva (a + of_nat i) t = Some (g i)"
proof -
  assume "ubuf s a n g" "i < n" "\<forall>x. x \<notin> g ` {..<n} \<longrightarrow> m x = mem s x" and t: "mem t = m" "cr3 t = cr3 s"
  then have "kva (a + of_nat i) (s\<lparr>mem := m\<rparr>) = Some (g i)" unfolding ubuf_def by blast
  then show ?thesis using t by (auto simp: kva_def split: if_splits)
qed

text \<open>The state after the first \<open>k\<close> bytes of the pipe went to the user buffer.\<close>

abbreviation taken :: "addr \<Rightarrow> (nat \<Rightarrow> addr) \<Rightarrow> byte list \<Rightarrow> 'z pipe_st_scheme \<Rightarrow> 'z pipe_st_scheme" where
  "taken p g ys s \<equiv> s\<lparr>mem := copied g ys (mem s), pipes := (pipes s)(p := (pipe_drop ^^ length ys) (pipes s p))\<rparr>"

lemma drops_flags [simp]: "readopen ((pipe_drop ^^ k) q) = readopen q" "writeopen ((pipe_drop ^^ k) q) = writeopen q"
  by (induction k) (simp_all add: pipe_drop_def)

lemma piperead_copy_law:
  assumes r: "pipe_rep (pipes h p) xs" and u: "ubuf h a k g" and k: "k = min (nat (sint n)) (length xs)"
  shows "piperead_copy p a n h = Ok (of_nat k) (taken p g (take k xs) h)"
proof -
  let ?S = "\<lambda>j. taken p g (take j xs) h"
  have kl: "k \<le> length xs" using k by simp
  have st: "piperead_body p a n j (?S j) = Ok (Inl (Suc j)) (?S (Suc j))" if j: "j < k" for j
  proof -
    have l: "length (take j xs) = j" "length (take (Suc j) xs) = Suc j" "j < length xs" using j kl by auto
    have e: "\<not> pipe_empty ((pipe_drop ^^ j) (pipes h p))" "pipe_get ((pipe_drop ^^ j) (pipes h p)) = xs ! j"
      using pq.rests_empty [OF r, of j] pq.gets_rep [OF r, of j] l(3) by auto
    have "kva (a + of_nat j) ((?S j)\<lparr>pipes := P\<rparr>) = Some (g j)" for P
      by (rule ubuf_kva [OF u j, where m = "copied g (take j xs) (mem h)"]) (use l j in \<open>auto intro!: copied_out\<close>)
    then have w: "ustore (a + of_nat j) b ((?S j)\<lparr>pipes := P\<rparr>) = Ok () ((?S j)\<lparr>pipes := P, mem := (copied g (take j xs) (mem h))(g j := b)\<rparr>)" for b P
      by (simp add: ustore_def kdefs)
    have "int j < sint n" using j k by (simp add: zless_nat_eq_int_zless)
    then show ?thesis using e l w copied_take [OF l(3), of g "mem h"] by (simp add: piperead_body_def kdefs)
  qed
  have "loopK (piperead_body p a n) 0 (?S 0) = loopK (piperead_body p a n) k (?S k)"
    by (rule loopK_steps [where f = "\<lambda>j. j" and S = ?S]) (rule st)
  moreover have "?S 0 = h" by (simp add: copied_def)
  moreover have "\<not> int k < sint n \<or> pipe_empty ((pipe_drop ^^ k) (pipes h p))" using pq.rests_empty [OF r kl] k by auto
  then have "loopK (piperead_body p a n) k (?S k) = Ok (of_nat k) (?S k)"
    using kl by (auto simp: loopK_unfold piperead_body_def kdefs min_def)
  ultimately show ?thesis by (simp add: piperead_copy_def)
qed

text \<open>\<^verbatim>\<open>piperead\<close> up to its return or its next sleep.\<close>

lemma piperead_loop_law:
  assumes H: "only_held (L_pipe p) h" "curproc h = Some c" "c < length (ptable h)"
    and r: "pipe_rep (pipes h p) xs" and u: "ubuf h a k g" and k: "k = min (nat (sint n)) (length xs)"
  shows "piperead_loop p a n h =
      (if xs = [] \<and> writeopen (pipes h p) then
         if killed (ptable h ! c) \<noteq> 0 then Ok (- 1) (released (L_pipe p) h)
         else Swtch (slept c (ChPipeRead p) (L_pipe p) h)
       else Ok (of_nat k) (released (L_pipe p) (wakened (ChPipeWrite p) (taken p g (take k xs) h))))"
proof -
  obtain t where t: "t = taken p g (take k xs) h" by blast
  have T: "only_held (L_pipe p) t" "only_held (L_pipe p) (wakened (ChPipeWrite p) t)"
    using H only_held_cong [of t h] only_held_cong [of "wakened (ChPipeWrite p) t" h] by (simp_all add: t)
  have "pipe_empty (pipes h p) \<longleftrightarrow> xs = []" by (rule pq.empty_iff [OF r])
  then show ?thesis using H piperead_copy_law [OF r u k] unfolding t [symmetric]
    by (auto simp: piperead_loop_def kdefs myproc_def only_held_release sleep_swtch
        only_held_wakeup [OF T(1)] only_held_release [OF T(2)])
qed

section \<open>Properties\<close>

text \<open>
  The life of a pipe as a sequence of the stretches its readers and writers run with its lock held, in any
  order and by any processes: \<open>W\<close> are the bytes taken from the writers so far, \<open>R\<close> those delivered to
  the readers. A writer that goes to sleep has handed over as many bytes as \<open>nwrite\<close> moved.
\<close>

definition pipe_ctx :: "addr \<Rightarrow> 'z pipe_st_scheme \<Rightarrow> bool" where
  "pipe_ctx p h \<longleftrightarrow> only_held (L_pipe p) h \<and> (\<exists>c < length (ptable h). curproc h = Some c)"

inductive pipe_run :: "addr \<Rightarrow> pipe \<Rightarrow> byte list \<Rightarrow> byte list \<Rightarrow> bool" for p where
  fresh: "length (pdata q) = PIPESIZE \<Longrightarrow> nread q = nwrite q \<Longrightarrow> pipe_run p q [] []"
| wrote: "pipe_run p (pipes h p) W R \<Longrightarrow> pipe_ctx p (h :: pipe_st) \<Longrightarrow> uholds h a bs \<Longrightarrow> sint n = int (length bs) \<Longrightarrow> i \<le> length bs
    \<Longrightarrow> pipewrite_loop p a n i h \<in> {Ok v t, Swtch t}
    \<Longrightarrow> pipe_run p (pipes t p) (W @ take (unat (nwrite (pipes t p) - nwrite (pipes h p))) (drop i bs)) R"
| read: "pipe_run p (pipes h p) W R \<Longrightarrow> pipe_ctx p (h :: pipe_st) \<Longrightarrow> ubuf h a (nat (sint n)) g
    \<Longrightarrow> piperead_loop p a n h = Ok v t \<Longrightarrow> v \<noteq> - 1
    \<Longrightarrow> pipe_run p (pipes t p) W (R @ map (\<lambda>i. mem t (g i)) [0..<unat v])"
| waited: "pipe_run p (pipes h p) W R \<Longrightarrow> pipe_ctx p (h :: pipe_st) \<Longrightarrow> ubuf h a (nat (sint n)) g
    \<Longrightarrow> piperead_loop p a n h \<in> {Ok (- 1) t, Swtch t} \<Longrightarrow> pipe_run p (pipes t p) W R"
| closed: "pipe_run p q W R \<Longrightarrow> pipe_run p (q\<lparr>writeopen := w, readopen := r\<rparr>) W R"

lemma ubuf_le: "ubuf s a n g \<Longrightarrow> k \<le> n \<Longrightarrow> ubuf s a k g"
proof -
  assume u: "ubuf s a n g" and k: "k \<le> n"
  have "kva (a + of_nat i) (s\<lparr>mem := m\<rparr>) = Some (g i)" if "i < k" "\<forall>x. x \<notin> g ` {..<k} \<longrightarrow> m x = mem s x" for m i
  proof -
    have "\<forall>x. x \<notin> g ` {..<n} \<longrightarrow> m x = mem s x" using that(2) k by fastforce
    then show ?thesis using u that(1) k unfolding ubuf_def by auto
  qed
  moreover have "inj_on g {..<k}" using u k unfolding ubuf_def by (auto intro: inj_on_subset)
  ultimately show ?thesis unfolding ubuf_def by blast
qed

lemma pipe_rep_flags: "pipe_rep (q\<lparr>writeopen := w, readopen := r\<rparr>) xs = pipe_rep q xs"
  by (simp add: pipe_rep_def)

lemma puts_count: "nwrite (fold pipe_put cs q) = nwrite q + of_nat (length cs)"
  by (induction cs arbitrary: q) (simp_all add: pipe_put_def)

lemma released_pipes [simp]: "pipes (released l s) = pipes s" "mem (released l s) = mem s"
  by (simp_all add: released_def)

lemma acquired_pipes [simp]: "pipes (acquired l s) = pipes s" "mem (acquired l s) = mem s"
  by (simp_all add: acquired_def)

lemma pipewrite_moves:
  assumes C: "pipe_ctx p h" and r: "pipe_rep (pipes h p) xs" and u: "uholds h a bs" "sint n = int (length bs)" "i \<le> length bs"
    and o: "pipewrite_loop p a n i h \<in> {Ok v t, Swtch t}"
  shows "pipe_rep (pipes t p) (xs @ take (unat (nwrite (pipes t p) - nwrite (pipes h p))) (drop i bs))"
proof -
  obtain c where H: "only_held (L_pipe p) h" "curproc h = Some c" "c < length (ptable h)" using C by (auto simp: pipe_ctx_def)
  obtain k where k: "k = min (length bs - i) (PIPESIZE - length xs)" by blast
  obtain s where s: "s = with_bytes p (take k (drop i bs)) h" by blast
  note L = pipewrite_loop_law [OF H r u k s]
  have "pipes t p = pipes s p" using o L(1) by (auto split: if_splits)
  moreover have "unat (of_nat k :: uint) = k" by (rule unat_of_nat_small) (simp add: k PIPESIZE_def)
  then have "unat (nwrite (pipes s p) - nwrite (pipes h p)) = k" using k by (simp add: s puts_count min_absorb2)
  ultimately show ?thesis using L(2) by simp
qed

lemma piperead_moves:
  assumes C: "pipe_ctx p h" and r: "pipe_rep (pipes h p) xs" and u: "ubuf h a (nat (sint n)) g"
  shows "piperead_loop p a n h = Ok v t \<Longrightarrow> v \<noteq> - 1 \<Longrightarrow>
      \<exists>ys. xs = map (\<lambda>i. mem t (g i)) [0..<unat v] @ ys \<and> pipe_rep (pipes t p) ys"
    and "piperead_loop p a n h \<in> {Ok (- 1) t, Swtch t} \<Longrightarrow> pipe_rep (pipes t p) xs"
proof -
  obtain c where H: "only_held (L_pipe p) h" "curproc h = Some c" "c < length (ptable h)" using C by (auto simp: pipe_ctx_def)
  let ?k = "min (nat (sint n)) (length xs)"
  have ub: "ubuf h a ?k g" by (rule ubuf_le [OF u]) simp
  note L = piperead_loop_law [OF H r ub refl]
  have "length xs \<le> PIPESIZE" by (rule pq.rep_cap [OF r])
  then have k: "unat (of_nat ?k :: uint) = ?k" by (intro unat_of_nat_small) (simp add: PIPESIZE_def)
  moreover have "unat (- 1 :: uint) \<noteq> ?k" using \<open>length xs \<le> PIPESIZE\<close> by (simp add: unsigned_minus_1_eq_mask mask_eq_exp_minus_1 PIPESIZE_def min_def)
  ultimately have m1: "(of_nat ?k :: uint) \<noteq> - 1" by metis
  have "inj_on g {..<?k}" using ub by (simp add: ubuf_def)
  then have cp: "copied g (take ?k xs) m (g i) = xs ! i" if "i < ?k" for m i
    using that copied_in [of g "take ?k xs" i m] by simp
  have rt: "pipe_rep ((pipe_drop ^^ ?k) (pipes h p)) (drop ?k xs)" by (rule pq.rests_rep [OF r]) simp
  show "piperead_loop p a n h \<in> {Ok (- 1) t, Swtch t} \<Longrightarrow> pipe_rep (pipes t p) xs"
    using L m1 r by (auto split: if_splits)
  assume o: "piperead_loop p a n h = Ok v t" "v \<noteq> - 1"
  then have t: "v = of_nat ?k" "pipes t p = (pipe_drop ^^ ?k) (pipes h p)" "mem t = copied g (take ?k xs) (mem h)"
    using L by (auto split: if_splits)
  have "map (\<lambda>i. mem t (g i)) [0..<unat v] = take ?k xs"
    unfolding t(1,3) k by (rule nth_equalityI) (auto simp: cp)
  then show "\<exists>ys. xs = map (\<lambda>i. mem t (g i)) [0..<unat v] @ ys \<and> pipe_rep (pipes t p) ys"
    using rt t(2) by (intro exI [of _ "drop ?k xs"]) simp
qed

text \<open>
  \<^bold>\<open>C22\<close>. A pipe is a first-in first-out channel: whatever its readers and writers do, interleaved in
  any way between the sleeps, the bytes delivered so far are a prefix of the bytes taken so far, and the
  rest, at most 512 bytes, is what the ring buffer holds, also across the wrap-around of its indices.
\<close>

theorem pipe_is_fifo:
  assumes "pipe_run p q W R"
  shows "\<exists>xs. W = R @ xs \<and> pipe_rep q xs"
  using assms
proof (induction rule: pipe_run.induct)
  case (fresh q)
  then show ?case by (simp add: pipe_rep_def)
next
  case (wrote h W R a bs n i v t)
  then show ?case using pipewrite_moves [of p h _ a bs n i v t] by fastforce
next
  case (read h W R a n g v t)
  then obtain xs where x: "W = R @ xs" "pipe_rep (pipes h p) xs" by blast
  with piperead_moves(1) [OF read.hyps(2) x(2) read.hyps(3) read.hyps(4,5)] show ?case by auto
next
  case (waited h W R a n g t)
  then show ?case using piperead_moves(2) [of p h _ a n g t] by blast
next
  case (closed q W R w r)
  then show ?case by (simp add: pipe_rep_flags)
qed


definition pipe0 :: pipe where
  "pipe0 = \<lparr>pdata = replicate 512 0, nread = 0xFFFFFFFF, nwrite = 0xFFFFFFFF, readopen = True, writeopen = True\<rparr>"

definition pipe_boot :: pipe_st where
  "pipe_boot = fs_st.extend (fs_boot\<lparr>ptable := [proc0, proc0], curproc := Some 0, mem := (\<lambda>_. 7)\<rparr>) (pipe_st.fields (\<lambda>_. pipe0))"

lemmas pipe_boot_defs = pipe_boot_def fs_boot_defs pipe_st.defs

lemma pipe_boot_sel [simp]:
  "mem pipe_boot = (\<lambda>_. 7)" "curproc pipe_boot = Some 0" "ptable pipe_boot = [proc0, proc0]" "pipes pipe_boot = (\<lambda>_. pipe0)"
  by (simp_all add: pipe_boot_defs)

lemma uholds_const:
  assumes "n \<le> 4096" "mem s = (\<lambda>_. b)"
  shows "uholds s KERNBASE (replicate n b)"
proof -
  have "unat (KERNBASE + of_nat j) = unat KERNBASE + j" if "j < n" for j
    using that assms(1) by (simp add: KERNBASE_def unat_word_ariths unat_of_nat mod_simps)
  then have "KERNBASE \<le> KERNBASE + of_nat j" if "j < n" for j using that by (simp add: word_le_nat_alt)
  then show ?thesis using assms(2) by (simp add: uholds_def kva_def)
qed

lemma pipe_boot_idle: "idle pipe_boot" "idle (pipe_boot\<lparr>ptable := tab\<rparr>)" "pipe_rep (pipes pipe_boot p) []"
  by (simp_all add: idle_def free_lock_def pipe_boot_defs pipe_rep_def pipe0_def PIPESIZE_def)

theorem pipe_is_fifo_witness:
  "\<exists>q. pipe_run 0 q [7, 7, 7] [] \<and> (\<exists>xs. [7, 7, 7] = [] @ xs \<and> pipe_rep q xs)"
proof -
  let ?h = "acquired (L_pipe 0) pipe_boot" and ?n = "3 :: uint"
  have f: "pipe_run 0 (pipes ?h 0) [] []" by (rule pipe_run.fresh) (simp_all add: pipe_boot_defs pipe0_def PIPESIZE_def)
  have H: "only_held (L_pipe 0) ?h" by (rule only_held_acquired) (rule pipe_boot_idle)
  moreover have c: "curproc ?h = Some 0" "0 < length (ptable ?h)" "pipe_rep (pipes ?h 0) []"
    using pipe_boot_idle(3) [of 0] by (simp_all add: acquired_def)
  ultimately have C: "pipe_ctx 0 ?h" by (auto simp: pipe_ctx_def)
  have u: "uholds ?h KERNBASE [7, 7, 7]" using uholds_const [of 3 ?h 7] by (simp add: pipe_boot_defs numeral_3_eq_3)
  have w: "\<exists>t. pipewrite_loop 0 KERNBASE ?n 0 ?h = Ok 3 t \<and> nwrite (pipes t 0) - nwrite (pipes ?h 0) = 3"
    using pipewrite_loop_law(1) [OF H c u, of ?n 0 3] by (simp add: PIPESIZE_def pipe_put_def)
  then obtain t where t: "pipewrite_loop 0 KERNBASE ?n 0 ?h = Ok 3 t" "nwrite (pipes t 0) - nwrite (pipes ?h 0) = 3" by blast
  have "pipe_run 0 (pipes t 0) ([] @ take (unat (nwrite (pipes t 0) - nwrite (pipes ?h 0))) (drop 0 [7, 7, 7])) []"
    by (rule pipe_run.wrote [OF f C u, where n = ?n and v = 3]) (simp_all add: t)
  then have "pipe_run 0 (pipes t 0) [7, 7, 7] []" unfolding t(2) by simp
  with pipe_is_fifo [OF this] show ?thesis by blast
qed

text \<open>
  \<^bold>\<open>C23\<close>. A reader can miss a wakeup: when a process that has been killed writes more bytes than an empty
  pipe can hold, it fills the pipe and returns \<open>-1\<close> without the \<^verbatim>\<open>wakeup\<close> that both other exits of
  \<^verbatim>\<open>pipewrite\<close> have, so a reader that waits for data stays asleep although the pipe is full.
\<close>

theorem pipewrite_killed_loses_wakeup:
  assumes "idle s" "curproc s = Some c" "c < length (ptable s)" "killed (ptable s ! c) \<noteq> 0"
    and "pipe_rep (pipes s p) []" "uholds s a bs" "sint n = int (length bs)" "PIPESIZE < length bs"
    and "asleep_on (ChPipeRead p) (ptable s) r"
  shows "\<exists>t. pipewrite p a n s = Ok (- 1) t \<and> pipe_rep (pipes t p) (take PIPESIZE bs) \<and> asleep_on (ChPipeRead p) (ptable t) r"
proof -
  let ?h = "acquired (L_pipe p) s"
  obtain t where t: "t = with_bytes p (take PIPESIZE (drop 0 bs)) ?h" by blast
  have "only_held (L_pipe p) ?h" "curproc ?h = Some c" "c < length (ptable ?h)" "pipe_rep (pipes ?h p) []"
    using only_held_acquired [OF assms(1)] assms(2-5) by (auto simp: acquired_def)
  moreover have "uholds ?h a bs" using assms(6) uholds_cong [of ?h s] by (simp add: acquired_def)
  moreover have "PIPESIZE = min (length bs - 0) (PIPESIZE - length [])" using assms(8) by simp
  ultimately have "pipewrite_loop p a n 0 ?h = Ok (- 1) (released (L_pipe p) t)" "pipe_rep (pipes t p) (take PIPESIZE bs)"
    using pipewrite_loop_law [of p ?h c "[]" a bs n 0 PIPESIZE t] assms(4,7,8) t by (simp_all add: acquired_def)
  moreover have "ptable (released (L_pipe p) t) = ptable s" by (simp add: t released_def acquired_def)
  ultimately show ?thesis using assms(1,9)
    by (intro exI [of _ "released (L_pipe p) t"]) (simp add: pipewrite_def kdefs acquire_free idle_free)
qed


theorem pipewrite_killed_loses_wakeup_witness:
  "\<exists>t. pipewrite 0 KERNBASE 513 (pipe_boot\<lparr>ptable := [proc0\<lparr>killed := 1\<rparr>, sleep_mark (ChPipeRead 0) proc0]\<rparr>) = Ok (- 1) t
     \<and> pipe_rep (pipes t 0) (take PIPESIZE (replicate 513 7)) \<and> asleep_on (ChPipeRead 0) (ptable t) 1"
proof (rule pipewrite_killed_loses_wakeup [where c = 0])
  show "uholds (pipe_boot\<lparr>ptable := [proc0\<lparr>killed := 1\<rparr>, sleep_mark (ChPipeRead 0) proc0]\<rparr>) KERNBASE (replicate 513 7)"
    by (rule uholds_const) simp_all
qed (use pipe_boot_idle in \<open>simp_all add: PIPESIZE_def asleep_on_def sleep_mark_def\<close>)

section \<open>Waiting readers and writers\<close>

text \<open>
  What a writer and a reader do to the pipe before the \<^verbatim>\<open>wakeup\<close> of the other side.
\<close>

definition pipe_wrote :: "pipe \<Rightarrow> pipe \<Rightarrow> bool" where
  "pipe_wrote q q' \<longleftrightarrow> (\<exists>xs cs. pipe_rep q xs \<and> length xs + length cs \<le> PIPESIZE \<and> q' = fold pipe_put cs q)"

definition pipe_took :: "pipe \<Rightarrow> pipe \<Rightarrow> bool" where
  "pipe_took q q' \<longleftrightarrow> (\<exists>xs k. pipe_rep q xs \<and> k \<le> length xs \<and> q' = (pipe_drop ^^ k) q)"

definition may_read :: "pipe \<Rightarrow> bool" where
  "may_read q \<longleftrightarrow> \<not> (pipe_empty q \<and> writeopen q)"

definition may_write :: "pipe \<Rightarrow> bool" where
  "may_write q \<longleftrightarrow> \<not> (pipe_full q \<and> readopen q)"

definition for_readers :: "pipe \<Rightarrow> pipe \<Rightarrow> bool" where
  "for_readers q q' \<longleftrightarrow> pipe_wrote q q' \<or> q' = q\<lparr>writeopen := False\<rparr>"

definition for_writers :: "pipe \<Rightarrow> pipe \<Rightarrow> bool" where
  "for_writers q q' \<longleftrightarrow> pipe_took q q' \<or> q' = q\<lparr>readopen := False\<rparr>"

interpretation prm: monitor may_read for_readers for_writers "ChPipeRead p" for p
proof unfold_locales
  fix q q' assume "for_writers q q'" "may_read q'"
  then show "may_read q"
    by (auto simp: for_writers_def may_read_def pipe_took_def pipe_empty_def [of "q\<lparr>readopen := False\<rparr>"] pipe_empty_def [of q]
        dest: pq.empty_iff pq.rests_empty)
qed

interpretation pwm: monitor may_write for_writers for_readers "ChPipeWrite p" for p
proof unfold_locales
  fix q q' assume f: "for_readers q q'" and m: "may_write q'"
  show "may_write q"
  proof (cases "q' = q\<lparr>writeopen := False\<rparr>")
    case False
    then obtain xs cs where "pipe_rep q xs" "length xs + length cs \<le> PIPESIZE" "q' = fold pipe_put cs q"
      using f by (auto simp: for_readers_def pipe_wrote_def)
    with m show ?thesis by (cases cs) (auto simp: may_write_def dest: pq.full_iff)
  qed (use m in \<open>simp add: may_write_def pipe_full_def\<close>)
qed



end
