(* ===== verification/File.thy ===== *)
theory File
  imports Pipe
begin

text \<open>
  \<^verbatim>\<open>kernel/file.c\<close>, the table of open files, and \<^verbatim>\<open>pipealloc\<close> of \<^verbatim>\<open>kernel/pipe.c\<close>.
\<close>

section \<open>State\<close>

datatype ftype = FD_NONE | FD_PIPE | FD_INODE

record kfile =
  ftype :: ftype
  fref :: int
  readable :: bool
  writable :: bool
  fpipe :: addr
  fip :: nat
  foff :: uint

definition NFILE :: nat where
  "NFILE = 100"

record file_st = pipe_st +
  ftable :: "nat \<Rightarrow> kfile"

definition upd_file :: "nat \<Rightarrow> (kfile \<Rightarrow> kfile) \<Rightarrow> (unit, 'z file_st_scheme) kern" where
  [kdefs]: "upd_file i f = modK (\<lambda>s. s\<lparr>ftable := (ftable s)(i := f (ftable s i))\<rparr>)"

section \<open>Operations\<close>

definition fileinit :: "(unit, 'z file_st_scheme) kern" where
  "fileinit = initlock L_ftable ''ftable''"

definition filealloc :: "(nat option, 'z file_st_scheme) kern" where
  "filealloc =
    seqK (acquire L_ftable)
   (bindK (getK (\<lambda>s. find (\<lambda>i. fref (ftable s i) = 0) [0..<NFILE])) (\<lambda>r.
      case r of
        Some i \<Rightarrow> seqK (upd_file i (\<lambda>f. f\<lparr>fref := 1\<rparr>)) (seqK (release L_ftable) (ret (Some i)))
      | None \<Rightarrow> seqK (release L_ftable) (ret None)))"

definition filedup :: "nat \<Rightarrow> (nat, 'z file_st_scheme) kern" where
  "filedup i =
    seqK (acquire L_ftable)
   (bindK (getK (\<lambda>s. fref (ftable s i))) (\<lambda>r.
      if r < 1 then panic ''filedup''
      else
        seqK (upd_file i (\<lambda>f. f\<lparr>fref := fref f + 1\<rparr>))
       (seqK (release L_ftable)
             (ret i))))"

definition fileclose :: "nat \<Rightarrow> (unit, 'z file_st_scheme) kern" where
  "fileclose i =
    seqK (acquire L_ftable)
   (bindK (getK (\<lambda>s. ftable s i)) (\<lambda>ff.
      if fref ff < 1 then panic ''fileclose''
      else if fref ff - 1 > 0 then
        seqK (upd_file i (\<lambda>f. f\<lparr>fref := fref f - 1\<rparr>)) (release L_ftable)
      else
        seqK (upd_file i (\<lambda>f. f\<lparr>fref := 0, ftype := FD_NONE\<rparr>))
       (seqK (release L_ftable)
       (if ftype ff = FD_PIPE then pipeclose (fpipe ff) (writable ff)
        else if ftype ff = FD_INODE then
          seqK begin_trans
         (seqK (iput (fip ff))
               commit_trans)
        else ret ()))))"

text \<open>\<^verbatim>\<open>struct stat\<close> in user memory; the padding is not written.\<close>

definition stat_store :: "addr \<Rightarrow> stat \<Rightarrow> (unit, 'z vm_st_scheme) kern" where
  "stat_store a st =
    seqK (ustore_n (a + 4) (bytes32 (st_dev st)))
   (seqK (ustore_n (a + 8) (bytes32 (st_ino st)))
   (seqK (ustore_n a (bytes16 (st_type st)))
   (seqK (ustore_n (a + 12) (bytes16 (st_nlink st)))
         (ustore_n (a + 16) (bytes32 (st_size st))))))"

definition filestat :: "nat \<Rightarrow> addr \<Rightarrow> (uint, 'z file_st_scheme) kern" where
  "filestat i a =
    bindK (getK (\<lambda>s. ftable s i)) (\<lambda>f.
      if ftype f = FD_INODE then
        seqK (ilock (fip f))
       (bindK (getK (stati (fip f))) (\<lambda>st.
        seqK (stat_store a st)
       (seqK (iunlock (fip f))
             (ret 0))))
      else ret (- 1))"

definition fileread :: "nat \<Rightarrow> addr \<Rightarrow> uint \<Rightarrow> (uint, 'z file_st_scheme) kern" where
  "fileread i a n =
    bindK (getK (\<lambda>s. ftable s i)) (\<lambda>f.
      if \<not> readable f then ret (- 1)
      else if ftype f = FD_PIPE then piperead (fpipe f) a n
      else if ftype f = FD_INODE then
        seqK (ilock (fip f))
       (bindK (readi (fip f) (Some a) (foff f) n) (\<lambda>(r, _).
        seqK (whenK (sint r > 0) (upd_file i (\<lambda>f. f\<lparr>foff := foff f + r\<rparr>)))
       (seqK (iunlock (fip f))
             (ret r))))
      else panic ''fileread'')"

text \<open>The largest write of one transaction.\<close>

definition filewrite_max :: int where
  "filewrite_max = (int LOGSIZE - 1 - 1 - 2) div 2 * 512"

definition filewrite_step :: "nat \<Rightarrow> addr \<Rightarrow> uint \<Rightarrow> int \<Rightarrow> (int + uint, 'z file_st_scheme) kern" where
  "filewrite_step fd a n i =
    (if \<not> i < sint n then ret (Inr (if i = sint n then n else - 1))
     else
       let n1 = word_of_int (min (sint n - i) filewrite_max) in
       bindK (getK (\<lambda>s. fip (ftable s fd))) (\<lambda>ip.
       seqK begin_trans
      (seqK (ilock ip)
      (bindK (getK (\<lambda>s. foff (ftable s fd))) (\<lambda>off.
       bindK (writei ip (UMem (a + of_int i)) off n1) (\<lambda>r.
       seqK (whenK (sint r > 0) (upd_file fd (\<lambda>f. f\<lparr>foff := foff f + r\<rparr>)))
      (seqK (iunlock ip)
      (seqK commit_trans
      (if sint r < 0 then ret (Inr (if i = sint n then n else - 1))
       else if r \<noteq> n1 then panic ''short filewrite''
       else ret (Inl (i + sint r)))))))))))"

definition filewrite :: "nat \<Rightarrow> addr \<Rightarrow> uint \<Rightarrow> (uint, 'z file_st_scheme) kern" where
  "filewrite fd a n =
    bindK (getK (\<lambda>s. ftable s fd)) (\<lambda>f.
      if \<not> writable f then ret (- 1)
      else if ftype f = FD_PIPE then pipewrite (fpipe f) a n
      else if ftype f = FD_INODE then loopK (filewrite_step fd a n) 0
      else panic ''filewrite'')"

text \<open>
  \<^verbatim>\<open>pipealloc\<close>. The data array is what the page held at the offset of \<^verbatim>\<open>data\<close>; the label \<^verbatim>\<open>bad\<close> is a definition of its own.
\<close>

definition pipealloc_bad :: "addr \<Rightarrow> nat option \<Rightarrow> nat option \<Rightarrow> ((nat \<times> nat) option, 'z file_st_scheme) kern" where
  "pipealloc_bad p f0 f1 =
    seqK (whenK (p \<noteq> 0) (kfree p))
   (seqK (case f0 of None \<Rightarrow> ret () | Some f \<Rightarrow> fileclose f)
   (seqK (case f1 of None \<Rightarrow> ret () | Some f \<Rightarrow> fileclose f)
         (ret None)))"

definition pipealloc :: "((nat \<times> nat) option, 'z file_st_scheme) kern" where
  "pipealloc =
    bindK filealloc (\<lambda>r0.
      case r0 of None \<Rightarrow> pipealloc_bad 0 None None
      | Some f0 \<Rightarrow>
    bindK filealloc (\<lambda>r1.
      case r1 of None \<Rightarrow> pipealloc_bad 0 (Some f0) None
      | Some f1 \<Rightarrow>
    bindK kalloc (\<lambda>p.
      if p = 0 then pipealloc_bad 0 (Some f0) (Some f1)
      else
        bindK (getK (\<lambda>s. bytes_at (mem s) (p + 104) PIPESIZE)) (\<lambda>d.
        seqK (upd_pipe p (\<lambda>q. \<lparr>pdata = d, nread = 0, nwrite = 0, readopen = True, writeopen = True\<rparr>))
       (seqK (initlock (L_pipe p) ''pipe'')
       (seqK (upd_file f0 (\<lambda>f. f\<lparr>ftype := FD_PIPE, readable := True, writable := False, fpipe := p\<rparr>))
       (seqK (upd_file f1 (\<lambda>f. f\<lparr>ftype := FD_PIPE, readable := False, writable := True, fpipe := p\<rparr>))
             (ret (Some (f0, f1))))))))))"

section \<open>Reference counts\<close>

text \<open>A slot of the file table that is not in use has no type, and no count is negative.\<close>

definition files_ok :: "'z file_st_scheme \<Rightarrow> bool" where
  "files_ok s \<longleftrightarrow> idle s \<and> (\<forall>i < NFILE. fref (ftable s i) \<ge> 0 \<and> (fref (ftable s i) = 0 \<longrightarrow> ftype (ftable s i) = FD_NONE))"

abbreviation frefs :: "'z file_st_scheme \<Rightarrow> nat \<Rightarrow> int" where
  "frefs s \<equiv> \<lambda>i. fref (ftable s i)"

definition free_files :: "'z file_st_scheme \<Rightarrow> nat list" where
  "free_files s = filter (\<lambda>i. fref (ftable s i) = 0) [0..<NFILE]"

abbreviation with_file :: "nat \<Rightarrow> kfile \<Rightarrow> 'z file_st_scheme \<Rightarrow> 'z file_st_scheme" where
  "with_file i f s \<equiv> s\<lparr>ftable := (ftable s)(i := f)\<rparr>"

lemma find_filter: "find P xs = (case filter P xs of [] \<Rightarrow> None | x # _ \<Rightarrow> Some x)"
  by (induction xs) auto

lemma filealloc_law:
  "idle s \<Longrightarrow> filealloc s =
     (case free_files s of [] \<Rightarrow> Ok None s | i # _ \<Rightarrow> Ok (Some i) (with_file i ((ftable s i)\<lparr>fref := 1\<rparr>) s))"
proof -
  assume s: "idle s"
  note r = crit_release [OF idle_settled [OF s] idle_free [OF s], where f = "\<lambda>s. s\<lparr>ftable := F (ftable s)\<rparr>" for F]
  have "release L_ftable (acquired L_ftable s) = Ok () s" using r [of "\<lambda>f. f"] by (simp add: above_mach_def)
  moreover have "release L_ftable ((acquired L_ftable s)\<lparr>ftable := F (ftable s)\<rparr>) = Ok () (s\<lparr>ftable := F (ftable s)\<rparr>)" for F
    using r [of F] by (simp add: above_mach_def acquired_def)
  note this [of "\<lambda>f. f(i := (f i)\<lparr>fref := 1\<rparr>)" for i]
  moreover have "ftable (acquired L_ftable s) = ftable s" by (simp add: acquired_def)
  ultimately show ?thesis using s
    by (simp add: filealloc_def kdefs acquire_free idle_free find_filter free_files_def split: list.splits)
qed

lemma fileclose_last:
  assumes "idle s" "fref (ftable s i) = 1" "ftype (ftable s i) \<noteq> FD_INODE"
  shows "fileclose i s = (if ftype (ftable s i) = FD_PIPE then pipeclose (fpipe (ftable s i)) (writable (ftable s i)) else ret ())
     (with_file i ((ftable s i)\<lparr>fref := 0, ftype := FD_NONE\<rparr>) s)"
proof -
  have "release L_ftable ((acquired L_ftable s)\<lparr>ftable := F (ftable s)\<rparr>) = Ok () (s\<lparr>ftable := F (ftable s)\<rparr>)" for F
    using crit_release [OF idle_settled [OF assms(1)] idle_free [OF assms(1)], where f = "\<lambda>s. s\<lparr>ftable := F (ftable s)\<rparr>"]
    by (simp add: above_mach_def acquired_def)
  note this [of "\<lambda>f. f(i := (f i)\<lparr>fref := 0, ftype := FD_NONE\<rparr>)" for i]
  moreover have "ftable (acquired L_ftable s) = ftable s" by (simp add: acquired_def)
  ultimately show ?thesis using assms by (simp add: fileclose_def kdefs acquire_free idle_free)
qed

text \<open>The pipe with one end closed.\<close>

definition close_end :: "bool \<Rightarrow> pipe \<Rightarrow> pipe" where
  "close_end w q = (if w then q\<lparr>writeopen := False\<rparr> else q\<lparr>readopen := False\<rparr>)"

definition close_chan :: "bool \<Rightarrow> addr \<Rightarrow> chan" where
  "close_chan w p = (if w then ChPipeRead p else ChPipeWrite p)"

lemma pipeclose_law:
  assumes "idle s"
  shows "pipeclose p w s =
     (if readopen (close_end w (pipes s p)) \<or> writeopen (close_end w (pipes s p)) then ret () else kfree p)
       (s\<lparr>pipes := (pipes s)(p := close_end w (pipes s p)), ptable := map (wake_proc (close_chan w p)) (ptable s)\<rparr>)"
proof -
  let ?f = "\<lambda>s. s\<lparr>pipes := (pipes s)(p := close_end w (pipes s p)), ptable := map (wake_proc (close_chan w p)) (ptable s)\<rparr>"
  let ?h = "acquired (L_pipe p) s"
  have "release (L_pipe p) (?h\<lparr>pipes := F (pipes ?h), ptable := G (ptable ?h)\<rparr>) = Ok () (s\<lparr>pipes := F (pipes s), ptable := G (ptable s)\<rparr>)" for F G
    using crit_release [OF idle_settled [OF assms] idle_free [OF assms], where f = "\<lambda>s. s\<lparr>pipes := F (pipes s), ptable := G (ptable s)\<rparr>"]
    by (simp add: above_mach_def)
  from this [of "map (wake_proc (close_chan w p))" "\<lambda>P. P(p := close_end w (P p))"] have "release (L_pipe p) (?f ?h) = Ok () (?f s)" .
  moreover have "only_held (L_pipe p) (?h\<lparr>pipes := P\<rparr>)" for P
    using only_held_acquired [OF assms] only_held_cong [of "?h\<lparr>pipes := P\<rparr>" ?h] by simp
  from only_held_wakeup [OF this]
  have "wakeup (close_chan w p) (?h\<lparr>pipes := (pipes ?h)(p := close_end w (pipes ?h p))\<rparr>) = Ok () (?f ?h)" by simp
  ultimately show ?thesis using assms
    by (cases w) (simp_all add: pipeclose_def kdefs acquire_free idle_free close_end_def close_chan_def)
qed


section \<open>Properties\<close>

lemma free_files_Cons:
  "files_ok s \<Longrightarrow> free_files s = i # is \<Longrightarrow> i < NFILE \<and> fref (ftable s i) = 0 \<and> ftype (ftable s i) = FD_NONE
     \<and> (fref f \<noteq> 0 \<longrightarrow> free_files (with_file i f s) = is)"
proof -
  assume ok: "files_ok s" and f: "free_files s = i # is"
  let ?P = "\<lambda>i. fref (ftable s i) = 0"
  have "distinct (i # is)" using f unfolding free_files_def by (metis distinct_filter distinct_upt)
  moreover have "i \<in> set (free_files s)" using f by simp
  then have i: "i < NFILE" "?P i" by (simp_all add: free_files_def)
  moreover have "filter (\<lambda>j. j \<noteq> i \<and> ?P j) [0..<NFILE] = filter (\<lambda>j. j \<noteq> i) (free_files s)"
    by (simp add: free_files_def conj_commute)
  then have "filter (\<lambda>j. j \<noteq> i \<and> ?P j) [0..<NFILE] = is" using \<open>distinct (i # is)\<close>
    by (auto simp: f filter_id_conv)
  moreover have "(\<lambda>j. fref (ftable (with_file i f s) j) = 0) = (\<lambda>j. j \<noteq> i \<and> ?P j)" if "fref f \<noteq> 0"
    using that by auto
  ultimately have "free_files (with_file i f s) = is" if "fref f \<noteq> 0"
    using that by (simp add: free_files_def)
  with i ok show ?thesis by (simp add: files_ok_def)
qed

lemma kmem_rep_cong:
  "mem t = mem s \<Longrightarrow> freelist t = freelist s \<Longrightarrow> kend t = kend s \<Longrightarrow> use_lock t = use_lock s \<Longrightarrow> ncli t = ncli s \<Longrightarrow> ifl t = ifl s
   \<Longrightarrow> (free_lock L_kmem t = free_lock L_kmem s) \<Longrightarrow> kmem_rep t ps = kmem_rep s ps"
  by (simp add: kmem_rep_def kmem_ready_def mach_ok_def valid_page_def)


definition pipe_file :: "addr \<Rightarrow> bool \<Rightarrow> kfile \<Rightarrow> bool" where
  "pipe_file p w f \<longleftrightarrow> fref f = 1 \<and> ftype f = FD_PIPE \<and> fpipe f = p \<and> writable f = w \<and> readable f = (\<not> w)"

lemma close_both:
  assumes t: "idle t" "kmem_rep t qs" "valid_page t p" "p \<notin> set qs"
    and f: "pipe_file p w (ftable t a)" "pipe_file p (\<not> w) (ftable t b)" "a \<noteq> b" "readopen (pipes t p)" "writeopen (pipes t p)"
  shows "\<exists>u v. fileclose a t = Ok () u \<and> kmem_rep u qs \<and> fileclose b u = Ok () v \<and> kmem_rep v (p # qs) \<and> idle v
    \<and> ftable v = (ftable t)(a := (ftable t a)\<lparr>fref := 0, ftype := FD_NONE\<rparr>, b := (ftable t b)\<lparr>fref := 0, ftype := FD_NONE\<rparr>)"
proof -
  let ?z = "\<lambda>s i. (ftable s i)\<lparr>fref := 0, ftype := FD_NONE\<rparr>"
  let ?wake = "\<lambda>w (s :: 'a file_st_scheme). s\<lparr>pipes := (pipes s)(p := close_end w (pipes s p)), ptable := map (wake_proc (close_chan w p)) (ptable s)\<rparr>"
  obtain t1 where t1: "t1 = with_file a (?z t a) t" by blast
  have i1: "idle t1" "kmem_rep t1 qs" using t idle_cong [of t1 t] kmem_rep_cong [of t1 t] by (simp_all add: t1 free_lock_def)
  obtain u where u: "u = ?wake w t1" by blast
  have u1: "fileclose a t = Ok () u" using f fileclose_last [OF t(1), of a]
    by (auto simp: pipe_file_def t1 [symmetric] pipeclose_law [OF i1(1)] u [symmetric] ret_def) (auto simp: t1 close_end_def)
  have iu: "idle u" "kmem_rep u qs" using i1 idle_cong [of u t1] kmem_rep_cong [of u t1] by (simp_all add: u free_lock_def)
  have fu: "ftable u b = ftable t b" "\<not> readopen (close_end (\<not> w) (pipes u p))" "\<not> writeopen (close_end (\<not> w) (pipes u p))"
    using f by (auto simp: u t1 close_end_def)
  obtain u2 where u2: "u2 = ?wake (\<not> w) (with_file b (?z u b) u)" by blast
  have i2: "idle u2" "kmem_rep u2 qs" "valid_page u2 p" using iu t(3) idle_cong [of u2 u] kmem_rep_cong [of u2 u]
    by (simp_all add: u2 free_lock_def valid_page_def u t1)
  have c: "idle (with_file b (?z u b) u)" using iu(1) idle_cong [of "with_file b (?z u b) u" u] by simp
  have "fileclose b u = kfree p u2" using f(2) fu fileclose_last [OF iu(1), of b] pipeclose_law [OF c, of p "\<not> w"]
    by (simp add: pipe_file_def u2)
  moreover obtain m g where "kfree p u2 = Ok () (u2\<lparr>mem := m, freelist := g\<rparr>)" "kmem_rep (u2\<lparr>mem := m, freelist := g\<rparr>) (p # qs)"
    by (rule kfree_put [OF idle_settled [OF i2(1)] i2(2,3) t(4)])
  moreover have "idle (u2\<lparr>mem := m, freelist := g\<rparr>)" using i2(1) idle_cong [of "u2\<lparr>mem := m, freelist := g\<rparr>" u2] by simp
  moreover have "ftable (u2\<lparr>mem := m, freelist := g\<rparr>) = (ftable t)(a := ?z t a, b := ?z t b)"
    using f(3) by (simp add: u2 u t1)
  ultimately show ?thesis using u1 iu(2) by (intro exI [of _ u] exI [of _ "u2\<lparr>mem := m, freelist := g\<rparr>"]) simp
qed

lemma with_file_idle: "idle (s\<lparr>ftable := F\<rparr>) = idle s" "kmem_rep (s\<lparr>ftable := F\<rparr>) ps = kmem_rep s ps"
  using idle_cong [of "s\<lparr>ftable := F\<rparr>" s] kmem_rep_cong [of "s\<lparr>ftable := F\<rparr>" s] by (simp_all add: free_lock_def)

text \<open>Giving back a slot that was taken and not yet used.\<close>

lemma file_undo:
  assumes "idle s" "ftable s i = f\<lparr>fref := 1\<rparr>" "fref f = 0" "ftype f = FD_NONE"
  shows "fileclose i s = Ok () (with_file i f s)"
proof -
  have e: "f\<lparr>fref := 0, ftype := FD_NONE\<rparr> = f" using assms(3,4) by (cases f) simp
  have "fileclose i s = Ok () (with_file i (f\<lparr>fref := 0, ftype := FD_NONE\<rparr>) s)"
    using fileclose_last [OF assms(1), of i] assms(4) unfolding assms(2) by (simp add: ret_def)
  then show ?thesis unfolding e .
qed

lemma file_alloc:
  assumes "files_ok s" "free_files s = i # is" and t: "t = with_file i ((ftable s i)\<lparr>fref := 1\<rparr>) s"
  shows "filealloc s = Ok (Some i) t" "files_ok t" "free_files t = is" "fref (ftable s i) = 0" "ftype (ftable s i) = FD_NONE"
proof -
  show "filealloc s = Ok (Some i) t" using assms filealloc_law [of s] by (simp add: files_ok_def)
  show "files_ok t" using assms(1) by (simp add: files_ok_def t with_file_idle)
  show "free_files t = is" "fref (ftable s i) = 0" "ftype (ftable s i) = FD_NONE"
    using free_files_Cons [OF assms(1,2), of "(ftable s i)\<lparr>fref := 1\<rparr>"] by (simp_all add: t)
qed

lemma file_alloc2:
  assumes "files_ok s" "free_files s = i # j # is"
  obtains t u where "filealloc s = Ok (Some i) t" "filealloc t = Ok (Some j) u" "files_ok u" "i \<noteq> j"
    "u = with_file j ((ftable s j)\<lparr>fref := 1\<rparr>) (with_file i ((ftable s i)\<lparr>fref := 1\<rparr>) s)"
    "fref (ftable s i) = 0" "ftype (ftable s i) = FD_NONE" "fref (ftable s j) = 0" "ftype (ftable s j) = FD_NONE"
proof -
  obtain t where t: "t = with_file i ((ftable s i)\<lparr>fref := 1\<rparr>) s" by blast
  note A = file_alloc [OF assms t]
  note B = file_alloc [OF A(2,3) refl]
  have "i \<noteq> j" using B(4) by (auto simp: t)
  then show ?thesis using that [OF A(1) B(1)] A B by (simp add: t)
qed

lemma pipealloc_fails:
  assumes s: "files_ok s" "kmem_rep s ps" and f: "length (free_files s) < 2 \<or> ps = []"
  shows "pipealloc s = Ok None s"
proof -
  consider "free_files s = []" | i where "free_files s = [i]" | i j js where "free_files s = i # j # js"
    by (metis list.exhaust)
  then show ?thesis
  proof cases
    case 1
    then show ?thesis using s(1) by (simp add: pipealloc_def pipealloc_bad_def kdefs filealloc_law files_ok_def)
  next
    case (2 i)
    obtain t where t: "t = with_file i ((ftable s i)\<lparr>fref := 1\<rparr>) s" by blast
    note A = file_alloc [OF s(1) 2 t]
    have "filealloc t = Ok None t" using A filealloc_law [of t] by (simp add: files_ok_def)
    moreover have "fileclose i t = Ok () s" using A file_undo [of t i "ftable s i"] by (simp add: files_ok_def t)
    ultimately show ?thesis using A(1) by (simp add: pipealloc_def pipealloc_bad_def kdefs)
  next
    case (3 i j js)
    from file_alloc2 [OF s(1) 3] obtain t u where A: "filealloc s = Ok (Some i) t" "filealloc t = Ok (Some j) u" "files_ok u" "i \<noteq> j"
      and u: "u = with_file j ((ftable s j)\<lparr>fref := 1\<rparr>) (with_file i ((ftable s i)\<lparr>fref := 1\<rparr>) s)"
      and z: "fref (ftable s i) = 0" "ftype (ftable s i) = FD_NONE" "fref (ftable s j) = 0" "ftype (ftable s j) = FD_NONE" .
    have i: "idle u" "kmem_rep u []" using A(3) s(2) f 3 by (simp_all add: files_ok_def u with_file_idle)
    have "kalloc u = Ok 0 u" by (rule kalloc_empty [OF idle_settled [OF i(1)] i(2)])
    moreover have "fileclose i u = Ok () (with_file i (ftable s i) u)" using A(4) z i by (intro file_undo) (simp_all add: u)
    moreover have "with_file j (ftable s j) (with_file i (ftable s i) u) = s" using A(4) by (simp add: u fun_upd_twist [of i j])
    then have "fileclose j (with_file i (ftable s i) u) = Ok () s" 
      using file_undo [of "with_file i (ftable s i) u" j "ftable s j"] A(4) z i(1) by (simp add: with_file_idle) (simp add: u)
    ultimately show ?thesis using A(1,2) by (simp add: pipealloc_def pipealloc_bad_def kdefs)
  qed
qed


lemma valid_page_pos: "valid_page s p \<Longrightarrow> p \<noteq> 0"
  by (auto simp: valid_page_def v2p_def KERNBASE_def PHYSTOP_def)

lemma pipealloc_succeeds:
  assumes s: "files_ok s" "kmem_rep s (p # qs)" and f: "free_files s = i # j # js"
  obtains t where "pipealloc s = Ok (Some (i, j)) t" "idle t" "kmem_rep t qs" "valid_page t p" "p \<notin> set qs"
    "pipe_file p False (ftable t i)" "pipe_file p True (ftable t j)" "readopen (pipes t p)" "writeopen (pipes t p)" "pipe_rep (pipes t p) []"
    "i \<noteq> j" "\<And>k. k \<noteq> i \<Longrightarrow> k \<noteq> j \<Longrightarrow> ftable t k = ftable s k"
proof -
  from file_alloc2 [OF s(1) f] obtain t u where A: "filealloc s = Ok (Some i) t" "filealloc t = Ok (Some j) u" "files_ok u" "i \<noteq> j"
    and u: "u = with_file j ((ftable s j)\<lparr>fref := 1\<rparr>) (with_file i ((ftable s i)\<lparr>fref := 1\<rparr>) s)" by metis
  have k: "kmem_rep u (p # qs)" "settled u" using A(3) s(2) by (simp_all add: u with_file_idle files_ok_def idle_settled)
  then have p: "valid_page u p" "p \<notin> set qs" "p \<noteq> 0" by (auto simp: kmem_rep_def dest: valid_page_pos)
  from kalloc_take [OF k(2,1)] obtain g where g: "kalloc u = Ok p (u\<lparr>freelist := g\<rparr>)" "kmem_rep (u\<lparr>freelist := g\<rparr>) qs" .
  let ?P = "\<lparr>pdata = bytes_at (mem u) (p + 104) PIPESIZE, nread = 0, nwrite = 0, readopen = True, writeopen = True\<rparr>"
  let ?L = "\<lparr>locked = 0, lname = ''pipe'', lcpu = None\<rparr>"
  obtain v where v: "v = u\<lparr>freelist := g, pipes := (pipes u)(p := ?P), locks := (locks u)(L_pipe p := ?L),
      ftable := (ftable u)(i := (ftable u i)\<lparr>ftype := FD_PIPE, readable := True, writable := False, fpipe := p\<rparr>,
        j := (ftable u j)\<lparr>ftype := FD_PIPE, readable := False, writable := True, fpipe := p\<rparr>)\<rparr>" by blast
  have "pipealloc s = Ok (Some (i, j)) v" using A g(1) p(3) by (simp add: pipealloc_def kdefs initlock_def v)
  moreover have "idle v" "valid_page v p" using A(3) p(1) by (auto simp: files_ok_def idle_def v free_lock_def valid_page_def)
  moreover have "kmem_rep v qs = kmem_rep (u\<lparr>freelist := g\<rparr>) qs" by (rule kmem_rep_cong) (simp_all add: v free_lock_def)
  moreover have "pipe_rep (pipes v p) []" by (simp add: v pipe_rep_def bytes_at_def)
  ultimately show ?thesis using p(2) g(2) A(4) by (intro that [of v]) (simp_all add: pipe_file_def v u)
qed

text \<open>
  \<^bold>\<open>C25\<close>. \<^verbatim>\<open>pipealloc\<close> and \<^verbatim>\<open>fileclose\<close> account for every file slot and page. Without two free slots or
  without a page \<^verbatim>\<open>pipealloc\<close> fails and leaves the machine exactly as it was; otherwise it takes the first two
  free slots and one page for an empty pipe, and closing the two files, in either order, gives the page
  back exactly at the second close, with every reference count as before.
\<close>

theorem pipealloc_fileclose_roundtrip:
  assumes "files_ok s" "kmem_rep s ps"
  shows "(length (free_files s) < 2 \<or> ps = [] \<longrightarrow> pipealloc s = Ok None s)
    \<and> (\<forall>i j is p qs. free_files s = i # j # is \<longrightarrow> ps = p # qs \<longrightarrow>
        (\<exists>t. pipealloc s = Ok (Some (i, j)) t \<and> pipe_rep (pipes t p) [] \<and> kmem_rep t qs \<and> frefs t = (frefs s)(i := 1, j := 1)
          \<and> (\<forall>(a, b) \<in> {(i, j), (j, i)}. \<exists>u v. fileclose a t = Ok () u \<and> kmem_rep u qs
               \<and> fileclose b u = Ok () v \<and> kmem_rep v ps \<and> files_ok v \<and> frefs v = frefs s)))"
proof (intro conjI impI allI)
  show "length (free_files s) < 2 \<or> ps = [] \<Longrightarrow> pipealloc s = Ok None s" by (rule pipealloc_fails [OF assms])
next
  fix i j "is" p qs assume f: "free_files s = i # j # is" and ps: "ps = p # qs"
  have z: "fref (ftable s i) = 0" "fref (ftable s j) = 0" by (rule file_alloc2 [OF assms(1) f], assumption)+
  from pipealloc_succeeds [OF assms(1) assms(2) [unfolded ps] f] obtain t where t: "pipealloc s = Ok (Some (i, j)) t"
    "idle t" "kmem_rep t qs" "valid_page t p" "p \<notin> set qs"
    "pipe_file p False (ftable t i)" "pipe_file p True (ftable t j)" "readopen (pipes t p)" "writeopen (pipes t p)" "pipe_rep (pipes t p) []"
    "i \<noteq> j" "\<And>k. k \<noteq> i \<Longrightarrow> k \<noteq> j \<Longrightarrow> ftable t k = ftable s k" by metis
  have r: "frefs t = (frefs s)(i := 1, j := 1)" using t(6,7,11,12) by (auto simp: pipe_file_def)
  have fin: "files_ok v \<and> frefs v = frefs s" if "idle v" "a \<noteq> b" "{a, b} = {i, j}" and
    v: "ftable v = (ftable t)(a := (ftable t a)\<lparr>fref := 0, ftype := FD_NONE\<rparr>, b := (ftable t b)\<lparr>fref := 0, ftype := FD_NONE\<rparr>)" for v a b
  proof -
    have "(k = a \<or> k = b) = (k = i \<or> k = j)" for k using that(3) by blast
    moreover have "ftable v k = (if k = a \<or> k = b then (ftable t k)\<lparr>fref := 0, ftype := FD_NONE\<rparr> else ftable t k)" for k
      using that(2) by (simp add: v)
    ultimately have "ftable v k = (if k = i \<or> k = j then (ftable t k)\<lparr>fref := 0, ftype := FD_NONE\<rparr> else ftable s k)" for k
      using t(12) by simp
    then show ?thesis using assms(1) that(1) z by (auto simp: files_ok_def)
  qed
  have "\<exists>u v. fileclose i t = Ok () u \<and> kmem_rep u qs \<and> fileclose j u = Ok () v \<and> kmem_rep v ps \<and> files_ok v \<and> frefs v = frefs s"
    using close_both [OF t(2-5) t(6), of j] t(7-9,11) fin [of _ i j] unfolding ps by fastforce
  moreover have "\<exists>u v. fileclose j t = Ok () u \<and> kmem_rep u qs \<and> fileclose i u = Ok () v \<and> kmem_rep v ps \<and> files_ok v \<and> frefs v = frefs s"
    using close_both [OF t(2-5) t(7), of i] t(6,8,9,11) fin [of _ j i] unfolding ps by fastforce
  ultimately show "\<exists>t. pipealloc s = Ok (Some (i, j)) t \<and> pipe_rep (pipes t p) [] \<and> kmem_rep t qs \<and> frefs t = (frefs s)(i := 1, j := 1)
          \<and> (\<forall>(a, b) \<in> {(i, j), (j, i)}. \<exists>u v. fileclose a t = Ok () u \<and> kmem_rep u qs
               \<and> fileclose b u = Ok () v \<and> kmem_rep v ps \<and> files_ok v \<and> frefs v = frefs s)"
    using t(1,3,10) r by (intro exI [of _ t]) simp
qed


definition file0 :: kfile where
  "file0 = \<lparr>ftype = FD_NONE, fref = 0, readable = False, writable = False, fpipe = 0, fip = 0, foff = 0\<rparr>"

definition file_boot :: file_st where
  "file_boot = pipe_st.extend pipe_boot (file_st.fields (\<lambda>_. file0))"

lemmas file_boot_defs = file_boot_def pipe_boot_defs file_st.defs

lemma file_boot_page:
  obtains s :: file_st where "kframe file_boot s" "kmem_rep s [pg 0]" "files_ok s" "free_files s = 0 # 1 # [2..<100]"
proof -
  have "settled file_boot" "kmem_rep file_boot []" "valid_page file_boot (pg 0)"
    by (simp_all add: file_boot_defs settled_def mach_ok_def kmem_rep_def kmem_ready_def free_lock_def
        pg_def valid_page_def pg_aligned_def PGSIZE_def v2p_def KERNBASE_def PHYSTOP_def)
  then have "\<exists>s. kframe file_boot s \<and> kmem_rep s (rev [pg 0] @ [])" by (intro put_pages) auto
  then obtain s where s: "kframe file_boot s" "kmem_rep s [pg 0]" by auto
  then have f: "ftable s = (\<lambda>_. file0)" "idle s" by (auto simp: kframe_def file_boot_defs idle_def free_lock_def)
  then have "files_ok s" by (simp add: files_ok_def file0_def)
  moreover have "free_files s = 0 # 1 # [2..<100]" by (simp add: free_files_def f file0_def NFILE_def upt_conv_Cons [of 0] upt_conv_Cons [of "Suc 0"] numeral_2_eq_2)
  ultimately show ?thesis using s that by blast
qed

theorem pipealloc_fileclose_roundtrip_witness:
  "\<exists>(s :: file_st) t u v. pipealloc s = Ok (Some (0, 1)) t \<and> kmem_rep t [] \<and> fileclose 1 t = Ok () u \<and> fileclose 0 u = Ok () v \<and> kmem_rep v [pg 0]"
proof -
  obtain s :: file_st where s: "kmem_rep s [pg 0]" "files_ok s" "free_files s = 0 # 1 # [2..<100]" by (rule file_boot_page)
  from pipealloc_fileclose_roundtrip [OF s(2,1)] s(3) show ?thesis by fastforce
qed

end
