(* ===== verification/Process.thy ===== *)
theory Process
  imports File
begin

text \<open>
  The life cycle of processes, \<^verbatim>\<open>kernel/proc.c\<close> without what is in \<open>Sched\<close>: \<^verbatim>\<open>allocproc\<close>, \<^verbatim>\<open>userinit\<close>, \<^verbatim>\<open>growproc\<close>,
  \<^verbatim>\<open>fork\<close>, \<^verbatim>\<open>exit\<close>, \<^verbatim>\<open>wait\<close>, \<^verbatim>\<open>scheduler\<close> and \<^verbatim>\<open>forkret\<close>. Trap frames and contexts lie in the kernel stacks, at the
  offsets of \<^verbatim>\<open>struct trapframe\<close> (\<^verbatim>\<open>include/x86.h\<close>) and \<^verbatim>\<open>struct context\<close> (\<^verbatim>\<open>include/proc.h\<close>).
\<close>

section \<open>State\<close>

text \<open>
  The clock, the flag \<^verbatim>\<open>first\<close> of \<^verbatim>\<open>forkret\<close>, the page-fault address register, and the addresses of the
  assembly routine \<^verbatim>\<open>trapret\<close> and of \<^verbatim>\<open>forkret\<close>, which the linker fixes.
\<close>

record sys_st = file_st +
  ticks :: uint
  forkret_first :: bool
  cr2 :: uintp
  trapret_pc :: addr
  forkret_pc :: addr

definition TF_SIZE :: addr where "TF_SIZE = 176"
definition TF_eax :: addr where "TF_eax = 0"
definition TF_rcx :: addr where "TF_rcx = 16"
definition TF_rdx :: addr where "TF_rdx = 24"
definition TF_rsi :: addr where "TF_rsi = 40"
definition TF_rdi :: addr where "TF_rdi = 48"
definition TF_r8 :: addr where "TF_r8 = 56"
definition TF_r9 :: addr where "TF_r9 = 64"
definition TF_trapno :: addr where "TF_trapno = 120"
definition TF_err :: addr where "TF_err = 128"
definition TF_eip :: addr where "TF_eip = 136"
definition TF_cs :: addr where "TF_cs = 144"
definition TF_eflags :: addr where "TF_eflags = 152"
definition TF_esp :: addr where "TF_esp = 160"
definition TF_ds :: addr where "TF_ds = 168"
definition CONTEXT_SIZE :: addr where "CONTEXT_SIZE = 64"
definition CONTEXT_eip :: addr where "CONTEXT_eip = 56"

definition setproc :: "nat \<Rightarrow> (proc \<Rightarrow> proc) \<Rightarrow> (unit, 'z sched_st_scheme) kern" where
  [kdefs]: "setproc i f = modK (upd_proc i f)"

text \<open>\<^verbatim>\<open>safestrcpy(name, src, 16)\<close> on the array \<^verbatim>\<open>name\<close>.\<close>

definition set_name :: "byte list \<Rightarrow> byte list \<Rightarrow> byte list" where
  "set_name src old = (let c = take 15 (cstr src) in c @ [0] @ drop (length c + 1) old)"

section \<open>Creation\<close>

text \<open>The part of \<^verbatim>\<open>allocproc\<close> under the lock: the first unused slot.\<close>

definition alloc_slot :: "(nat option, 'z sched_st_scheme) kern" where
  "alloc_slot =
    seqK (acquire L_ptable)
   (bindK (getK (\<lambda>s. find (\<lambda>i. pstate (ptable s ! i) = UNUSED) [0..<NPROC])) (\<lambda>r.
      case r of
        None \<Rightarrow> seqK (release L_ptable) (ret None)
      | Some i \<Rightarrow>
          seqK (modK (\<lambda>s. (upd_proc i (\<lambda>p. p\<lparr>pstate := EMBRYO, pid := nextpid s, pticks := 0\<rparr>) s)\<lparr>nextpid := nextpid s + 1\<rparr>))
         (seqK (release L_ptable)
               (ret (Some i)))))"

definition allocproc :: "(nat option, 'z sys_st_scheme) kern" where
  "allocproc =
    bindK alloc_slot (\<lambda>r.
      case r of None \<Rightarrow> ret None
      | Some i \<Rightarrow>
          bindK kalloc (\<lambda>k.
          seqK (setproc i (\<lambda>p. p\<lparr>kstack := k\<rparr>))
         (if k = 0 then seqK (setproc i (\<lambda>p. p\<lparr>pstate := UNUSED\<rparr>)) (ret None)
          else
            let sp = k + KSTACKSIZE - TF_SIZE; sp1 = sp - 8; sp2 = sp1 - CONTEXT_SIZE in
            seqK (setproc i (\<lambda>p. p\<lparr>tf := sp\<rparr>))
           (bindK (getK trapret_pc) (\<lambda>tr.
            seqK (st64 sp1 tr)
           (seqK (setproc i (\<lambda>p. p\<lparr>pcontext := sp2\<rparr>))
           (seqK (upd_mem (\<lambda>m. memset m sp2 0 64))
           (bindK (getK forkret_pc) (\<lambda>fr.
            seqK (st64 (sp2 + CONTEXT_eip) fr)
                 (ret (Some i)))))))))))"

definition userinit :: "(unit, 'z sys_st_scheme) kern" where
  "userinit =
    bindK allocproc (\<lambda>r.
    seqK (modK (\<lambda>s. s\<lparr>initproc := r\<rparr>))
   (case r of None \<Rightarrow> panic ''undefined: null pointer''
    | Some i \<Rightarrow>
       bindK setupkvm (\<lambda>pgd.
       seqK (setproc i (\<lambda>p. p\<lparr>pgdir := pgd\<rparr>))
      (if pgd = 0 then panic ''userinit: out of memory?''
       else
         bindK (getK initcode) (\<lambda>code.
         seqK (inituvm pgd code (of_nat (length code)))
        (seqK (setproc i (\<lambda>p. p\<lparr>sz := PGSIZE\<rparr>))
        (bindK (getK (\<lambda>s. tf (ptable s ! i))) (\<lambda>t.
         seqK (upd_mem (\<lambda>m. memset m t 0 176))
        (seqK (st64 (t + TF_cs) (push_bit 3 4 OR 3))
        (seqK (st64 (t + TF_ds) (push_bit 3 5 OR 3))
        (seqK (st64 (t + TF_eflags) 0x200)
        (seqK (st64 (t + TF_esp) PGSIZE)
        (seqK (st64 (t + TF_eip) 0)
        (seqK (setproc i (\<lambda>p. p\<lparr>pname := set_name (ascii ''initcode'') (pname p)\<rparr>))
        (bindK (namei (ascii ''/'')) (\<lambda>c.
         seqK (setproc i (\<lambda>p. p\<lparr>cwd := c\<rparr>))
              (setproc i (\<lambda>p. p\<lparr>pstate := RUNNABLE\<rparr>))))))))))))))))))"

definition growproc :: "uint \<Rightarrow> (uint, 'z sys_st_scheme) kern" where
  "growproc n =
    bindK (getK myproc) (\<lambda>p.
    let old = ucast (sz p) :: uint;
        finish = (\<lambda>new. seqK (upd_myproc (\<lambda>p. p\<lparr>sz := ucast new\<rparr>))
                       (bindK (getK myproc) (\<lambda>p. seqK (switchuvm p) (ret 0)))) in
      if sint n > 0 then
        bindK (allocuvm (pgdir p) old (old + n)) (\<lambda>new. if new = 0 then ret (- 1) else finish new)
      else if sint n < 0 then
        bindK (deallocuvm (pgdir p) (ucast old) (ucast (old + n))) (\<lambda>new. if new = 0 then ret (- 1) else finish new)
      else finish old)"

definition fork_files :: "nat \<Rightarrow> (unit, 'z sys_st_scheme) kern" where
  "fork_files np =
    forK [0..<NOFILE] (\<lambda>fd.
      bindK (getK (\<lambda>s. ofile (myproc s) ! fd)) (\<lambda>f.
        case f of None \<Rightarrow> ret ()
        | Some f \<Rightarrow> bindK (filedup f) (\<lambda>f. setproc np (\<lambda>p. p\<lparr>ofile := (ofile p)[fd := Some f]\<rparr>))))"

definition fork :: "(uint, 'z sys_st_scheme) kern" where
  "fork =
    bindK allocproc (\<lambda>r.
      case r of None \<Rightarrow> ret (- 1)
      | Some np \<Rightarrow>
          bindK (getK myproc) (\<lambda>p.
          bindK (copyuvm (pgdir p) (ucast (sz p))) (\<lambda>pgd.
          seqK (setproc np (\<lambda>q. q\<lparr>pgdir := pgd\<rparr>))
         (if pgd = 0 then
            bindK (getK (\<lambda>s. kstack (ptable s ! np))) (\<lambda>k.
            seqK (kfree k)
           (seqK (setproc np (\<lambda>q. q\<lparr>kstack := 0, pstate := UNUSED\<rparr>))
                 (ret (- 1))))
          else
            bindK (getK curproc) (\<lambda>me.
            seqK (setproc np (\<lambda>q. q\<lparr>sz := sz p, parent := me\<rparr>))
           (bindK (getK (\<lambda>s. tf (ptable s ! np))) (\<lambda>t.
            seqK (upd_mem (\<lambda>m. memmove m t (tf p) 176))
           (seqK (st64 (t + TF_eax) 0)
           (seqK (fork_files np)
           (bindK (case cwd p of None \<Rightarrow> panic ''undefined: null pointer'' | Some i \<Rightarrow> idup i) (\<lambda>c.
            seqK (setproc np (\<lambda>q. q\<lparr>cwd := Some c\<rparr>))
           (bindK (getK (\<lambda>s. pid (ptable s ! np))) (\<lambda>n.
            seqK (setproc np (\<lambda>q. q\<lparr>pstate := RUNNABLE\<rparr>))
           (seqK (setproc np (\<lambda>q. q\<lparr>pname := set_name (pname p) (pname q)\<rparr>))
                 (ret n)))))))))))))))"

section \<open>Exit and wait\<close>

definition exit_files :: "(unit, 'z sys_st_scheme) kern" where
  "exit_files =
    forK [0..<NOFILE] (\<lambda>fd.
      bindK (getK (\<lambda>s. ofile (myproc s) ! fd)) (\<lambda>f.
        case f of None \<Rightarrow> ret ()
        | Some f \<Rightarrow> seqK (fileclose f) (upd_myproc (\<lambda>p. p\<lparr>ofile := (ofile p)[fd := None]\<rparr>))))"

text \<open>The loop that hands the children of process \<open>me\<close> to \<^verbatim>\<open>initproc\<close>.\<close>

definition wakeup1_of :: "nat option \<Rightarrow> (unit, 'z sched_st_scheme) kern" where
  "wakeup1_of p = (case p of None \<Rightarrow> ret () | Some i \<Rightarrow> wakeup1 (ChProc i))"

definition reparent :: "nat \<Rightarrow> (unit, 'z sched_st_scheme) kern" where
  "reparent me =
    forK [0..<NPROC] (\<lambda>i.
      bindK (getK (\<lambda>s. ptable s ! i)) (\<lambda>p.
        whenK (parent p = Some me)
          (bindK (getK initproc) (\<lambda>ini.
           seqK (setproc i (\<lambda>p. p\<lparr>parent := ini\<rparr>))
                (whenK (pstate p = ZOMBIE) (wakeup1_of ini))))))"

text \<open>\<^verbatim>\<open>exit\<close> does not return: it ends in \<^verbatim>\<open>sched\<close>.\<close>

definition exit :: "('a, 'z sys_st_scheme) kern" where
  "exit =
    bindK (getK (\<lambda>s. curproc s = initproc s)) (\<lambda>ini.
      if ini then panic ''init exiting''
      else
        seqK exit_files
       (bindK (getK (\<lambda>s. cwd (myproc s))) (\<lambda>c.
        seqK (case c of None \<Rightarrow> panic ''undefined: null pointer'' | Some i \<Rightarrow> iput i)
       (seqK (upd_myproc (\<lambda>p. p\<lparr>cwd := None, inuse := 0\<rparr>))
       (seqK (acquire L_ptable)
       (bindK (getK (\<lambda>s. parent (myproc s))) (\<lambda>par.
        seqK (wakeup1_of par)
       (bindK (getK curproc) (\<lambda>me.
        seqK (reparent (the me))
       (seqK (upd_myproc (\<lambda>p. p\<lparr>pstate := ZOMBIE\<rparr>))
             sched))))))))))"

text \<open>
  \<^verbatim>\<open>wait\<close> from the head of its loop on, with \<^verbatim>\<open>ptable.lock\<close> held; after a sleep it continues with
  \<open>sleep_resume\<close> and the loop again.
\<close>

definition reap :: "nat \<Rightarrow> (uint, 'z sys_st_scheme) kern" where
  "reap i =
    bindK (getK (\<lambda>s. ptable s ! i)) (\<lambda>p.
    seqK (kfree (kstack p))
   (seqK (setproc i (\<lambda>p. p\<lparr>kstack := 0\<rparr>))
   (seqK (freevm (pgdir p))
   (seqK (setproc i (\<lambda>p. p\<lparr>pstate := UNUSED, pid := 0, parent := None, pname := (pname p)[0 := 0], killed := 0\<rparr>))
   (seqK (release L_ptable)
         (ret (pid p)))))))"

definition wait_loop :: "(uint, 'z sys_st_scheme) kern" where
  "wait_loop =
    bindK (getK curproc) (\<lambda>me.
    bindK (getK (\<lambda>s. find (\<lambda>i. parent (ptable s ! i) = me \<and> pstate (ptable s ! i) = ZOMBIE) [0..<NPROC])) (\<lambda>z.
      case z of Some i \<Rightarrow> reap i
      | None \<Rightarrow>
          bindK (getK (\<lambda>s. (\<exists>i \<in> set [0..<NPROC]. parent (ptable s ! i) = me) \<and> killed (myproc s) = 0)) (\<lambda>go.
            if \<not> go then seqK (release L_ptable) (ret (- 1))
            else sleep (ChProc (the me)) (Some L_ptable))))"

definition wait :: "(uint, 'z sys_st_scheme) kern" where
  "wait = seqK (acquire L_ptable) wait_loop"

section \<open>The scheduler\<close>

text \<open>
  The loop over the table from slot \<open>i\<close> on, \<^verbatim>\<open>ptable.lock\<close> held. Choosing a process ends in \<^verbatim>\<open>swtch\<close>, the
  outcome \<open>Swtch\<close>; when that process gives up the processor the scheduler continues with
  \<open>scheduler_resume\<close> at the slot of the process. A pass that finds nothing more to run releases the
  lock and returns; \<open>scheduler_round\<close> is the next turn of the endless loop.
\<close>

definition scheduler_pass :: "nat \<Rightarrow> (unit, 'z sys_st_scheme) kern" where
  "scheduler_pass i =
    bindK (getK (\<lambda>s. find (\<lambda>j. pstate (ptable s ! j) = RUNNABLE) [i..<NPROC])) (\<lambda>r.
      case r of
        None \<Rightarrow> release L_ptable
      | Some j \<Rightarrow>
          seqK (modK (\<lambda>s. s\<lparr>curproc := Some j\<rparr>))
         (bindK (getK (\<lambda>s. ptable s ! j)) (\<lambda>p.
          seqK (switchuvm p)
         (seqK (setproc j (\<lambda>p. p\<lparr>pstate := RUNNING, inuse := 1\<rparr>))
               (\<lambda>s. Swtch s)))))"

definition scheduler_resume :: "nat \<Rightarrow> (unit, 'z sys_st_scheme) kern" where
  "scheduler_resume j =
    seqK switchkvm
   (seqK (modK (\<lambda>s. s\<lparr>curproc := None\<rparr>))
         (scheduler_pass (j + 1)))"

definition scheduler_round :: "(unit, 'z sys_st_scheme) kern" where
  "scheduler_round =
    seqK (modK (\<lambda>s. s\<lparr>ifl := True\<rparr>))
   (seqK (acquire L_ptable)
         (scheduler_pass 0))"

definition forkret :: "(unit, 'z sys_st_scheme) kern" where
  "forkret =
    seqK (release L_ptable)
   (bindK (getK forkret_first) (\<lambda>f.
      whenK f
        (seqK (modK (\<lambda>s. s\<lparr>forkret_first := False\<rparr>))
              initlog)))"

end
