(* ===== verification/Exec.thy ===== *)
theory Exec
  imports Process
begin

text \<open>
  \<^verbatim>\<open>kernel/exec.c\<close>, with \<^verbatim>\<open>loaduvm\<close> of \<^verbatim>\<open>kernel/vm.c\<close>. The ELF headers are the bytes that \<^verbatim>\<open>readi\<close> delivers, read at the
  offsets of \<^verbatim>\<open>include/elf.h\<close>; \<^verbatim>\<open>argv\<close> is the list of the non-null user pointers before the terminating null.
\<close>

section \<open>Loading a segment\<close>

definition loaduvm :: "addr \<Rightarrow> addr \<Rightarrow> nat \<Rightarrow> uint \<Rightarrow> uint \<Rightarrow> (uint, 'z fs_st_scheme) kern" where
  "loaduvm pgd a ip off n =
    (if a mod PGSIZE \<noteq> 0 then panic ''loaduvm: addr must be page aligned''
     else
       loopK (\<lambda>i.
         if \<not> i < n then ret (Inr 0)
         else
           bindK (walkpgdir pgd (a + ucast i) False) (\<lambda>pte.
             if pte = 0 then panic ''loaduvm: address should exist''
             else
               bindK (ld64 pte) (\<lambda>e.
               let pa = ucast (PTE_ADDR e) :: uint; m = (if n - i < 4096 then n - i else 4096) in
               bindK (readi ip (Some (p2v (ucast pa))) (off + i) m) (\<lambda>(r, _).
                 ret (if r \<noteq> m then Inr (- 1) else Inl (i + 4096)))))) 0)"

section \<open>Headers\<close>

definition get64 :: "nat \<Rightarrow> byte list \<Rightarrow> uintp" where
  "get64 off bs = word_of_bytes (slice off 8 bs)"

definition ELF_MAGIC :: uint where
  "ELF_MAGIC = 0x464C457F"

definition elf_entry :: "byte list \<Rightarrow> uintp" where "elf_entry h = get64 24 h"
definition elf_phoff :: "byte list \<Rightarrow> uintp" where "elf_phoff h = get64 32 h"
definition elf_phnum :: "byte list \<Rightarrow> ushort" where "elf_phnum h = get16 56 h"
definition ph_type :: "byte list \<Rightarrow> uint" where "ph_type h = get32 0 h"
definition ph_off :: "byte list \<Rightarrow> uintp" where "ph_off h = get64 8 h"
definition ph_vaddr :: "byte list \<Rightarrow> uintp" where "ph_vaddr h = get64 16 h"
definition ph_filesz :: "byte list \<Rightarrow> uintp" where "ph_filesz h = get64 32 h"
definition ph_memsz :: "byte list \<Rightarrow> uintp" where "ph_memsz h = get64 40 h"

section \<open>exec\<close>

text \<open>
  One program header: \<open>None\<close> is the jump to \<^verbatim>\<open>bad\<close>, otherwise the new \<^verbatim>\<open>sz\<close>. The result of \<^verbatim>\<open>allocuvm\<close> is an
  \<^verbatim>\<open>int\<close>, sign-extended in the assignment to \<^verbatim>\<open>sz\<close>.
\<close>

definition exec_segment :: "addr \<Rightarrow> nat \<Rightarrow> uint \<Rightarrow> uintp \<Rightarrow> (uintp option, 'z fs_st_scheme) kern" where
  "exec_segment pgd ip off usz =
    bindK (readi ip None off 56) (\<lambda>(r, ph).
      if r \<noteq> 56 then ret None
      else if ph_type ph \<noteq> 1 then ret (Some usz)
      else if ph_memsz ph < ph_filesz ph then ret None
      else
        bindK (allocuvm pgd (ucast usz) (ucast (ph_vaddr ph + ph_memsz ph))) (\<lambda>r.
          if r = 0 then ret None
          else
            bindK (loaduvm pgd (ph_vaddr ph) ip (ucast (ph_off ph)) (ucast (ph_filesz ph))) (\<lambda>l.
              ret (if sint l < 0 then None else Some (scast r)))))"

definition exec_load :: "addr \<Rightarrow> nat \<Rightarrow> byte list \<Rightarrow> (uintp option, 'z fs_st_scheme) kern" where
  "exec_load pgd ip elf =
    loopK (\<lambda>(i, off, usz).
      if \<not> i < unat (elf_phnum elf) then ret (Inr (Some usz))
      else bindK (exec_segment pgd ip off usz) (\<lambda>r.
        ret (case r of None \<Rightarrow> Inr None | Some usz' \<Rightarrow> Inl (i + 1, off + 56, usz'))))
      (0, ucast (elf_phoff elf), 0)"

text \<open>A C string in user memory, with its NUL.\<close>

definition uload_str :: "addr \<Rightarrow> (byte list, 'z vm_st_scheme) kern" where
  "uload_str a =
    loopK (\<lambda>(a, bs). bindK (uload a) (\<lambda>b. ret (if b = 0 then Inr (bs @ [b]) else Inl (a + 1, bs @ [b])))) (a, [])"

definition MAXARG :: nat where
  "MAXARG = 32"

text \<open>The loop over the arguments: \<^verbatim>\<open>sp\<close> and the part of \<^verbatim>\<open>ustack\<close> from index 3 on.\<close>

definition exec_args :: "addr \<Rightarrow> addr list \<Rightarrow> uintp \<Rightarrow> ((uintp \<times> uintp list) option, 'z vm_st_scheme) kern" where
  "exec_args pgd argv sp =
    loopK (\<lambda>(argv, sp, us).
      case argv of
        [] \<Rightarrow> ret (Inr (Some (sp, us)))
      | a # rest \<Rightarrow>
          if length us \<ge> MAXARG then ret (Inr None)
          else
            bindK (uload_str a) (\<lambda>bs.
            let sp = (sp - of_nat (length bs)) AND NOT 7 in
            bindK (copyout pgd (ucast sp) bs) (\<lambda>r.
              ret (if sint r < 0 then Inr None else Inl (rest, sp, us @ [sp])))))
      (argv, sp, [])"

definition exec_bad :: "addr \<Rightarrow> nat option \<Rightarrow> (uint, 'z fs_st_scheme) kern" where
  "exec_bad pgd ip =
    seqK (whenK (pgd \<noteq> 0) (freevm pgd))
   (seqK (case ip of None \<Rightarrow> ret () | Some i \<Rightarrow> iunlockput i)
         (ret (- 1)))"

text \<open>\<^verbatim>\<open>last\<close>: the path after its last slash.\<close>

definition path_last :: "byte list \<Rightarrow> byte list" where
  "path_last path = rev (takeWhile (\<lambda>c. c \<noteq> 47) (rev path))"

text \<open>From the assignment of \<^verbatim>\<open>oldpgdir\<close> on: the new image replaces the old one.\<close>

definition exec_commit :: "byte list \<Rightarrow> byte list \<Rightarrow> addr \<Rightarrow> uintp \<Rightarrow> uintp \<Rightarrow> (uint, 'z fs_st_scheme) kern" where
  "exec_commit path elf pgd usz sp =
    seqK (upd_myproc (\<lambda>p. p\<lparr>pname := set_name (path_last path) (pname p)\<rparr>))
   (bindK (getK myproc) (\<lambda>p.
    seqK (upd_myproc (\<lambda>p. p\<lparr>pgdir := pgd, sz := usz\<rparr>))
   (seqK (st64 (tf p + TF_eip) (elf_entry elf))
   (seqK (st64 (tf p + TF_esp) sp)
   (bindK (getK myproc) (\<lambda>q.
    seqK (switchuvm q)
   (seqK (freevm (pgdir p))
         (ret 0))))))))"

text \<open>From \<^verbatim>\<open>iunlockput\<close> on: the stack, the arguments and the switch to the new image.\<close>

definition exec_stack :: "byte list \<Rightarrow> addr list \<Rightarrow> byte list \<Rightarrow> addr \<Rightarrow> uintp \<Rightarrow> (uint, 'z fs_st_scheme) kern" where
  "exec_stack path argv elf pgd usz =
    (let usz = PGROUNDUP usz in
     bindK (allocuvm pgd (ucast usz) (ucast (usz + 2 * PGSIZE))) (\<lambda>r.
       if r = 0 then exec_bad pgd None
       else
         let usz = scast r in
         seqK (clearpteu pgd (usz - 2 * PGSIZE))
        (bindK (exec_args pgd argv usz) (\<lambda>a.
           case a of None \<Rightarrow> exec_bad pgd None
           | Some (sp, us) \<Rightarrow>
               let argc = of_nat (length us) :: uintp;
                   argvp = sp - (argc + 1) * 8;
                   ustack = [0xffffffff, argc, argvp] @ us @ [0];
                   sp' = sp - (3 + argc + 1) * 8 in
               bindK (getK (\<lambda>s. tf (myproc s))) (\<lambda>t.
               seqK (st64 (t + TF_rdi) argc)
              (seqK (st64 (t + TF_rsi) argvp)
              (bindK (copyout pgd (ucast sp') (concat (map bytes64 ustack))) (\<lambda>r.
                 if sint r < 0 then exec_bad pgd None
                 else exec_commit path elf pgd usz sp'))))))))"

text \<open>
  \<^verbatim>\<open>readi(...) < sizeof(elf)\<close> compares as unsigned numbers, so a result of -1 passes the test and leaves the
  local variable \<^verbatim>\<open>elf\<close> unset, which stops the model.
\<close>

definition exec :: "byte list \<Rightarrow> addr list \<Rightarrow> (uint, 'z fs_st_scheme) kern" where
  "exec path argv =
    bindK (namei path) (\<lambda>r.
      case r of None \<Rightarrow> ret (- 1)
      | Some ip \<Rightarrow>
          seqK (ilock ip)
         (bindK (readi ip None 0 64) (\<lambda>(r, elf).
            if (scast r :: uintp) < 64 then exec_bad 0 (Some ip)
            else if length elf < 64 then panic ''undefined: uninitialised variable''
            else if get32 0 elf \<noteq> ELF_MAGIC then exec_bad 0 (Some ip)
            else
              bindK setupkvm (\<lambda>pgd.
                if pgd = 0 then exec_bad 0 (Some ip)
                else
                  bindK (exec_load pgd ip elf) (\<lambda>r.
                    case r of None \<Rightarrow> exec_bad pgd (Some ip)
                    | Some usz \<Rightarrow>
                        seqK (iunlockput ip)
                             (exec_stack path argv elf pgd usz))))))"

end
