(* ===== verification/Sysfile.thy ===== *)
theory Sysfile
  imports Exec
begin

text \<open>
  The system calls on files, \<^verbatim>\<open>kernel/sysfile.c\<close>, and the argument fetching of \<^verbatim>\<open>kernel/syscall.c\<close> (the 64-bit build,
  where the arguments are in registers of the trap frame). A fetched argument is \<open>None\<close> when the C routine
  returns -1.
\<close>

section \<open>kernel/syscall.c: arguments\<close>

definition fetchint :: "uintp \<Rightarrow> (uint option, 'z vm_st_scheme) kern" where
  "fetchint a =
    bindK (getK (\<lambda>s. sz (myproc s))) (\<lambda>n.
      if a \<ge> n \<or> a + 4 > n then ret None
      else bindK (uload_n a 4) (\<lambda>bs. ret (Some (word_of_bytes bs))))"

definition fetchuintp :: "uintp \<Rightarrow> (uintp option, 'z vm_st_scheme) kern" where
  "fetchuintp a =
    bindK (getK (\<lambda>s. sz (myproc s))) (\<lambda>n.
      if a \<ge> n \<or> a + 8 > n then ret None
      else bindK (uload_n a 8) (\<lambda>bs. ret (Some (word_of_bytes bs))))"

text \<open>The string that \<^verbatim>\<open>*pp\<close> points to, without its NUL; its length is what \<^verbatim>\<open>fetchstr\<close> returns.\<close>

definition fetchstr :: "uintp \<Rightarrow> (byte list option, 'z vm_st_scheme) kern" where
  "fetchstr a =
    bindK (getK (\<lambda>s. sz (myproc s))) (\<lambda>ep.
      if a \<ge> ep then ret None
      else
        loopK (\<lambda>(p, bs).
          if \<not> p < ep then ret (Inr None)
          else bindK (uload p) (\<lambda>b. ret (if b = 0 then Inr (Some bs) else Inl (p + 1, bs @ [b])))) (a, []))"

text \<open>Argument \<open>n\<close> is a register of the trap frame; there are six.\<close>

definition TF_arg :: "nat \<Rightarrow> addr" where
  "TF_arg n = [TF_rdi, TF_rsi, TF_rdx, TF_rcx, TF_r8, TF_r9] ! n"

definition fetcharg :: "nat \<Rightarrow> (uintp, 'z sched_st_scheme) kern" where
  "fetcharg n =
    (if n < 6 then bindK (getK (\<lambda>s. tf (myproc s))) (\<lambda>t. ld64 (t + TF_arg n))
     else panic ''undefined: fetcharg'')"

definition argint :: "nat \<Rightarrow> (uint, 'z sched_st_scheme) kern" where
  "argint n = bindK (fetcharg n) (\<lambda>w. ret (ucast w))"

definition arguintp :: "nat \<Rightarrow> (uintp, 'z sched_st_scheme) kern" where
  "arguintp n = fetcharg n"

text \<open>\<^verbatim>\<open>i+size\<close> adds the sign-extended \<^verbatim>\<open>int\<close>.\<close>

definition argptr :: "nat \<Rightarrow> uint \<Rightarrow> (addr option, 'z sched_st_scheme) kern" where
  "argptr n len =
    bindK (arguintp n) (\<lambda>i.
    bindK (getK (\<lambda>s. sz (myproc s))) (\<lambda>m.
      ret (if i \<ge> m \<or> i + scast len > m then None else Some i)))"

definition argstr :: "nat \<Rightarrow> (byte list option, 'z vm_st_scheme) kern" where
  "argstr n = bindK (arguintp n) fetchstr"

section \<open>Descriptors\<close>

definition argfd :: "nat \<Rightarrow> ((nat \<times> nat) option, 'z sched_st_scheme) kern" where
  "argfd n =
    bindK (argint n) (\<lambda>fd.
      if sint fd < 0 \<or> sint fd \<ge> int NOFILE then ret None
      else getK (\<lambda>s. map_option (\<lambda>f. (unat fd, f)) (ofile (myproc s) ! unat fd)))"

definition fdalloc :: "nat \<Rightarrow> (nat option, 'z sched_st_scheme) kern" where
  "fdalloc f =
    bindK (getK (\<lambda>s. find (\<lambda>fd. ofile (myproc s) ! fd = None) [0..<NOFILE])) (\<lambda>r.
      case r of None \<Rightarrow> ret None
      | Some fd \<Rightarrow> seqK (upd_myproc (\<lambda>p. p\<lparr>ofile := (ofile p)[fd := Some f]\<rparr>)) (ret (Some fd)))"

definition sys_dup :: "(uint, 'z sys_st_scheme) kern" where
  "sys_dup =
    bindK (argfd 0) (\<lambda>a.
      case a of None \<Rightarrow> ret (- 1)
      | Some (_, f) \<Rightarrow>
          bindK (fdalloc f) (\<lambda>r.
            case r of None \<Rightarrow> ret (- 1)
            | Some fd \<Rightarrow> seqK (filedup f) (ret (of_nat fd))))"

definition sys_read :: "(uint, 'z sys_st_scheme) kern" where
  "sys_read =
    bindK (argfd 0) (\<lambda>a.
      case a of None \<Rightarrow> ret (- 1)
      | Some (_, f) \<Rightarrow>
          bindK (argint 2) (\<lambda>n.
          bindK (argptr 1 n) (\<lambda>p.
            case p of None \<Rightarrow> ret (- 1) | Some p \<Rightarrow> fileread f p n)))"

definition sys_write :: "(uint, 'z sys_st_scheme) kern" where
  "sys_write =
    bindK (argfd 0) (\<lambda>a.
      case a of None \<Rightarrow> ret (- 1)
      | Some (_, f) \<Rightarrow>
          bindK (argint 2) (\<lambda>n.
          bindK (argptr 1 n) (\<lambda>p.
            case p of None \<Rightarrow> ret (- 1) | Some p \<Rightarrow> filewrite f p n)))"

definition sys_close :: "(uint, 'z sys_st_scheme) kern" where
  "sys_close =
    bindK (argfd 0) (\<lambda>a.
      case a of None \<Rightarrow> ret (- 1)
      | Some (fd, f) \<Rightarrow>
          seqK (upd_myproc (\<lambda>p. p\<lparr>ofile := (ofile p)[fd := None]\<rparr>))
         (seqK (fileclose f)
               (ret 0)))"

definition sys_fstat :: "(uint, 'z sys_st_scheme) kern" where
  "sys_fstat =
    bindK (argfd 0) (\<lambda>a.
      case a of None \<Rightarrow> ret (- 1)
      | Some (_, f) \<Rightarrow>
          bindK (argptr 1 20) (\<lambda>p.
            case p of None \<Rightarrow> ret (- 1) | Some p \<Rightarrow> filestat f p))"

section \<open>Links and directories\<close>

text \<open>The label \<^verbatim>\<open>bad\<close> of \<^verbatim>\<open>sys_link\<close>: take the link back.\<close>

definition link_bad :: "nat \<Rightarrow> (uint, 'z sys_st_scheme) kern" where
  "link_bad ip =
    seqK (ilock ip)
   (seqK (upd_inode ip (\<lambda>p. p\<lparr>inlink := inlink p - 1\<rparr>))
   (seqK (iupdate ip)
   (seqK (iunlockput ip)
   (seqK commit_trans
         (ret (- 1))))))"

definition sys_link_body :: "nat \<Rightarrow> byte list \<Rightarrow> (uint, 'z sys_st_scheme) kern" where
  "sys_link_body ip new =
    seqK begin_trans
   (seqK (ilock ip)
   (bindK (getK (\<lambda>s. itype (icache s ip))) (\<lambda>ty.
      if ty = T_DIR then seqK (iunlockput ip) (seqK commit_trans (ret (- 1)))
      else
        seqK (upd_inode ip (\<lambda>p. p\<lparr>inlink := inlink p + 1\<rparr>))
       (seqK (iupdate ip)
       (seqK (iunlock ip)
       (bindK (nameiparent new) (\<lambda>r.
          case r of None \<Rightarrow> link_bad ip
          | Some (dp, name) \<Rightarrow>
              seqK (ilock dp)
             (bindK (getK (\<lambda>s. idev (icache s dp) \<noteq> idev (icache s ip))) (\<lambda>xdev.
              bindK (if xdev then ret (- 1)
                     else bindK (getK (\<lambda>s. inum (icache s ip))) (dirlink dp name)) (\<lambda>l.
              seqK (iunlockput dp)
             (if sint l < 0 then link_bad ip
              else
                seqK (iput ip)
               (seqK commit_trans
                     (ret 0)))))))))))))"

definition sys_link :: "(uint, 'z sys_st_scheme) kern" where
  "sys_link =
    bindK (argstr 0) (\<lambda>old.
      case old of None \<Rightarrow> ret (- 1)
      | Some old \<Rightarrow>
    bindK (argstr 1) (\<lambda>new.
      case new of None \<Rightarrow> ret (- 1)
      | Some new \<Rightarrow>
    bindK (namei old) (\<lambda>r.
      case r of None \<Rightarrow> ret (- 1) | Some ip \<Rightarrow> sys_link_body ip new)))"

definition isdirempty :: "nat \<Rightarrow> (bool, 'z fs_st_scheme) kern" where
  "isdirempty dp =
    loopK (\<lambda>off.
      bindK (getK (\<lambda>s. isize (icache s dp))) (\<lambda>n.
        if \<not> off < n then ret (Inr True)
        else
          bindK (readi dp None off DIRENT) (\<lambda>(r, de).
            if r \<noteq> DIRENT then panic ''isdirempty: readi''
            else ret (if de_inum de \<noteq> 0 then Inr False else Inl (off + DIRENT))))) (2 * DIRENT)"

definition unlink_bad :: "nat \<Rightarrow> (uint, 'z sys_st_scheme) kern" where
  "unlink_bad dp = seqK (iunlockput dp) (seqK commit_trans (ret (- 1)))"

text \<open>\<^verbatim>\<open>sys_unlink\<close> from the removal of the entry at \<open>off\<close> on, both inodes locked.\<close>

definition unlink_entry :: "nat \<Rightarrow> nat \<Rightarrow> uint \<Rightarrow> (uint, 'z sys_st_scheme) kern" where
  "unlink_entry dp ip off =
    bindK (writei dp (KBytes (replicate 16 0)) off DIRENT) (\<lambda>r.
      if r \<noteq> DIRENT then panic ''unlink: writei''
      else
        bindK (getK (\<lambda>s. itype (icache s ip))) (\<lambda>ty.
        seqK (whenK (ty = T_DIR)
               (seqK (upd_inode dp (\<lambda>p. p\<lparr>inlink := inlink p - 1\<rparr>)) (iupdate dp)))
       (seqK (iunlockput dp)
       (seqK (upd_inode ip (\<lambda>p. p\<lparr>inlink := inlink p - 1\<rparr>))
       (seqK (iupdate ip)
       (seqK (iunlockput ip)
       (seqK commit_trans
             (ret 0))))))))"

definition sys_unlink :: "(uint, 'z sys_st_scheme) kern" where
  "sys_unlink =
    bindK (argstr 0) (\<lambda>path.
      case path of None \<Rightarrow> ret (- 1)
      | Some path \<Rightarrow>
    bindK (nameiparent path) (\<lambda>r.
      case r of None \<Rightarrow> ret (- 1)
      | Some (dp, name) \<Rightarrow>
          seqK begin_trans
         (seqK (ilock dp)
         (if namecmp name (ascii ''.'') = 0 \<or> namecmp name (ascii ''..'') = 0 then unlink_bad dp
          else
            bindK (dirlookup dp name) (\<lambda>l.
              case l of None \<Rightarrow> unlink_bad dp
              | Some (ip, off) \<Rightarrow>
                  seqK (ilock ip)
                 (bindK (getK (\<lambda>s. icache s ip)) (\<lambda>p.
                    if sint (inlink p) < 1 then panic ''unlink: nlink < 1''
                    else
                      bindK (if itype p = T_DIR then isdirempty ip else ret True) (\<lambda>ok.
                        if \<not> ok then seqK (iunlockput ip) (unlink_bad dp)
                        else unlink_entry dp ip off))))))))"

text \<open>\<^verbatim>\<open>create\<close> from \<^verbatim>\<open>ialloc\<close> on.\<close>

definition create_new :: "nat \<Rightarrow> byte list \<Rightarrow> ushort \<Rightarrow> ushort \<Rightarrow> ushort \<Rightarrow> (nat option, 'z sys_st_scheme) kern" where
  "create_new dp name ty major minor =
    bindK (getK (\<lambda>s. idev (icache s dp))) (\<lambda>dv.
    bindK (ialloc dv ty) (\<lambda>ip.
    seqK (ilock ip)
   (seqK (upd_inode ip (\<lambda>p. p\<lparr>imajor := major, iminor := minor, inlink := 1\<rparr>))
   (seqK (iupdate ip)
   (seqK (whenK (ty = T_DIR)
           (seqK (upd_inode dp (\<lambda>p. p\<lparr>inlink := inlink p + 1\<rparr>))
           (seqK (iupdate dp)
           (bindK (getK (\<lambda>s. inum (icache s ip))) (\<lambda>n.
            bindK (dirlink ip (ascii ''.'') n) (\<lambda>r.
              if sint r < 0 then panic ''create dots''
              else
                bindK (getK (\<lambda>s. inum (icache s dp))) (\<lambda>m.
                bindK (dirlink ip (ascii ''..'') m) (\<lambda>r.
                  if sint r < 0 then panic ''create dots'' else ret ()))))))))
   (bindK (getK (\<lambda>s. inum (icache s ip))) (\<lambda>n.
    bindK (dirlink dp name n) (\<lambda>r.
      if sint r < 0 then panic ''create: dirlink''
      else seqK (iunlockput dp) (ret (Some ip))))))))))"

definition create :: "byte list \<Rightarrow> ushort \<Rightarrow> ushort \<Rightarrow> ushort \<Rightarrow> (nat option, 'z sys_st_scheme) kern" where
  "create path ty major minor =
    bindK (nameiparent path) (\<lambda>r.
      case r of None \<Rightarrow> ret None
      | Some (dp, name) \<Rightarrow>
          seqK (ilock dp)
         (bindK (dirlookup dp name) (\<lambda>l.
            case l of
              Some (ip, _) \<Rightarrow>
                seqK (iunlockput dp)
               (seqK (ilock ip)
               (bindK (getK (\<lambda>s. itype (icache s ip))) (\<lambda>t.
                  if ty = T_FILE \<and> t = T_FILE then ret (Some ip)
                  else seqK (iunlockput ip) (ret None))))
            | None \<Rightarrow> create_new dp name ty major minor)))"

section \<open>Opening files\<close>

definition O_WRONLY :: uint where "O_WRONLY = 0x001"
definition O_RDWR :: uint where "O_RDWR = 0x002"
definition O_CREATE :: uint where "O_CREATE = 0x200"

text \<open>\<^verbatim>\<open>sys_open\<close> with the inode found and locked.\<close>

definition open_file :: "nat \<Rightarrow> uint \<Rightarrow> (uint, 'z sys_st_scheme) kern" where
  "open_file ip omode =
    bindK filealloc (\<lambda>r.
      case r of None \<Rightarrow> seqK (iunlockput ip) (ret (- 1))
      | Some f \<Rightarrow>
          bindK (fdalloc f) (\<lambda>d.
            case d of None \<Rightarrow> seqK (fileclose f) (seqK (iunlockput ip) (ret (- 1)))
            | Some fd \<Rightarrow>
                seqK (iunlock ip)
               (seqK (upd_file f (\<lambda>f. f\<lparr>ftype := FD_INODE, fip := ip, foff := 0, readable := (omode AND O_WRONLY = 0),
                        writable := (omode AND O_WRONLY \<noteq> 0 \<or> omode AND O_RDWR \<noteq> 0)\<rparr>))
                     (ret (of_nat fd)))))"

definition sys_open :: "(uint, 'z sys_st_scheme) kern" where
  "sys_open =
    bindK (argstr 0) (\<lambda>path.
      case path of None \<Rightarrow> ret (- 1)
      | Some path \<Rightarrow>
          bindK (argint 1) (\<lambda>omode.
            if omode AND O_CREATE \<noteq> 0 then
              seqK begin_trans
             (bindK (create path T_FILE 0 0) (\<lambda>r.
              seqK commit_trans
             (case r of None \<Rightarrow> ret (- 1) | Some ip \<Rightarrow> open_file ip omode)))
            else
              bindK (namei path) (\<lambda>r.
                case r of None \<Rightarrow> ret (- 1)
                | Some ip \<Rightarrow>
                    seqK (ilock ip)
                   (bindK (getK (\<lambda>s. itype (icache s ip))) (\<lambda>ty.
                      if ty = T_DIR \<and> omode \<noteq> 0 then seqK (iunlockput ip) (ret (- 1))
                      else open_file ip omode)))))"

text \<open>\<^verbatim>\<open>sys_mkdir\<close> and \<^verbatim>\<open>sys_mknod\<close> start the transaction before they look at their arguments.\<close>

definition mk_finish :: "nat option \<Rightarrow> (uint, 'z sys_st_scheme) kern" where
  "mk_finish r =
    (case r of None \<Rightarrow> seqK commit_trans (ret (- 1))
     | Some ip \<Rightarrow> seqK (iunlockput ip) (seqK commit_trans (ret 0)))"

definition sys_mkdir :: "(uint, 'z sys_st_scheme) kern" where
  "sys_mkdir =
    seqK begin_trans
   (bindK (argstr 0) (\<lambda>path.
    bindK (case path of None \<Rightarrow> ret None | Some path \<Rightarrow> create path T_DIR 0 0) mk_finish))"

definition sys_mknod :: "(uint, 'z sys_st_scheme) kern" where
  "sys_mknod =
    seqK begin_trans
   (bindK (argstr 0) (\<lambda>path.
    bindK (case path of None \<Rightarrow> ret None
           | Some path \<Rightarrow>
               bindK (argint 1) (\<lambda>major.
               bindK (argint 2) (\<lambda>minor.
               create path T_DEV (ucast major) (ucast minor)))) mk_finish))"

definition sys_chdir :: "(uint, 'z sys_st_scheme) kern" where
  "sys_chdir =
    bindK (argstr 0) (\<lambda>path.
      case path of None \<Rightarrow> ret (- 1)
      | Some path \<Rightarrow>
    bindK (namei path) (\<lambda>r.
      case r of None \<Rightarrow> ret (- 1)
      | Some ip \<Rightarrow>
          seqK (ilock ip)
         (bindK (getK (\<lambda>s. itype (icache s ip))) (\<lambda>ty.
            if ty \<noteq> T_DIR then seqK (iunlockput ip) (ret (- 1))
            else
              seqK (iunlock ip)
             (bindK (getK (\<lambda>s. cwd (myproc s))) (\<lambda>c.
              seqK (case c of None \<Rightarrow> panic ''undefined: null pointer'' | Some i \<Rightarrow> iput i)
             (seqK (upd_myproc (\<lambda>p. p\<lparr>cwd := Some ip\<rparr>))
                   (ret 0))))))))"

text \<open>The loop of \<^verbatim>\<open>sys_exec\<close>: the argument pointers, each checked to be a string.\<close>

definition sys_exec_args :: "uintp \<Rightarrow> (addr list option, 'z vm_st_scheme) kern" where
  "sys_exec_args uargv =
    loopK (\<lambda>argv.
      if length argv \<ge> MAXARG then ret (Inr None)
      else
        bindK (fetchuintp (uargv + 8 * of_nat (length argv))) (\<lambda>u.
          case u of None \<Rightarrow> ret (Inr None)
          | Some uarg \<Rightarrow>
              if uarg = 0 then ret (Inr (Some argv))
              else bindK (fetchstr uarg) (\<lambda>r.
                ret (case r of None \<Rightarrow> Inr None | Some _ \<Rightarrow> Inl (argv @ [uarg]))))) []"

definition sys_exec :: "(uint, 'z sys_st_scheme) kern" where
  "sys_exec =
    bindK (argstr 0) (\<lambda>path.
      case path of None \<Rightarrow> ret (- 1)
      | Some path \<Rightarrow>
          bindK (arguintp 1) (\<lambda>uargv.
          bindK (sys_exec_args uargv) (\<lambda>r.
            case r of None \<Rightarrow> ret (- 1) | Some argv \<Rightarrow> exec path argv)))"

definition sys_pipe :: "(uint, 'z sys_st_scheme) kern" where
  "sys_pipe =
    bindK (argptr 0 8) (\<lambda>a.
      case a of None \<Rightarrow> ret (- 1)
      | Some a \<Rightarrow>
    bindK pipealloc (\<lambda>r.
      case r of None \<Rightarrow> ret (- 1)
      | Some (rfile, wfile) \<Rightarrow>
    bindK (fdalloc rfile) (\<lambda>d0.
      case d0 of None \<Rightarrow> seqK (fileclose rfile) (seqK (fileclose wfile) (ret (- 1)))
      | Some fd0 \<Rightarrow>
    bindK (fdalloc wfile) (\<lambda>d1.
      case d1 of
        None \<Rightarrow>
          seqK (upd_myproc (\<lambda>p. p\<lparr>ofile := (ofile p)[fd0 := None]\<rparr>))
         (seqK (fileclose rfile) (seqK (fileclose wfile) (ret (- 1))))
      | Some fd1 \<Rightarrow>
          seqK (ustore_n a (bytes32 (of_nat fd0)))
         (seqK (ustore_n (a + 4) (bytes32 (of_nat fd1)))
               (ret 0))))))"

end
