(* ===== verification/Trap.thy ===== *)
theory Trap
  imports Sysfile
begin

text \<open>
  \<^verbatim>\<open>kernel/sysproc.c\<close>, the dispatcher of \<^verbatim>\<open>kernel/syscall.c\<close> and the trap handler of \<^verbatim>\<open>kernel/trap.c\<close>.
\<close>

section \<open>kernel/sysproc.c\<close>

definition sys_fork :: "(uint, 'z sys_st_scheme) kern" where
  "sys_fork = fork"

definition sys_exit :: "(uint, 'z sys_st_scheme) kern" where
  "sys_exit = exit"

definition sys_wait :: "(uint, 'z sys_st_scheme) kern" where
  "sys_wait = wait"

definition sys_kill :: "(uint, 'z sys_st_scheme) kern" where
  "sys_kill = bindK (argint 0) kill"

text \<open>
  \<^verbatim>\<open>struct pstat\<close>: four arrays of \<^verbatim>\<open>NPROC\<close> ints. The result of \<^verbatim>\<open>argptr\<close> is not looked at: when it fails, the
  local pointer is not initialised, which stops the model.
\<close>

definition pstat_put :: "addr \<Rightarrow> nat \<Rightarrow> proc \<Rightarrow> (unit, 'z vm_st_scheme) kern" where
  "pstat_put a i p =
    seqK (ustore_n (a + of_nat (4 * i)) (bytes32 (inuse p)))
   (seqK (ustore_n (a + 512 + of_nat (4 * i)) (bytes32 (pid p)))
   (seqK (ustore_n (a + 768 + of_nat (4 * i)) (bytes32 (pticks p)))
         (ustore_n (a + 256 + of_nat (4 * i)) (bytes32 (tickets p)))))"

definition sys_getpinfo :: "(uint, 'z sys_st_scheme) kern" where
  "sys_getpinfo =
    bindK (argptr 0 1024) (\<lambda>r.
      case r of None \<Rightarrow> panic ''undefined: uninitialised variable''
      | Some a \<Rightarrow>
          if a = 0 then ret (- 1)
          else
            seqK (acquire L_ptable)
           (seqK (forK [0..<NPROC] (\<lambda>i. bindK (getK (\<lambda>s. ptable s ! i)) (pstat_put a i)))
           (seqK (release L_ptable)
                 (ret 0))))"

definition sys_getpid :: "(uint, 'z sys_st_scheme) kern" where
  "sys_getpid = getK (\<lambda>s. pid (myproc s))"

text \<open>The dispatcher calls \<^verbatim>\<open>sys_sbrk\<close> through a pointer to a function that returns \<^verbatim>\<open>int\<close>.\<close>

definition sys_sbrk :: "(uint, 'z sys_st_scheme) kern" where
  "sys_sbrk =
    bindK (arguintp 0) (\<lambda>n.
    bindK (getK (\<lambda>s. sz (myproc s))) (\<lambda>a.
    bindK (growproc (ucast n)) (\<lambda>r.
      ret (if sint r < 0 then - 1 else ucast a))))"

text \<open>
  \<^verbatim>\<open>sys_sleep\<close> from the test of its loop on, \<^verbatim>\<open>tickslock\<close> held; the comparison is one of unsigned numbers.
\<close>

definition sys_sleep_loop :: "uint \<Rightarrow> uint \<Rightarrow> (uint, 'z sys_st_scheme) kern" where
  "sys_sleep_loop ticks0 n =
    bindK (getK (\<lambda>s. ticks s - ticks0 < n)) (\<lambda>more.
      if more then
        bindK (getK (\<lambda>s. killed (myproc s) \<noteq> 0)) (\<lambda>k.
          if k then seqK (release L_tickslock) (ret (- 1))
          else sleep ChTicks (Some L_tickslock))
      else seqK (release L_tickslock) (ret 0))"

definition sys_sleep :: "(uint, 'z sys_st_scheme) kern" where
  "sys_sleep =
    bindK (argint 0) (\<lambda>n.
    seqK (acquire L_tickslock)
   (bindK (getK ticks) (\<lambda>t0. sys_sleep_loop t0 n)))"

definition sys_uptime :: "(uint, 'z sys_st_scheme) kern" where
  "sys_uptime =
    seqK (acquire L_tickslock)
   (bindK (getK ticks) (\<lambda>t.
    seqK (release L_tickslock)
         (ret t)))"

section \<open>kernel/syscall.c: the dispatcher\<close>

text \<open>The table \<^verbatim>\<open>syscalls\<close>; the numbers 22 and 23 have no entry.\<close>

definition syscalls :: "nat \<Rightarrow> (uint, 'z sys_st_scheme) kern option" where
  "syscalls num =
    map_of [(1, sys_fork), (2, sys_exit), (3, sys_wait), (4, sys_pipe), (5, sys_read), (6, sys_kill), (7, sys_exec),
      (8, sys_fstat), (9, sys_chdir), (10, sys_dup), (11, sys_getpid), (12, sys_sbrk), (13, sys_sleep),
      (14, sys_uptime), (15, sys_open), (16, sys_write), (17, sys_mknod), (18, sys_unlink), (19, sys_link),
      (20, sys_mkdir), (21, sys_close), (24, sys_getpinfo)] num"

definition set_eax :: "uint \<Rightarrow> (unit, 'z sched_st_scheme) kern" where
  "set_eax r = bindK (getK (\<lambda>s. tf (myproc s))) (\<lambda>t. st64 (t + TF_eax) (scast r))"

definition syscall :: "(unit, 'z sys_st_scheme) kern" where
  "syscall =
    bindK (getK (\<lambda>s. tf (myproc s))) (\<lambda>t.
    bindK (ld64 (t + TF_eax)) (\<lambda>w.
    let num = ucast w :: uint in
      case (if sint num > 0 then syscalls (unat num) else None) of
        Some f \<Rightarrow> bindK f set_eax
      | None \<Rightarrow>
          bindK (getK myproc) (\<lambda>p.
          seqK (cprintf (''%d %s: unknown sys call %d'' @ [CHR 0x0A]) [CInt (pid p), CStr (Some (pname p)), CInt num])
               (set_eax (- 1)))))"

section \<open>kernel/trap.c\<close>

text \<open>\<^verbatim>\<open>ideintr\<close> of \<^verbatim>\<open>kernel/memide.c\<close>, the disk of this model.\<close>

definition ideintr :: "(unit, 'z sys_st_scheme) kern" where
  "ideintr = ret ()"

definition killed_now :: "'z sched_st_scheme \<Rightarrow> bool" where
  "killed_now s \<longleftrightarrow> killed (myproc s) \<noteq> 0"

definition trap_syscall :: "addr \<Rightarrow> (unit, 'z sys_st_scheme) kern" where
  "trap_syscall f =
    bindK (getK killed_now) (\<lambda>k.
      if k then exit
      else
        seqK (upd_myproc (\<lambda>p. p\<lparr>tf := f\<rparr>))
       (seqK syscall
       (bindK (getK killed_now) (\<lambda>k.
          if k then exit else ret ()))))"

definition trap_timer :: "uintp \<Rightarrow> (unit, 'z sys_st_scheme) kern" where
  "trap_timer cs =
    bindK (getK (\<lambda>s. cpu_id (cpus s ! cpu s))) (\<lambda>id.
      whenK (id = 0)
        (seqK (acquire L_tickslock)
        (seqK (modK (\<lambda>s. s\<lparr>ticks := ticks s + 1\<rparr>))
        (bindK (getK curproc) (\<lambda>c.
         seqK (whenK (c \<noteq> None \<and> cs AND 3 = 3) (upd_myproc (\<lambda>p. p\<lparr>pticks := pticks p + 1\<rparr>)))
        (seqK (wakeup ChTicks)
              (release L_tickslock)))))))"

definition trap_default :: "addr \<Rightarrow> uintp \<Rightarrow> uintp \<Rightarrow> (unit, 'z sys_st_scheme) kern" where
  "trap_default f trapno cs =
    bindK (getK (\<lambda>s. cpu_id (cpus s ! cpu s))) (\<lambda>id.
    bindK (ld64 (f + TF_eip)) (\<lambda>eip.
    bindK (ld64 (f + TF_err)) (\<lambda>err.
    bindK (getK cr2) (\<lambda>fault.
    bindK (getK curproc) (\<lambda>c.
      if c = None \<or> cs AND 3 = 0 then
        seqK (cprintf (''unexpected trap %d from cpu %d eip %x (cr2=0x%x)'' @ [CHR 0x0A])
               [CInt (ucast trapno), CInt (ucast id), CInt (ucast eip), CInt (ucast fault)])
             (panic ''trap'')
      else
        bindK (getK myproc) (\<lambda>p.
        seqK (cprintf (''pid %d %s: trap %d err %d on cpu %d '' @ ''eip 0x%x addr 0x%x--kill proc'' @ [CHR 0x0A])
               [CInt (pid p), CStr (Some (pname p)), CInt (ucast trapno), CInt (ucast err), CInt (ucast id),
                CInt (ucast eip), CInt (ucast fault)])
             (upd_myproc (\<lambda>p. p\<lparr>killed := 1\<rparr>))))))))"

text \<open>The last check of \<^verbatim>\<open>trap\<close>, which a process that was made to yield runs when it has the processor again.\<close>

definition trap_resume :: "uintp \<Rightarrow> (unit, 'z sys_st_scheme) kern" where
  "trap_resume cs =
    bindK (getK (\<lambda>s. curproc s \<noteq> None \<and> killed_now s \<and> cs AND 3 = 3)) (\<lambda>k. if k then exit else ret ())"

definition trap_dispatch :: "addr \<Rightarrow> uintp \<Rightarrow> uintp \<Rightarrow> (unit, 'z sys_st_scheme) kern" where
  "trap_dispatch f trapno cs =
    (if trapno = of_nat (T_IRQ0 + IRQ_TIMER) then seqK (trap_timer cs) lapiceoi
     else if trapno = of_nat (T_IRQ0 + 14) then seqK ideintr lapiceoi
     else if trapno = of_nat (T_IRQ0 + 15) then ret ()
     else if trapno = of_nat (T_IRQ0 + 1) then seqK kbdintr lapiceoi
     else if trapno = of_nat (T_IRQ0 + 4) then seqK uartintr lapiceoi
     else if trapno = of_nat (T_IRQ0 + 7) \<or> trapno = of_nat (T_IRQ0 + 31) then
       bindK (getK (\<lambda>s. cpu_id (cpus s ! cpu s))) (\<lambda>id.
       bindK (ld64 (f + TF_eip)) (\<lambda>eip.
       seqK (cprintf (''cpu%d: spurious interrupt at %x:%x'' @ [CHR 0x0A]) [CInt (ucast id), CInt (ucast cs), CInt (ucast eip)])
            lapiceoi))
     else trap_default f trapno cs)"

definition T_SYSCALL :: uintp where
  "T_SYSCALL = 64"

definition trap :: "addr \<Rightarrow> (unit, 'z sys_st_scheme) kern" where
  "trap f =
    bindK (ld64 (f + TF_trapno)) (\<lambda>trapno.
      if trapno = T_SYSCALL then trap_syscall f
      else
        bindK (ld64 (f + TF_cs)) (\<lambda>cs.
        seqK (trap_dispatch f trapno cs)
       (seqK (trap_resume cs)
       (bindK (getK (\<lambda>s. curproc s \<noteq> None \<and> pstate (myproc s) = RUNNING \<and> trapno = of_nat (T_IRQ0 + IRQ_TIMER))) (\<lambda>y.
        seqK (if y then yield else ret ())
             (trap_resume cs))))))"

end
