(* ===== verification/Boot.thy ===== *)
theory Boot
  imports Trap
begin

text \<open>
  \<^verbatim>\<open>kernel/main.c\<close>: the start of the boot processor and of the others, composed of the initialisation routines
  of the components. \<open>ra\<close> stands for the return addresses that \<^verbatim>\<open>cpunum\<close> may print.
\<close>

text \<open>\<^verbatim>\<open>ideinit\<close> of \<^verbatim>\<open>kernel/memide.c\<close> for a file system image of \<open>n\<close> bytes.\<close>

definition ideinit :: "uint \<Rightarrow> (unit, 'z sys_st_scheme) kern" where
  "ideinit n = modK (\<lambda>s. s\<lparr>disksize := n div 512\<rparr>)"

definition mpmain :: "(unit, 'z sys_st_scheme) kern" where
  "mpmain =
    bindK (getK (\<lambda>s. cpu_id (cpus s ! cpu s))) (\<lambda>id.
    seqK (cprintf (''cpu%d: starting'' @ [CHR 0x0A]) [CInt (ucast id)])
   (seqK idtinit
   (seqK (modK (\<lambda>s. s\<lparr>cpus := (cpus s)[cpu s := (cpus s ! cpu s)\<lparr>started := 1\<rparr>]\<rparr>))
         scheduler_round)))"

definition mpenter :: "uint \<Rightarrow> (unit, 'z sys_st_scheme) kern" where
  "mpenter ra =
    seqK switchkvm
   (seqK (seginit ra)
   (seqK lapicinit
         mpmain))"

text \<open>
  \<^verbatim>\<open>startothers\<close>. The field \<^verbatim>\<open>started\<close> of another processor is volatile: \<open>started_at c\<close> is its address, read like a
  device until the processor reports.
\<close>

definition start_cpu :: "(nat \<Rightarrow> addr) \<Rightarrow> uint \<Rightarrow> nat \<Rightarrow> (unit, 'z sys_st_scheme) kern" where
  "start_cpu started_at ra c =
    bindK (cpunum ra) (\<lambda>me.
    whenK (c \<noteq> me)
     (bindK kalloc (\<lambda>stack.
      let code = p2v 0x7000 in
      seqK (upd_mem (\<lambda>m. store32 m (code - 4) 0x8000))
     (bindK (getK entry32mp) (\<lambda>e.
      seqK (upd_mem (\<lambda>m. store32 m (code - 8) (ucast (v2p e))))
     (seqK (st64 (code - 16) (stack + KSTACKSIZE))
     (bindK (getK (\<lambda>s. apicid (cpus s ! c))) (\<lambda>apic.
      seqK (lapicstartap apic (ucast (v2p code)))
           (loopK (\<lambda>_. bindK (mmread (started_at c)) (\<lambda>v. ret (if v = 0 then Inl () else Inr ()))) ())))))))))"

definition startothers :: "(nat \<Rightarrow> addr) \<Rightarrow> uint \<Rightarrow> (unit, 'z sys_st_scheme) kern" where
  "startothers started_at ra =
    bindK (getK entryother) (\<lambda>image.
    seqK (upd_mem (\<lambda>m. write_bytes m (p2v 0x7000) image))
   (bindK (getK ncpu) (\<lambda>n. forK [0..<nat n] (start_cpu started_at ra))))"

definition main :: "(nat \<Rightarrow> addr) \<Rightarrow> uint \<Rightarrow> uint \<Rightarrow> (unit, 'z sys_st_scheme) kern" where
  "main started_at ra imgsize =
    seqK uartearlyinit
   (bindK (getK kend) (\<lambda>e.
    seqK (kinit1 e (p2v (4 * 1024 * 1024)))
   (seqK kvmalloc
   (bindK acpiinit (\<lambda>r.
    seqK (whenK (r \<noteq> 0) mpinit)
   (seqK lapicinit
   (seqK (seginit ra)
   (bindK (getK (\<lambda>s. cpu_id (cpus s ! cpu s))) (\<lambda>id.
    seqK (cprintf ([CHR 0x0A] @ ''cpu%d: starting xv6'' @ [CHR 0x0A, CHR 0x0A]) [CInt (ucast id)])
   (seqK picinit
   (seqK ioapicinit
   (seqK consoleinit
   (seqK uartinit
   (seqK pinit
   (seqK tvinit
   (seqK binit
   (seqK fileinit
   (seqK iinit
   (seqK (ideinit imgsize)
   (bindK (getK ismp) (\<lambda>mp.
    seqK (whenK (\<not> mp) timerinit)
   (seqK (startothers started_at ra)
   (seqK (kinit2 (p2v (4 * 1024 * 1024)) (p2v PHYSTOP))
   (seqK userinit
         mpmain))))))))))))))))))))))))"

end
