(* ===== verification/Blkmap.thy ===== *)
theory Blkmap
  imports Inode
begin

text \<open>
  The on-disk format of a file, shared by the kernel (\<^verbatim>\<open>kernel/fs.c\<close>) and the image builder (\<^verbatim>\<open>tools/mkfs.c\<close>): inodes in
  blocks of eight, twelve direct block numbers and one block of indirect ones, and the bytes of a
  file as a function of the blocks.
\<close>

section \<open>Inodes in their blocks\<close>

lemma length_put_dinode [simp]:
  "off + 64 \<le> length d \<Longrightarrow> length (di_addrs di) = NDIRECT + 1 \<Longrightarrow> length (put_dinode off di d) = length d"
  by (simp add: put_dinode_def NDIRECT_def)

lemma get16_put_words: "off + 4 * length ws \<le> length bs \<Longrightarrow> j + 2 \<le> off \<or> off + 4 * length ws \<le> j \<Longrightarrow> j + 2 \<le> length bs
   \<Longrightarrow> get16 j (put_words off ws bs) = get16 j bs"
  by (induction ws arbitrary: off bs) (auto simp: get_put_other)

lemma get32_put_words: "off + 4 * length ws \<le> length bs \<Longrightarrow> j + 4 \<le> off \<or> off + 4 * length ws \<le> j \<Longrightarrow> j + 4 \<le> length bs
   \<Longrightarrow> get32 j (put_words off ws bs) = get32 j bs"
  by (induction ws arbitrary: off bs) (auto simp: get_put_other)

lemma get_put_dinode:
  assumes "off + 64 \<le> length d" "length (di_addrs di) = NDIRECT + 1"
  shows "get_dinode off (put_dinode off di d) = di"
  using assms get_put_words [of "off + 12" "di_addrs di"]
  by (simp add: get_dinode_def put_dinode_def get16_put_words get32_put_words get_put_other NDIRECT_def)

lemma get_put_dinode_other:
  assumes "off + 64 \<le> length d" "off' + 64 \<le> length d" "length (di_addrs di) = NDIRECT + 1" "off' + 64 \<le> off \<or> off + 64 \<le> off'"
  shows "get_dinode off' (put_dinode off di d) = get_dinode off' d"
proof -
  have "get_words (off' + 12) (NDIRECT + 1) (put_dinode off di d) = get_words (off' + 12) (NDIRECT + 1) d"
    by (rule nth_equalityI)
       (use assms in \<open>auto simp: put_dinode_def get32_put_words get_put_other NDIRECT_def\<close>)
  then show ?thesis using assms
    by (auto simp: get_dinode_def put_dinode_def get16_put_words get32_put_words get_put_other NDIRECT_def)
qed

section \<open>The blocks of a file\<close>

definition blkno :: "dimg \<Rightarrow> dinode \<Rightarrow> nat \<Rightarrow> uint" where
  "blkno W di n = (if n < NDIRECT then di_addrs di ! n
     else if di_addrs di ! NDIRECT = 0 then 0
     else get32 (4 * (n - NDIRECT)) (W (di_addrs di ! NDIRECT)))"

definition fbyte :: "dimg \<Rightarrow> dinode \<Rightarrow> nat \<Rightarrow> byte" where
  "fbyte W di j = W (blkno W di (j div 512)) ! (j mod 512)"

definition contents :: "dimg \<Rightarrow> dinode \<Rightarrow> byte list" where
  "contents W di = map (fbyte W di) [0..<unat (di_size di)]"

text \<open>The slots of a file: its blocks, and after the last of them the indirect block.\<close>

definition fslot :: "dimg \<Rightarrow> dinode \<Rightarrow> nat \<Rightarrow> uint" where
  "fslot W di n = (if n = MAXFILE then di_addrs di ! NDIRECT else blkno W di n)"

definition fblocks :: "dimg \<Rightarrow> dinode \<Rightarrow> uint set" where
  "fblocks W di = {fslot W di n |n. n \<le> MAXFILE \<and> fslot W di n \<noteq> 0}"

text \<open>
  Well formed: every block and the indirect one have 512 bytes, no block is used twice, and there is a block for every byte of
  the file.
\<close>

definition file_wf :: "dimg \<Rightarrow> dinode \<Rightarrow> bool" where
  "file_wf W di \<longleftrightarrow> length (di_addrs di) = NDIRECT + 1
     \<and> inj_on (fslot W di) {n. n \<le> MAXFILE \<and> fslot W di n \<noteq> 0}
     \<and> (\<forall>k \<in> fblocks W di. length (W k) = 512)
     \<and> unat (di_size di) \<le> MAXFILE * 512
     \<and> (\<forall>j < unat (di_size di). blkno W di (j div 512) \<noteq> 0)"

lemma fblocksI: "n < MAXFILE \<Longrightarrow> blkno W di n \<noteq> 0 \<Longrightarrow> blkno W di n \<in> fblocks W di"
  "di_addrs di ! NDIRECT \<noteq> 0 \<Longrightarrow> di_addrs di ! NDIRECT \<in> fblocks W di"
proof -
  assume "n < MAXFILE" "blkno W di n \<noteq> 0"
  then show "blkno W di n \<in> fblocks W di" unfolding fblocks_def by (intro CollectI exI [of _ n]) (simp add: fslot_def)
next
  assume "di_addrs di ! NDIRECT \<noteq> 0"
  then show "di_addrs di ! NDIRECT \<in> fblocks W di" unfolding fblocks_def by (intro CollectI exI [of _ MAXFILE]) (simp add: fslot_def)
qed

lemma fslot_cases: "n \<le> MAXFILE \<Longrightarrow> fslot W di n = (if n < NDIRECT then di_addrs di ! n else if n = MAXFILE then di_addrs di ! NDIRECT
     else if di_addrs di ! NDIRECT = 0 then 0 else get32 (4 * (n - NDIRECT)) (W (di_addrs di ! NDIRECT)))"
  by (auto simp: fslot_def blkno_def MAXFILE_def NDIRECT_def)

lemma file_wf_inj:
  "file_wf W di \<Longrightarrow> m \<le> MAXFILE \<Longrightarrow> n \<le> MAXFILE \<Longrightarrow> fslot W di m = fslot W di n \<Longrightarrow> fslot W di m \<noteq> 0 \<Longrightarrow> m = n"
  unfolding file_wf_def inj_on_def by auto

lemma file_wf_blk: "file_wf W di \<Longrightarrow> j < unat (di_size di) \<Longrightarrow> j div 512 < MAXFILE \<and> blkno W di (j div 512) \<noteq> 0"
proof -
  assume w: "file_wf W di" "j < unat (di_size di)"
  then have "j < MAXFILE * 512" by (simp add: file_wf_def)
  then show ?thesis using w less_mult_imp_div_less [of j MAXFILE 512] by (simp add: file_wf_def)
qed

text \<open>A file is determined by its inode and the contents of its own blocks.\<close>

lemma file_cong:
  assumes "\<forall>k \<in> fblocks W di. V k = W k"
  shows "n \<le> MAXFILE \<Longrightarrow> fslot V di n = fslot W di n" "fblocks V di = fblocks W di" "file_wf W di \<Longrightarrow> file_wf V di"
    "file_wf W di \<Longrightarrow> contents V di = contents W di"
proof -
  have s: "fslot V di n = fslot W di n" if "n \<le> MAXFILE" for n
    using assms fblocksI(2) [of di W] by (auto simp: fslot_cases [OF that])
  then show "n \<le> MAXFILE \<Longrightarrow> fslot V di n = fslot W di n" .
  show b: "fblocks V di = fblocks W di" unfolding fblocks_def by (rule Collect_cong) (metis s)
  have bl: "blkno V di n = blkno W di n" if "n < MAXFILE" for n using s [of n] that by (simp add: fslot_def)
  show "contents V di = contents W di" if w: "file_wf W di"
  proof -
    have "fbyte V di j = fbyte W di j" if "j < unat (di_size di)" for j
    proof -
      have "j div 512 < MAXFILE" "blkno W di (j div 512) \<noteq> 0" using w that by (auto simp: file_wf_def)
      then show ?thesis using assms fblocksI(1) [of "j div 512" W di] bl [of "j div 512"] by (simp add: fbyte_def)
    qed
    then show ?thesis by (simp add: contents_def)
  qed
  show "file_wf V di" if w: "file_wf W di"
  proof -
    have "blkno V di (j div 512) = blkno W di (j div 512)" if "j < unat (di_size di)" for j
      using w that bl [of "j div 512"] by (auto simp: file_wf_def)
    moreover have "{n. n \<le> MAXFILE \<and> fslot V di n \<noteq> 0} = {n. n \<le> MAXFILE \<and> fslot W di n \<noteq> 0}" using s by auto
    moreover have "inj_on (fslot V di) {n. n \<le> MAXFILE \<and> fslot W di n \<noteq> 0}"
      using w s by (auto simp: file_wf_def inj_on_def)
    ultimately show ?thesis using w b assms by (auto simp: file_wf_def)
  qed
qed


section \<open>Giving a file a new block\<close>

text \<open>Slot \<open>n\<close> of a file gets the block \<open>x\<close>: in the inode, or in the indirect block.\<close>

definition slot_img :: "nat \<Rightarrow> uint \<Rightarrow> dinode \<Rightarrow> dimg \<Rightarrow> dimg" where
  "slot_img n x di W = (if n < NDIRECT \<or> n = MAXFILE then W
     else W(di_addrs di ! NDIRECT := put32 (4 * (n - NDIRECT)) x (W (di_addrs di ! NDIRECT))))"

definition slot_di :: "nat \<Rightarrow> uint \<Rightarrow> dinode \<Rightarrow> dinode" where
  "slot_di n x di = (if n < NDIRECT then di\<lparr>di_addrs := (di_addrs di)[n := x]\<rparr>
     else if n = MAXFILE then di\<lparr>di_addrs := (di_addrs di)[NDIRECT := x]\<rparr> else di)"

lemma get32_zeros: "j + 4 \<le> n \<Longrightarrow> get32 j (replicate n 0) = 0"
proof -
  assume "j + 4 \<le> n"
  then have "slice j 4 (replicate n (0 :: byte)) = replicate 4 0" by (simp add: slice_def min_def)
  then show ?thesis by (simp add: get32_def eval_nat_numeral)
qed

lemma fslot_set:
  assumes w: "file_wf W di" and n: "n \<le> MAXFILE" "fslot W di n = 0" "n < NDIRECT \<or> n = MAXFILE \<or> di_addrs di ! NDIRECT \<noteq> 0"
    and x: "x \<noteq> 0" "x \<notin> fblocks W di" "W x = replicate 512 0" and m: "m \<le> MAXFILE"
  shows "fslot (slot_img n x di W) (slot_di n x di) m = (if m = n then x else fslot W di m)"
proof -
  let ?a = "di_addrs di" and ?i = "di_addrs di ! NDIRECT"
  have la: "length ?a = NDIRECT + 1" using w by (simp add: file_wf_def)
  have li: "?i \<noteq> 0 \<Longrightarrow> length (W ?i) = 512" using w fblocksI(2) [of di W] by (auto simp: file_wf_def)
  consider "n < NDIRECT" | "n = MAXFILE" | "NDIRECT \<le> n" "n < MAXFILE" "?i \<noteq> 0" using n by linarith
  then show ?thesis
  proof cases
    case 1
    then show ?thesis using la by (auto simp: fslot_cases [OF m] slot_img_def slot_di_def MAXFILE_def)
  next
    case 2
    then have "?i = 0" using n by (simp add: fslot_def)
    moreover have "get32 (4 * (m - NDIRECT)) (replicate 512 0) = 0" if "m \<noteq> MAXFILE"
      using that m by (intro get32_zeros) (simp add: MAXFILE_def NDIRECT_def NINDIRECT_def)
    ultimately show ?thesis using 2 la x by (auto simp: fslot_cases [OF m] slot_img_def slot_di_def MAXFILE_def NDIRECT_def)
  next
    case 3
    have "get32 (4 * (m - NDIRECT)) (put32 (4 * (n - NDIRECT)) x (W ?i)) = (if m = n then x else get32 (4 * (m - NDIRECT)) (W ?i))"
      if "NDIRECT \<le> m" "m < MAXFILE"
    proof (cases "m = n")
      case False
      then have "4 * (m - NDIRECT) + 4 \<le> 4 * (n - NDIRECT) \<or> 4 * (n - NDIRECT) + 4 \<le> 4 * (m - NDIRECT)" using that 3 by linarith
      moreover have "4 * (n - NDIRECT) + 4 \<le> 512" "4 * (m - NDIRECT) + 4 \<le> 512" using that 3 by (simp_all add: MAXFILE_def NINDIRECT_def)
      ultimately show ?thesis using False li [OF 3(3)] by (simp add: get_put_other(4))
    qed (use 3 li in \<open>simp add: MAXFILE_def NDIRECT_def NINDIRECT_def\<close>)
    then show ?thesis using 3 m by (auto simp: fslot_cases [OF m] slot_img_def slot_di_def MAXFILE_def)
  qed
qed

lemma set_slot_law:
  assumes w: "file_wf W di" and n: "n \<le> MAXFILE" "fslot W di n = 0" "n < NDIRECT \<or> n = MAXFILE \<or> di_addrs di ! NDIRECT \<noteq> 0"
    and x: "x \<noteq> 0" "x \<notin> fblocks W di" "W x = replicate 512 0"
  defines "W' \<equiv> slot_img n x di W" and "di' \<equiv> slot_di n x di"
  shows "fblocks W' di' = insert x (fblocks W di)" "file_wf W' di'" "contents W' di' = contents W di"
    "m < MAXFILE \<Longrightarrow> blkno W' di' m = (if m = n then x else blkno W di m)"
    "m < MAXFILE \<Longrightarrow> blkno W di m \<noteq> 0 \<Longrightarrow> W' (blkno W di m) = W (blkno W di m)"
    "W' x = replicate 512 0" "k \<notin> fblocks W di \<Longrightarrow> W' k = W k" "di_size di' = di_size di" "length (W' k) = 512 \<longleftrightarrow> length (W k) = 512"
proof -
  let ?i = "di_addrs di ! NDIRECT"
  note s = fslot_set [OF w n x, folded W'_def di'_def]
  have la: "length (di_addrs di) = NDIRECT + 1" using w by (simp add: file_wf_def)
  have in12: "?i \<noteq> 0 \<Longrightarrow> ?i \<in> fblocks W di \<and> length (W ?i) = 512" using w fblocksI(2) [of di W] by (auto simp: file_wf_def)
  show b: "blkno W' di' m = (if m = n then x else blkno W di m)" if "m < MAXFILE" for m
    using s [of m] that by (simp add: fslot_def split: if_splits)
  show fb: "fblocks W' di' = insert x (fblocks W di)"
  proof (intro equalityI subsetI)
    fix k assume "k \<in> fblocks W' di'"
    then obtain m where "m \<le> MAXFILE" "k = fslot W' di' m" "k \<noteq> 0" by (auto simp: fblocks_def)
    then show "k \<in> insert x (fblocks W di)" using s [of m] by (auto simp: fblocks_def)
  next
    fix k assume "k \<in> insert x (fblocks W di)"
    then consider "k = x" | m where "m \<le> MAXFILE" "k = fslot W di m" "k \<noteq> 0" by (auto simp: fblocks_def)
    then show "k \<in> fblocks W' di'"
    proof cases
      case 1
      then show ?thesis using s [OF n(1)] n(1) x(1) by (auto simp: fblocks_def intro!: exI [of _ n])
    next
      case (2 m)
      then have "m \<noteq> n" using n(2) by auto
      then show ?thesis using 2 s [of m] by (auto simp: fblocks_def intro!: exI [of _ m])
    qed
  qed
  have same: "W' k = W k" if "k = ?i \<longrightarrow> n < NDIRECT \<or> n = MAXFILE" for k using that by (auto simp: W'_def slot_img_def)
  show keep: "W' k = W k" if "k \<notin> fblocks W di" for k using same [of k] that in12 n(3) by auto
  then show "W' x = replicate 512 0" using x by simp
  show len: "length (W' k) = 512 \<longleftrightarrow> length (W k) = 512" for k
    using in12 n(1,3) by (auto simp: W'_def slot_img_def MAXFILE_def NDIRECT_def NINDIRECT_def)
  show dk: "W' (blkno W di m) = W (blkno W di m)" if "m < MAXFILE" "blkno W di m \<noteq> 0" for m
  proof (rule same, rule impI)
    assume "blkno W di m = ?i"
    then have "fslot W di m = fslot W di MAXFILE" using that by (simp add: fslot_def)
    then show "n < NDIRECT \<or> n = MAXFILE" using file_wf_inj [OF w, of m MAXFILE] that by (simp add: fslot_def)
  qed
  show sz: "di_size di' = di_size di" by (simp add: di'_def slot_di_def)
  have bs: "blkno W' di' (j div 512) = blkno W di (j div 512) \<and> blkno W di (j div 512) \<noteq> 0 \<and> j div 512 < MAXFILE" if "j < unat (di_size di)" for j
  proof -
    have j: "blkno W di (j div 512) \<noteq> 0" "j div 512 < MAXFILE" using w that by (auto simp: file_wf_def)
    moreover have "j div 512 \<noteq> n" using j n(2) by (auto simp: fslot_def)
    ultimately show ?thesis using b by simp
  qed
  then show "contents W' di' = contents W di" using dk by (simp add: contents_def fbyte_def sz)
  have "inj_on (fslot W' di') {m. m \<le> MAXFILE \<and> fslot W' di' m \<noteq> 0}"
  proof (rule inj_onI, clarsimp)
    fix m l assume m: "m \<le> MAXFILE" "l \<le> MAXFILE" "fslot W' di' m = fslot W' di' l" "fslot W' di' l \<noteq> 0"
    have "fslot W di k \<noteq> x" if "k \<le> MAXFILE" for k using that x(1,2) by (auto simp: fblocks_def)
    then show "m = l" using m s [of m] s [of l] file_wf_inj [OF w, of m l] by (auto split: if_splits)
  qed
  moreover have "\<forall>k \<in> fblocks W' di'. length (W' k) = 512" unfolding fb using len w x(3) by (auto simp: file_wf_def)
  moreover have "length (di_addrs di') = NDIRECT + 1" using la by (simp add: di'_def slot_di_def)
  moreover have "unat (di_size di') \<le> MAXFILE * 512" "\<forall>j < unat (di_size di'). blkno W' di' (j div 512) \<noteq> 0"
    using w bs unfolding sz file_wf_def by auto
  ultimately show "file_wf W' di'" unfolding file_wf_def by blast
qed


section \<open>Writing into a file\<close>

lemma write_block_law:
  assumes w: "file_wf W di" and n: "n < MAXFILE" "blkno W di n \<noteq> 0" and b: "p + length bs \<le> 512"
  defines "V \<equiv> W(blkno W di n := splice p bs (W (blkno W di n)))"
  shows "m \<le> MAXFILE \<Longrightarrow> fslot V di m = fslot W di m" "fblocks V di = fblocks W di" "file_wf V di"
    "j div 512 < MAXFILE \<Longrightarrow> blkno W di (j div 512) \<noteq> 0 \<Longrightarrow> fbyte V di j =
       (if j div 512 = n \<and> p \<le> j mod 512 \<and> j mod 512 < p + length bs then bs ! (j mod 512 - p) else fbyte W di j)"
proof -
  let ?x = "blkno W di n" and ?i = "di_addrs di ! NDIRECT"
  have x: "fslot W di n = ?x" using n by (simp add: fslot_def)
  have lx: "length (W ?x) = 512" using w fblocksI(1) [OF n] by (auto simp: file_wf_def)
  have ne: "?x \<noteq> ?i"
  proof
    assume "?x = ?i"
    then have "fslot W di n = fslot W di MAXFILE" using x by (simp add: fslot_def)
    then show False using file_wf_inj [OF w, of n MAXFILE] n x by simp
  qed
  then have vi: "V ?i = W ?i" by (simp add: V_def)
  have s: "fslot V di m = fslot W di m" if "m \<le> MAXFILE" for m by (simp add: fslot_cases [OF that] vi)
  then show "m \<le> MAXFILE \<Longrightarrow> fslot V di m = fslot W di m" .
  show fb: "fblocks V di = fblocks W di" unfolding fblocks_def by (rule Collect_cong) (metis s)
  have bl: "blkno V di m = blkno W di m" if "m < MAXFILE" for m using s [of m] that by (simp add: fslot_def)
  have lv: "length (V k) = 512" if "k \<in> fblocks W di" for k using that w b lx by (auto simp: V_def file_wf_def)
  have "{n. n \<le> MAXFILE \<and> fslot V di n \<noteq> 0} = {n. n \<le> MAXFILE \<and> fslot W di n \<noteq> 0}" using s by auto
  moreover have "inj_on (fslot V di) {n. n \<le> MAXFILE \<and> fslot W di n \<noteq> 0}" using w s by (auto simp: file_wf_def inj_on_def)
  moreover have "blkno V di (j div 512) \<noteq> 0" if "j < unat (di_size di)" for j
    using file_wf_blk [OF w that] bl [of "j div 512"] by simp
  ultimately show "file_wf V di" using w lv unfolding file_wf_def fb by auto
  show "fbyte V di j = (if j div 512 = n \<and> p \<le> j mod 512 \<and> j mod 512 < p + length bs then bs ! (j mod 512 - p) else fbyte W di j)"
    if j: "j div 512 < MAXFILE" "blkno W di (j div 512) \<noteq> 0"
  proof (cases "j div 512 = n")
    case True
    have "V ?x = splice p bs (W ?x)" by (simp add: V_def)
    then show ?thesis using True b lx bl [OF n(1)] by (simp add: fbyte_def nth_splice)
  next
    case False
    then have "blkno W di (j div 512) \<noteq> ?x" using file_wf_inj [OF w, of "j div 512" n] j n by (auto simp: fslot_def)
    then have "V (blkno W di (j div 512)) = W (blkno W di (j div 512))" by (simp add: V_def)
    then show ?thesis using False bl [OF j(1)] by (simp add: fbyte_def)
  qed
qed

text \<open>The first \<open>k\<close> bytes of \<open>d\<close> have been written at offset \<open>a\<close> into the file \<open>di0\<close> of the image \<open>W0\<close>; its size is still the old one.\<close>

definition wrote :: "dimg \<Rightarrow> dinode \<Rightarrow> nat \<Rightarrow> byte list \<Rightarrow> nat \<Rightarrow> dimg \<Rightarrow> dinode \<Rightarrow> bool" where
  "wrote W0 di0 a d k W di \<longleftrightarrow> file_wf W di \<and> di_size di = di_size di0
     \<and> (\<forall>j. j < unat (di_size di0) \<or> a \<le> j \<and> j < a + k \<longrightarrow> j div 512 < MAXFILE \<and> blkno W di (j div 512) \<noteq> 0
          \<and> fbyte W di j = (if a \<le> j \<and> j < a + k then d ! (j - a) else fbyte W0 di0 j))"

lemma wrote_start: "file_wf W di \<Longrightarrow> wrote W di a d 0 W di"
  by (auto simp: wrote_def file_wf_def)

lemma wrote_slot:
  assumes t: "wrote W0 di0 a d k W di" and n: "n \<le> MAXFILE" "fslot W di n = 0" "n < NDIRECT \<or> n = MAXFILE \<or> di_addrs di ! NDIRECT \<noteq> 0"
    and x: "x \<noteq> 0" "x \<notin> fblocks W di" "W x = replicate 512 0"
  shows "wrote W0 di0 a d k (slot_img n x di W) (slot_di n x di)"
proof -
  have w: "file_wf W di" using t by (simp add: wrote_def)
  note L = set_slot_law [OF w n x]
  have "fbyte (slot_img n x di W) (slot_di n x di) j = fbyte W di j \<and> blkno (slot_img n x di W) (slot_di n x di) (j div 512) \<noteq> 0"
    if "j div 512 < MAXFILE" "blkno W di (j div 512) \<noteq> 0" for j
    using that L(4,5) [of "j div 512"] n(2) by (auto simp: fbyte_def fslot_def)
  then show ?thesis using t L(2,8) unfolding wrote_def by auto
qed

lemma wrote_chunk:
  assumes t: "wrote W0 di0 a d k W di" and x: "(a + k) div 512 < MAXFILE" "x = blkno W di ((a + k) div 512)" "x \<noteq> 0"
    and m: "(a + k) mod 512 + m \<le> 512" "k + m \<le> length d"
  shows "wrote W0 di0 a d (k + m) (W(x := splice ((a + k) mod 512) (slice k m d) (W x))) di"
proof -
  let ?n = "(a + k) div 512" and ?p = "(a + k) mod 512" and ?bs = "slice k m d"
  have w: "file_wf W di" using t by (simp add: wrote_def)
  have lb: "length ?bs = m" using m by simp
  have "?p + length ?bs \<le> 512" using m lb by simp
  note L = write_block_law [OF w x(1) x(3) [unfolded x(2)] this, folded x(2)]
  let ?V = "W(x := splice ?p ?bs (W x))"
  have bl: "blkno ?V di i = blkno W di i" if "i < MAXFILE" for i using L(1) [of i] that by (simp add: fslot_def)
  have "j div 512 < MAXFILE \<and> blkno ?V di (j div 512) \<noteq> 0
       \<and> fbyte ?V di j = (if a \<le> j \<and> j < a + (k + m) then d ! (j - a) else fbyte W0 di0 j)"
    if j: "j < unat (di_size di0) \<or> a \<le> j \<and> j < a + (k + m)" for j
  proof -
    have e: "j = 512 * (j div 512) + j mod 512" "a + k = 512 * ?n + ?p" "j mod 512 < 512" by simp_all
    show ?thesis
    proof (cases "j div 512 = ?n \<and> ?p \<le> j mod 512 \<and> j mod 512 < ?p + m")
      case True
      then have q: "a + k \<le> j" "j < a + k + m" "j mod 512 - ?p = j - (a + k)" using e by linarith+
      then show ?thesis using True x L(4) [of j] lb m bl [of ?n] by (simp add: nth_slice)
    next
      case False
      have "\<not> (a + k \<le> j \<and> j < a + (k + m))"
      proof
        assume q: "a + k \<le> j \<and> j < a + (k + m)"
        have "512 * ?n \<le> j" "j < 512 * ?n + 512" using q m(1) e(2) by linarith+
        then have "512 * ?n \<le> j" "j < 512 * Suc ?n" by simp_all
        then have "j div 512 = ?n" by (rule div_nat_eqI)
        then show False using False q e m(1) by linarith
      qed
      then have "j < unat (di_size di0) \<or> a \<le> j \<and> j < a + k" using j by linarith
      then have o: "j div 512 < MAXFILE" "blkno W di (j div 512) \<noteq> 0" "fbyte W di j = (if a \<le> j \<and> j < a + k then d ! (j - a) else fbyte W0 di0 j)"
        using t by (auto simp: wrote_def)
      have "fbyte ?V di j = fbyte W di j" unfolding L(4) [OF o(1,2)] lb by (rule if_not_P [OF False])
      moreover have "(a \<le> j \<and> j < a + (k + m)) = (a \<le> j \<and> j < a + k)" using \<open>\<not> (a + k \<le> j \<and> j < a + (k + m))\<close> by linarith
      ultimately show ?thesis using o bl [OF o(1)] by simp
    qed
  qed
  then show ?thesis using t L(3) by (simp add: wrote_def)
qed

text \<open>When all bytes are there and the size is set, the file has the new contents.\<close>

lemma wrote_done:
  assumes t: "wrote W0 di0 a d (length d) W di" and a: "a \<le> unat (di_size di0)" "a + length d \<le> MAXFILE * 512"
    and w0: "unat (di_size di0) \<le> MAXFILE * 512" and z: "unat z = max (unat (di_size di0)) (a + length d)"
  shows "file_wf W (di\<lparr>di_size := z\<rparr>)"
    and "contents W (di\<lparr>di_size := z\<rparr>) = take a (contents W0 di0) @ d @ drop (a + length d) (contents W0 di0)"
proof -
  let ?e = "di\<lparr>di_size := z\<rparr>"
  have b: "blkno W ?e = blkno W di" "fslot W ?e = fslot W di" "fblocks W ?e = fblocks W di" "fbyte W ?e = fbyte W di"
    by (simp_all add: fun_eq_iff blkno_def fslot_def fblocks_def fbyte_def)
  have j: "j div 512 < MAXFILE \<and> blkno W di (j div 512) \<noteq> 0
       \<and> fbyte W di j = (if a \<le> j \<and> j < a + length d then d ! (j - a) else fbyte W0 di0 j)" if "j < unat z" for j
  proof -
    have "j < unat (di_size di0) \<or> a \<le> j \<and> j < a + length d" using that z a by linarith
    then show ?thesis using t unfolding wrote_def by blast
  qed
  show "file_wf W ?e" using t j z a w0 unfolding file_wf_def wrote_def b by auto
  show "contents W ?e = take a (contents W0 di0) @ d @ drop (a + length d) (contents W0 di0)"
  proof (rule nth_equalityI)
    show "length (contents W ?e) = length (take a (contents W0 di0) @ d @ drop (a + length d) (contents W0 di0))"
      using z a by (simp add: contents_def)
    fix i assume "i < length (contents W ?e)"
    then have i: "i < unat z" by (simp add: contents_def)
    then have "contents W ?e ! i = (if a \<le> i \<and> i < a + length d then d ! (i - a) else fbyte W0 di0 i)"
      using j [OF i] by (simp add: contents_def b)
    then show "contents W ?e ! i = (take a (contents W0 di0) @ d @ drop (a + length d) (contents W0 di0)) ! i"
      using i z a by (auto simp: contents_def nth_append)
  qed
qed

end
