(* ===== verification/Fsdata.thy ===== *)
theory Fsdata
  imports Dir Blkmap
begin

text \<open>
  What the file system routines of \<open>Inode\<close> and \<open>Dir\<close> do to the blocks inside a transaction: the free bitmap as
  a set of block numbers, the block map of an inode, and file contents as byte sequences. The block store
  is the one of the locale \<open>block_store\<close>, through its interpretation for the log.
\<close>

section \<open>The free bitmap\<close>

lemma bit_bit_mask: "bit (bit_mask i) n \<longleftrightarrow> n = i mod 8"
  by (auto simp: bit_mask_def bit_simps)

lemma bm_get_bit: "bm_get d i \<longleftrightarrow> bit (d ! (i div 8)) (i mod 8)"
proof
  assume "bm_get d i"
  then obtain n where "bit (d ! (i div 8) AND bit_mask i) n" unfolding bm_get_def by (metis bit_word_eqI bit_0_eq bot_apply bot_bool_def)
  then show "bit (d ! (i div 8)) (i mod 8)" by (auto simp: bit_simps bit_bit_mask)
next
  assume "bit (d ! (i div 8)) (i mod 8)"
  then have "bit (d ! (i div 8) AND bit_mask i) (i mod 8)" by (simp add: bit_simps bit_bit_mask)
  then show "bm_get d i" unfolding bm_get_def by (metis bit_0_eq bot_apply bot_bool_def)
qed

lemma bm_length [simp]: "length (bm_set i d) = length d" "length (bm_clear i d) = length d"
  by (simp_all add: bm_set_def bm_clear_def)

lemma bm_get_upd:
  assumes "i < 8 * length d"
  shows "bm_get (bm_set i d) j \<longleftrightarrow> j = i \<or> bm_get d j" "bm_get (bm_clear i d) j \<longleftrightarrow> j \<noteq> i \<and> bm_get d j"
proof -
  have l: "i div 8 < length d" using assms by simp
  have e: "j div 8 = i div 8 \<Longrightarrow> j mod 8 = i mod 8 \<Longrightarrow> j = i" by (metis div_mult_mod_eq)
  have b: "i mod 8 < 8" "j mod 8 < 8" by simp_all
  show "bm_get (bm_set i d) j \<longleftrightarrow> j = i \<or> bm_get d j"
    using l e by (cases "j div 8 = i div 8") (auto simp: bm_get_bit bm_set_def bit_simps bit_bit_mask)
  show "bm_get (bm_clear i d) j \<longleftrightarrow> j \<noteq> i \<and> bm_get d j"
    using l e b by (cases "j div 8 = i div 8") (auto simp: bm_get_bit bm_clear_def bit_simps bit_bit_mask)
qed

lemma bm_clear_set: "i < 8 * length d \<Longrightarrow> \<not> bm_get d i \<Longrightarrow> bm_clear i (bm_set i d) = d"
proof (rule nth_equalityI)
  fix k assume a: "i < 8 * length d" "\<not> bm_get d i" "k < length (bm_clear i (bm_set i d))"
  show "bm_clear i (bm_set i d) ! k = d ! k"
  proof (rule bit_word_eqI)
    fix n assume "n < LENGTH(8)"
    then have "(8 * k + n) div 8 = k" "(8 * k + n) mod 8 = n" by auto
    then have "bit (xs ! k) n = bm_get xs (8 * k + n)" for xs by (simp add: bm_get_bit)
    then show "bit (bm_clear i (bm_set i d) ! k) n = bit (d ! k) n" using a by (auto simp: bm_get_upd)
  qed
qed simp

text \<open>The block of the bitmap that has the bit of block \<open>b\<close>, and whether \<open>b\<close> is in use.\<close>

abbreviation bmblk :: "dimg \<Rightarrow> nat \<Rightarrow> uint" where
  "bmblk W b \<equiv> BBLOCK (of_nat b) (sb_ninodes (sb_of (W 1)))"

abbreviation nblk :: "dimg \<Rightarrow> nat" where
  "nblk W \<equiv> unat (sb_size (sb_of (W 1)))"

definition used :: "dimg \<Rightarrow> nat \<Rightarrow> bool" where
  "used W b \<longleftrightarrow> bm_get (W (bmblk W b)) (b mod BPB)"

text \<open>
  The first block after the bitmap, and the geometry of a file system whose log starts at block \<open>st\<close>: blocks that
  are not in use are data blocks between the bitmap and the log.
\<close>

definition data_start :: "dimg \<Rightarrow> nat" where
  "data_start W = unat (sb_ninodes (sb_of (W 1))) div IPB + 3 + (nblk W - 1) div BPB + 1"

definition fs_geom :: "uint \<Rightarrow> dimg \<Rightarrow> bool" where
  "fs_geom st W \<longleftrightarrow> data_start W \<le> unat st \<and> (\<forall>b < nblk W. \<not> used W b \<longrightarrow> data_start W \<le> b \<and> b < unat st)"

lemma bitmap_cong:
  assumes "V 1 = W 1" "\<forall>c < nblk W. V (bmblk W c) = W (bmblk W c)"
  shows "b < nblk W \<Longrightarrow> used V b = used W b" "fs_geom st V = fs_geom st W"
  using assms by (auto simp: used_def fs_geom_def data_start_def)

lemma bmblk_unat:
  assumes "fs_geom st W" "b < nblk W"
  shows "unat (bmblk W b) = b div BPB + unat (sb_ninodes (sb_of (W 1))) div IPB + 3"
    and "bmblk W b < st" "3 \<le> unat (bmblk W b)" "unat (bmblk W b) < data_start W"
proof -
  have "b div BPB \<le> (nblk W - 1) div BPB" by (rule div_le_mono) (use assms(2) in simp)
  then have lt: "b div BPB + unat (sb_ninodes (sb_of (W 1))) div IPB + 3 < data_start W" by (simp add: data_start_def)
  also have "\<dots> \<le> unat st" using assms(1) by (simp add: fs_geom_def)
  finally have l: "b div BPB + unat (sb_ninodes (sb_of (W 1))) div IPB + 3 < unat st" .
  have n: "unat st < 2 ^ 32" using unsigned_less [of st, where ?'a = nat] by simp
  have b: "unat (of_nat b :: uint) = b" using assms(2) unsigned_less [of "sb_size (sb_of (W 1))", where ?'a = nat] by (intro unat_of_nat_small) simp
  have "unat (bmblk W b) = (b div BPB + unat (sb_ninodes (sb_of (W 1))) div IPB + 3) mod 2 ^ 32"
    unfolding BBLOCK_def by (simp add: unat_word_ariths unat_div b BPB_def IPB_def mod_simps)
  with l n show u: "unat (bmblk W b) = b div BPB + unat (sb_ninodes (sb_of (W 1))) div IPB + 3" by simp
  show "bmblk W b < st" "3 \<le> unat (bmblk W b)" "unat (bmblk W b) < data_start W" using l lt by (simp_all add: word_less_nat_alt u)
qed

lemma bmblk_inj:
  assumes "fs_geom st W" "b < nblk W" "c < nblk W"
  shows "bmblk W b = bmblk W c \<longleftrightarrow> b div BPB = c div BPB"
  using bmblk_unat(1) [OF assms(1,2)] bmblk_unat(1) [OF assms(1,3)] by (auto simp: word_unat_eq_iff)

lemma free_block:
  assumes "fs_geom st W" "b < nblk W" "\<not> used W b"
  shows "unat (of_nat b :: uint) = b" "(of_nat b :: uint) < st" "data_start W \<le> b" "(of_nat b :: uint) \<noteq> 1"
    "c < nblk W \<Longrightarrow> (of_nat b :: uint) \<noteq> bmblk W c"
proof -
  have d: "data_start W \<le> b" "b < unat st" using assms by (auto simp: fs_geom_def)
  have u: "unat (of_nat b :: uint) = b" using assms(2) unsigned_less [of "sb_size (sb_of (W 1))", where ?'a = nat] by (intro unat_of_nat_small) simp
  then show "unat (of_nat b :: uint) = b" "(of_nat b :: uint) < st" "data_start W \<le> b" using d by (simp_all add: word_less_nat_alt)
  have "3 < b" using d(1) by (simp add: data_start_def)
  then show "(of_nat b :: uint) \<noteq> 1" using u by (metis nat_less_le not_less one_less_numeral_iff semiring_norm(77) unat_1)
  show "(of_nat b :: uint) \<noteq> bmblk W c" if "c < nblk W" using bmblk_unat(4) [OF assms(1) that] d(1) u by auto
qed


section \<open>Room in a transaction\<close>

text \<open>The running transaction has room to log \<open>n\<close> more blocks.\<close>

definition room :: "'z log_st_scheme \<Rightarrow> (uint \<rightharpoonup> nat) \<Rightarrow> uint set \<Rightarrow> nat \<Rightarrow> bool" where
  "room s H D n \<longleftrightarrow> lbusy s \<and> finite (dom H) \<and> finite D \<and> card D + n \<le> log_budget s \<and> card (dom H \<union> D) + n < NBUF"

lemma room_frame: "blk_frame s t \<Longrightarrow> room t H D n = room s H D n"
  using lg.frame_same [of s t] by (simp add: room_def)

lemma room_log: "room s H D (Suc n) \<Longrightarrow> room s H (insert k D) n"
  by (auto simp: room_def card_insert_if Un_insert_right)

lemma room_hold: "room s H D (Suc n) \<Longrightarrow> room s (H(k \<mapsto> b)) D n"
  by (auto simp: room_def card_insert_if)

lemma room_drop: "room s (H(k \<mapsto> b)) D n \<Longrightarrow> H k = None \<Longrightarrow> room s H D n"
proof -
  assume r: "room s (H(k \<mapsto> b)) D n" and k: "H k = None"
  then have "finite (dom H \<union> D)" "card (dom H \<union> D) \<le> card (insert k (dom H \<union> D))" by (auto simp: room_def card_insert_if)
  then show ?thesis using r by (auto simp: room_def)
qed

lemma room_le: "room s H D n \<Longrightarrow> m \<le> n \<Longrightarrow> room s H D m"
  by (simp add: room_def)

text \<open>The block operations of \<^verbatim>\<open>fs.c\<close>, with the bookkeeping of room.\<close>

lemma fs_bread:
  assumes "blk_ok s W H D U" "room s H D n" "k < lstart s" "H k = None"
  shows "wp (bread 1 k) (\<lambda>b t. blk_ok t W (H(k \<mapsto> b)) D U \<and> blk_frame s t) s"
  using assms by (intro lg.rd_ok) (auto simp: room_def)

lemma fs_change:
  assumes "blk_ok s W (H(k \<mapsto> b)) D U" "H k = None" "k \<notin> U" "room s H D (Suc n)" "length (f (W k)) = 512"
  shows "wp (seqK (modK (\<lambda>s. set_buf_data b (f (buf_data b s)) s)) (seqK (log_write b) (brelse b)))
    (\<lambda>_ t. blk_ok t (W(k := f (W k))) H (insert k D) U \<and> blk_frame s t \<and> room t H (insert k D) n) s"
proof -
  have "wp (seqK (modK (\<lambda>s. set_buf_data b (f (buf_data b s)) s)) (seqK (log_write b) (brelse b)))
    (\<lambda>_ t. blk_ok t (W(k := f (W k))) H (insert k D) U \<and> blk_frame s t) s"
    using assms by (intro lg.change_block) (auto simp: room_def card_insert_if)
  then show ?thesis using room_log [OF assms(4), of k] by (auto simp: room_frame elim!: wp_mono)
qed

lemma fs_modify:
  assumes "blk_ok s W H D U" "k < lstart s" "H k = None" "room s H D (Suc n)" "length (f (W k)) = 512"
  shows "wp (bindK (bread 1 k) (\<lambda>b. seqK (modK (\<lambda>s. set_buf_data b (f (buf_data b s)) s)) (seqK (log_write b) (brelse b))))
    (\<lambda>_ t. blk_ok t (W(k := f (W k))) H (insert k D) U \<and> blk_frame s t \<and> room t H (insert k D) n) s"
proof -
  have "wp (bindK (bread 1 k) (\<lambda>b. seqK (modK (\<lambda>s. set_buf_data b (f (buf_data b s)) s)) (seqK (log_write b) (brelse b))))
    (\<lambda>_ t. blk_ok t (W(k := f (W k))) H (insert k D) U \<and> blk_frame s t) s"
    using assms by (intro lg.modify_block) (auto simp: room_def card_insert_if)
  then show ?thesis using room_log [OF assms(4), of k] by (auto simp: room_frame elim!: wp_mono)
qed

lemma bzero_law:
  assumes "blk_ok s W H D U" "k < lstart s" "H k = None" "room s H D (Suc n)"
  shows "wp (bzero 1 k) (\<lambda>_ t. blk_ok t (W(k := replicate 512 0)) H (insert k D) U \<and> blk_frame s t \<and> room t H (insert k D) n) s"
  using fs_modify [OF assms, of "\<lambda>_. replicate 512 0"] by (simp add: bzero_def)

lemma readsb_law:
  assumes "blk_ok s W H D U" "room s H D n" "1 < lstart s" "H 1 = None"
  shows "wp (readsb 1) (\<lambda>sb t. sb = sb_of (W 1) \<and> blk_ok t W H D U \<and> blk_frame s t) s"
  unfolding readsb_def by (rule lg.read_block) (use assms in \<open>auto simp: room_def\<close>)


section \<open>Allocating and freeing blocks\<close>

lemma find_least: "i < n \<Longrightarrow> P i \<Longrightarrow> \<forall>j < i. \<not> P j \<Longrightarrow> find P [0..<n] = Some i"
  by (auto simp: find_Some_iff intro!: exI [of _ i])

lemma used_in_block:
  assumes "fs_geom st W" "k * BPB + bi < nblk W" "bi < BPB"
  shows "used W (k * BPB + bi) \<longleftrightarrow> bm_get (W (bmblk W (k * BPB))) bi"
proof -
  have "bmblk W (k * BPB + bi) = bmblk W (k * BPB)" using assms by (subst bmblk_inj [OF assms(1)]) (auto simp: BPB_def)
  moreover have "(k * BPB + bi) mod BPB = bi" using assms(3) by (simp add: BPB_def)
  ultimately show ?thesis by (simp add: used_def)
qed

text \<open>No block of the file system's own metadata is pinned.\<close>

definition meta_free :: "dimg \<Rightarrow> (uint \<rightharpoonup> nat) \<Rightarrow> bool" where
  "meta_free W H \<longleftrightarrow> H 1 = None \<and> (\<forall>b < nblk W. H (bmblk W b) = None)"

lemma balloc_scan_miss:
  assumes R: "blk_ok s W H D U" "room s H D n" and G: "fs_geom (lstart s) W" and M: "meta_free W H"
    and k: "k * BPB < nblk W" and full: "\<forall>bi < BPB. k * BPB + bi < nblk W \<longrightarrow> used W (k * BPB + bi)"
  shows "wp (balloc_scan 1 (sb_of (W 1)) k) (\<lambda>r t. r = None \<and> blk_ok t W H D U \<and> blk_frame s t) s"
proof -
  let ?bb = "bmblk W (k * BPB)"
  have h: "H ?bb = None" using M k unfolding meta_free_def by blast
  then have hu: "?bb \<notin> U" using lg.unlogged [OF R(1)] by blast
  have f: "find (\<lambda>bi. \<not> bm_get (W ?bb) bi) [0..<min BPB (nblk W - k * BPB)] = None"
    using full used_in_block [OF G, of k] by (auto simp: find_None_iff)
  show ?thesis unfolding balloc_scan_def Let_def
    using fs_bread [OF R bmblk_unat(2) [OF G k] h]
  proof (simp only: wp_bindK wp_getK, elim wp_mono conjE)
    fix b t assume t: "blk_ok t W (H(?bb \<mapsto> b)) D U" "blk_frame s t"
    have "buf_data b t = W ?bb" by (rule lg.gt_ok [OF t(1)]) simp
    with f lg.drop_block [OF t(1) h hu]
    show "wp (case find (\<lambda>bi. \<not> bm_get (buf_data b t) bi) [0..<min BPB (nblk W - k * BPB)] of
         Some bi \<Rightarrow>
           seqK (modK (\<lambda>s. set_buf_data b (bm_set bi (buf_data b s)) s))
          (seqK (log_write b) (seqK (brelse b) (seqK (bzero 1 (of_nat (k * BPB + bi))) (ret (Some (of_nat (k * BPB + bi)))))))
       | None \<Rightarrow> seqK (brelse b) (ret None)) (\<lambda>r t. r = None \<and> blk_ok t W H D U \<and> blk_frame s t) t"
      by (auto simp: wp_seqK wp_ret elim!: wp_mono intro: blk_frame_trans [OF t(2)])
  qed
qed

text \<open>The image after block \<open>b\<close> was marked and zeroed.\<close>

definition alloc_img :: "nat \<Rightarrow> dimg \<Rightarrow> dimg" where
  "alloc_img b W = W(bmblk W b := bm_set (b mod BPB) (W (bmblk W b)), of_nat b := replicate 512 0)"

lemma balloc_scan_hit:
  assumes R: "blk_ok s W H D U" "room s H D (Suc (Suc n))" and G: "fs_geom (lstart s) W" and M: "meta_free W H"
    and b: "b < nblk W" "\<not> used W b" "\<forall>j < b. used W j" "H (of_nat b) = None"
  shows "wp (balloc_scan 1 (sb_of (W 1)) (b div BPB)) (\<lambda>r t. r = Some (of_nat b)
     \<and> blk_ok t (alloc_img b W) H (insert (of_nat b) (insert (bmblk W b) D)) U \<and> blk_frame s t
     \<and> room t H (insert (of_nat b) (insert (bmblk W b) D)) n) s"
proof -
  let ?k = "b div BPB" and ?bi = "b mod BPB"
  have e: "?k * BPB + ?bi = b" by simp
  have k: "?k * BPB < nblk W" "?bi < BPB" using b(1) e by (linarith, simp add: BPB_def)
  let ?bb = "bmblk W (?k * BPB)"
  have bb: "?bb = bmblk W b" using k by (subst bmblk_inj [OF G k(1) b(1)]) (simp add: BPB_def)
  have h: "H ?bb = None" using M k unfolding meta_free_def by blast
  then have hu: "?bb \<notin> U" using lg.unlogged [OF R(1)] by blast
  have len: "length (W ?bb) = 512" by (rule lg.blk_len [OF R(1) bmblk_unat(2) [OF G k(1)]])
  have f: "find (\<lambda>bi. \<not> bm_get (W ?bb) bi) [0..<min BPB (nblk W - ?k * BPB)] = Some ?bi"
  proof (rule find_least)
    show "?bi < min BPB (nblk W - ?k * BPB)" using k b(1) e by linarith
    show "\<not> bm_get (W ?bb) ?bi" using used_in_block [OF G, of ?k ?bi] k b e by simp
    show "\<forall>j < ?bi. \<not> \<not> bm_get (W ?bb) j"
    proof (intro allI impI)
      fix j assume j: "j < ?bi"
      then have "?k * BPB + j < b" "j < BPB" using e k(2) by linarith+
      then show "\<not> \<not> bm_get (W ?bb) j" using used_in_block [OF G, of ?k j] b(1,3) by simp
    qed
  qed
  have fb: "(of_nat b :: uint) < lstart s" by (rule free_block [OF G b(1,2)])
  have W': "(W(?bb := bm_set ?bi (W ?bb)))(of_nat b := replicate 512 0) = alloc_img b W" unfolding alloc_img_def bb ..
  show ?thesis unfolding balloc_scan_def Let_def
    using fs_bread [OF R bmblk_unat(2) [OF G k(1)] h]
  proof (simp only: wp_bindK wp_getK, elim wp_mono conjE)
    fix p t assume t: "blk_ok t W (H(?bb \<mapsto> p)) D U" "blk_frame s t"
    have g: "buf_data p t = W ?bb" by (rule lg.gt_ok [OF t(1)]) simp
    have r: "room t H D (Suc (Suc n))" using R(2) t(2) by (simp add: room_frame)
    have c: "wp (seqK (modK (\<lambda>s. set_buf_data p (bm_set ?bi (buf_data p s)) s)) (seqK (log_write p) (brelse p)))
      (\<lambda>_ u. blk_ok u (W(?bb := bm_set ?bi (W ?bb))) H (insert ?bb D) U \<and> blk_frame t u \<and> room u H (insert ?bb D) (Suc n)) t"
      by (rule fs_change [OF t(1) h hu r]) (simp only: bm_length len)
    have z: "wp (seqK (bzero 1 (of_nat b)) (ret (Some (of_nat b)))) (\<lambda>r v. r = Some (of_nat b)
     \<and> blk_ok v (alloc_img b W) H (insert (of_nat b) (insert (bmblk W b) D)) U \<and> blk_frame s v
     \<and> room v H (insert (of_nat b) (insert (bmblk W b) D)) n) u"
      if "blk_ok u (W(?bb := bm_set ?bi (W ?bb))) H (insert ?bb D) U" "blk_frame t u" "room u H (insert ?bb D) (Suc n)" for u
    proof -
      have "lstart u = lstart s" using lg.frame_same [OF blk_frame_trans [OF t(2) that(2)]] by simp
      then have "wp (bzero 1 (of_nat b)) (\<lambda>_ v. blk_ok v (alloc_img b W) H (insert (of_nat b) (insert ?bb D)) U \<and> blk_frame u v
          \<and> room v H (insert (of_nat b) (insert ?bb D)) n) u"
        using bzero_law [OF that(1) _ b(4) that(3)] fb W' by simp
      then show ?thesis unfolding bb [symmetric] wp_seqK wp_ret
        by (rule wp_mono) (auto intro: blk_frame_trans [OF blk_frame_trans [OF t(2) that(2)]])
    qed
    show "wp (case find (\<lambda>bi. \<not> bm_get (buf_data p t) bi) [0..<min BPB (nblk W - ?k * BPB)] of
         Some bi \<Rightarrow>
           seqK (modK (\<lambda>s. set_buf_data p (bm_set bi (buf_data p s)) s))
          (seqK (log_write p) (seqK (brelse p) (seqK (bzero 1 (of_nat (?k * BPB + bi))) (ret (Some (of_nat (?k * BPB + bi)))))))
       | None \<Rightarrow> seqK (brelse p) (ret None)) (\<lambda>r t. r = Some (of_nat b)
     \<and> blk_ok t (alloc_img b W) H (insert (of_nat b) (insert (bmblk W b) D)) U \<and> blk_frame s t
     \<and> room t H (insert (of_nat b) (insert (bmblk W b) D)) n) t"
      using c z unfolding g f e option.case wp_seqK by (elim wp_mono) blast
  qed
qed


lemma alloc_img_sb:
  assumes "fs_geom st W" "b < nblk W" "\<not> used W b"
  shows "alloc_img b W 1 = W 1" "nblk (alloc_img b W) = nblk W" "bmblk (alloc_img b W) c = bmblk W c"
proof -
  have "bmblk W b \<noteq> 1" using bmblk_unat(3) [OF assms(1,2)] by auto
  then show "alloc_img b W 1 = W 1" using free_block(4) [OF assms] by (simp add: alloc_img_def)
  then show "nblk (alloc_img b W) = nblk W" "bmblk (alloc_img b W) c = bmblk W c" by simp_all
qed

lemma used_alloc:
  assumes "fs_geom st W" "b < nblk W" "\<not> used W b" "length (W (bmblk W b)) = 512" "c < nblk W"
  shows "used (alloc_img b W) c \<longleftrightarrow> c = b \<or> used W c"
proof -
  have "alloc_img b W (bmblk W c) = (if c div BPB = b div BPB then bm_set (b mod BPB) (W (bmblk W b)) else W (bmblk W c))"
    using free_block(5) [OF assms(1-3,5)] bmblk_inj [OF assms(1,5,2)] by (auto simp: alloc_img_def)
  moreover have "bmblk W c = bmblk W b" if "c div BPB = b div BPB" using that bmblk_inj [OF assms(1,5,2)] by simp
  moreover have "c = b \<longleftrightarrow> c div BPB = b div BPB \<and> c mod BPB = b mod BPB" by (metis div_mult_mod_eq)
  moreover have "b mod BPB < 8 * 512" by (simp add: BPB_def)
  ultimately show ?thesis unfolding used_def alloc_img_sb [OF assms(1-3)] using assms(4) by (auto simp: bm_get_upd)
qed

lemma alloc_img_geom:
  assumes "fs_geom st W" "b < nblk W" "\<not> used W b" "length (W (bmblk W b)) = 512"
  shows "fs_geom st (alloc_img b W)" "meta_free (alloc_img b W) H = meta_free W H"
  using assms(1) used_alloc [OF assms]
  by (auto simp: fs_geom_def alloc_img_sb [OF assms(1-3)] data_start_def meta_free_def)

text \<open>\<^verbatim>\<open>balloc\<close> finds the first block that is not in use.\<close>

lemma balloc_law:
  assumes R: "blk_ok s W H D U" "room s H D (Suc (Suc n))" and G: "fs_geom (lstart s) W" and M: "meta_free W H"
    and b: "b < nblk W" "\<not> used W b" "\<forall>j < b. used W j" "H (of_nat b) = None"
  shows "wp (balloc 1) (\<lambda>r t. r = of_nat b
     \<and> blk_ok t (alloc_img b W) H (insert (of_nat b) (insert (bmblk W b) D)) U \<and> blk_frame s t
     \<and> room t H (insert (of_nat b) (insert (bmblk W b) D)) n) s"
proof -
  let ?m = "(nblk W + BPB - 1) div BPB" and ?k = "b div BPB" and ?sb = "sb_of (W 1)"
  let ?Q = "\<lambda>r t. r = of_nat b \<and> blk_ok t (alloc_img b W) H (insert (of_nat b) (insert (bmblk W b) D)) U \<and> blk_frame s t
     \<and> room t H (insert (of_nat b) (insert (bmblk W b) D)) n"
  let ?I = "\<lambda>t. blk_ok t W H D U \<and> blk_frame s t"
  have I: "room t H D (Suc (Suc n))" "fs_geom (lstart t) W" if "?I t" for t
    using that R(2) G lg.frame_same [of s t] by (simp_all add: room_def)
  have "b + BPB \<le> nblk W + BPB - 1" using b(1) by simp
  then have k: "?k < ?m" using div_le_mono [of "b + BPB" _ BPB] by (fastforce simp: BPB_def)
  then have up: "[0..<?m] = [0..<?k] @ ?k # [Suc ?k..<?m]" using upt_add_eq_append [of 0 ?k "?m - ?k"] by (simp add: upt_conv_Cons)
  have st: "1 < lstart s" "H 1 = None" using G M by (auto simp: fs_geom_def data_start_def word_less_nat_alt meta_free_def)
  have fnd: "wp (findK [0..<?m] (balloc_scan 1 ?sb)) (\<lambda>r t. \<exists>a. r = Some a \<and> ?Q a t) t" if "?I t" for t
    unfolding up
  proof (rule wp_findK [where I = ?I])
    fix x u assume x: "x \<in> set [0..<?k]" and u: "?I u"
    have xb: "x * BPB + BPB \<le> b" using x by (simp add: BPB_def)
    then show "wp (balloc_scan 1 ?sb x) (\<lambda>r v. r = None \<and> ?I v) u"
      using u I [OF u] b(1,3) blk_frame_trans [of s u]
      by (intro wp_mono [OF balloc_scan_miss [of u W H D U "Suc (Suc n)", OF _ _ _ M]]) (auto simp: BPB_def)
  next
    fix u assume u: "?I u"
    show "wp (balloc_scan 1 ?sb ?k) (\<lambda>r v. \<exists>a. r = Some a \<and> (\<exists>a'. Some a = Some a' \<and> ?Q a' v)) u"
      using u I [OF u] blk_frame_trans [of s u] by (intro wp_mono [OF balloc_scan_hit [of u W H D U n b, OF _ _ _ M b]]) auto
  qed (use that in simp)
  have "wp (readsb 1) (\<lambda>sb t. sb = ?sb \<and> ?I t) s" by (rule readsb_law [OF R st])
  then show ?thesis unfolding balloc_def wp_bindK
  proof (rule wp_mono, elim conjE)
    fix sb t assume sb: "sb = ?sb" and t: "blk_ok t W H D U" "blk_frame s t"
    from fnd [of t] t show "wp (findK [0..<(unat (sb_size sb) + BPB - 1) div BPB] (balloc_scan 1 sb))
        (\<lambda>r u. wp (case r of Some b \<Rightarrow> ret b | None \<Rightarrow> panic ''balloc: out of blocks'') ?Q u) t"
      unfolding sb by (auto simp: wp_ret elim!: wp_mono)
  qed
qed


definition free_img :: "nat \<Rightarrow> dimg \<Rightarrow> dimg" where
  "free_img b W = W(bmblk W b := bm_clear (b mod BPB) (W (bmblk W b)))"

lemma free_img_sb:
  assumes "fs_geom st W" "b < nblk W"
  shows "free_img b W 1 = W 1" "nblk (free_img b W) = nblk W" "bmblk (free_img b W) c = bmblk W c"
proof -
  have "bmblk W b \<noteq> 1" using bmblk_unat(3) [OF assms] by auto
  then show "free_img b W 1 = W 1" by (simp add: free_img_def)
  then show "nblk (free_img b W) = nblk W" "bmblk (free_img b W) c = bmblk W c" by simp_all
qed

lemma used_free:
  assumes "fs_geom st W" "b < nblk W" "length (W (bmblk W b)) = 512" "c < nblk W"
  shows "used (free_img b W) c \<longleftrightarrow> c \<noteq> b \<and> used W c"
proof -
  have "free_img b W (bmblk W c) = (if c div BPB = b div BPB then bm_clear (b mod BPB) (W (bmblk W b)) else W (bmblk W c))"
    using bmblk_inj [OF assms(1,4,2)] by (auto simp: free_img_def)
  moreover have "bmblk W c = bmblk W b" if "c div BPB = b div BPB" using that bmblk_inj [OF assms(1,4,2)] by simp
  moreover have "c = b \<longleftrightarrow> c div BPB = b div BPB \<and> c mod BPB = b mod BPB" by (metis div_mult_mod_eq)
  moreover have "b mod BPB < 8 * 512" by (simp add: BPB_def)
  ultimately show ?thesis unfolding used_def free_img_sb [OF assms(1,2)] using assms(3) by (auto simp: bm_get_upd)
qed

lemma bfree_runs:
  assumes R: "blk_ok s W H D U" "room s H D n" and G: "fs_geom (lstart s) W" and M: "meta_free W H" and b: "b < nblk W"
  obtains p t where "blk_ok t W (H(bmblk W b \<mapsto> p)) D U" "blk_frame s t"
    "bfree 1 (of_nat b) s = (if \<not> used W b then Panic ''freeing free block''
      else seqK (modK (set_buf_data p (bm_clear (b mod BPB) (buf_data p t)))) (seqK (log_write p) (brelse p)) t)"
proof -
  let ?bb = "bmblk W b"
  have st: "1 < lstart s" "H 1 = None" "H ?bb = None" using G M b by (auto simp: fs_geom_def data_start_def word_less_nat_alt meta_free_def)
  from readsb_law [OF R st(1,2)] obtain u where u: "readsb 1 s = Ok (sb_of (W 1)) u" "blk_ok u W H D U" "blk_frame s u"
    by (auto simp: wp_returns)
  have u2: "room u H D n" "?bb < lstart u" using R(2) room_frame [OF u(3)] bmblk_unat(2) [OF G b] lg.frame_same [OF u(3)] by simp_all
  from fs_bread [OF u(2) u2 st(3)] obtain p t where t: "bread 1 ?bb u = Ok p t" "blk_ok t W (H(?bb \<mapsto> p)) D U" "blk_frame u t"
    by (auto simp: wp_returns)
  have g: "buf_data p t = W ?bb" by (rule lg.gt_ok [OF t(2)]) simp
  have bu: "unat (of_nat b :: uint) = b" using b unsigned_less [of "sb_size (sb_of (W 1))", where ?'a = nat]
    by (intro unat_of_nat_small) simp
  show ?thesis
    by (rule that [OF t(2) blk_frame_trans [OF u(3) t(3)]])
       (use u(1) t(1) g bu in \<open>simp add: bfree_def run_Ok kdefs used_def Let_def\<close>)
qed

lemma bfree_law:
  assumes R: "blk_ok s W H D U" "room s H D (Suc n)" and G: "fs_geom (lstart s) W" and M: "meta_free W H" and b: "b < nblk W" "used W b"
  shows "wp (bfree 1 (of_nat b)) (\<lambda>_ t. blk_ok t (free_img b W) H (insert (bmblk W b) D) U \<and> blk_frame s t
    \<and> room t H (insert (bmblk W b) D) n) s"
proof -
  let ?bb = "bmblk W b"
  obtain p t where t: "blk_ok t W (H(?bb \<mapsto> p)) D U" "blk_frame s t"
    "bfree 1 (of_nat b) s = seqK (modK (set_buf_data p (bm_clear (b mod BPB) (buf_data p t)))) (seqK (log_write p) (brelse p)) t"
    by (rule bfree_runs [OF R G M b(1)]) (simp add: b(2))
  have h: "H ?bb = None" "?bb \<notin> U" using M b(1) lg.unlogged [OF R(1)] by (auto simp: meta_free_def)
  have "length (W ?bb) = 512" by (rule lg.blk_len [OF R(1) bmblk_unat(2) [OF G b(1)]])
  moreover have "room t H D (Suc n)" using R(2) room_frame [OF t(2)] by simp
  ultimately have "wp (seqK (modK (\<lambda>s. set_buf_data p (bm_clear (b mod BPB) (buf_data p s)) s)) (seqK (log_write p) (brelse p)))
    (\<lambda>_ u. blk_ok u (free_img b W) H (insert ?bb D) U \<and> blk_frame t u \<and> room u H (insert ?bb D) n) t"
    unfolding free_img_def using h by (intro fs_change [OF t(1)]) simp_all
  then show ?thesis using t(2,3) blk_frame_trans [OF t(2)] by (auto simp: wp_def kdefs split: res.splits)
qed

lemma balloc_full:
  assumes R: "blk_ok s W H D U" "room s H D n" and G: "fs_geom (lstart s) W" and M: "meta_free W H"
    and full: "\<forall>b < nblk W. used W b"
  shows "balloc 1 s = Panic ''balloc: out of blocks''"
proof -
  let ?m = "(nblk W + BPB - 1) div BPB" and ?sb = "sb_of (W 1)"
  let ?I = "\<lambda>t. blk_ok t W H D U \<and> blk_frame s t"
  have st: "1 < lstart s" "H 1 = None" using G M by (auto simp: fs_geom_def data_start_def word_less_nat_alt meta_free_def)
  from readsb_law [OF R st] obtain u where u: "readsb 1 s = Ok ?sb u" "?I u" by (auto simp: wp_returns)
  have "wp (findK [0..<?m] (balloc_scan 1 ?sb)) (\<lambda>r _. r = None) u"
  proof (rule wp_findK_none [where I = ?I])
    fix x t assume x: "x \<in> set [0..<?m]" and t: "?I t"
    have "x * BPB < nblk W" using x by (simp add: BPB_def)
    moreover have "room t H D n" "fs_geom (lstart t) W" using t R(2) G lg.frame_same [of s t] by (simp_all add: room_def)
    ultimately show "wp (balloc_scan 1 ?sb x) (\<lambda>r v. r = None \<and> ?I v) t"
      using t full blk_frame_trans [of s t]
      by (intro wp_mono [OF balloc_scan_miss [of t W H D U n, OF _ _ _ M]]) auto
  qed (use u in simp_all)
  then show ?thesis using u(1) by (auto simp: balloc_def run_Ok wp_returns panic_def)
qed




text \<open>A disk of 1024 blocks, of which the metadata (0 to 28) and the log (1014 to 1023) are in use.\<close>

definition bitmap0 :: "byte list" where
  "bitmap0 = replicate 3 (- 1) @ mask 5 # replicate 122 0 @ NOT (mask 6) # - 1 # replicate 384 0"

definition disk0 :: dimg where
  "disk0 = (\<lambda>_. replicate 512 0)(1 := put_words 0 [1024, 985, 200, 10] (replicate 512 0), 28 := bitmap0)"

lemma bitmap0_bits:
  assumes "b < 1024"
  shows "bm_get bitmap0 b \<longleftrightarrow> b < 29 \<or> 1014 \<le> b"
proof -
  let ?q = "b div 8" and ?r = "b mod 8"
  have e: "b = 8 * ?q + ?r" "?r < 8" "?q < 128" using assms by simp_all
  consider "?q < 3" | "?q = 3" | "3 < ?q \<and> ?q < 126" | "?q = 126" | "?q = 127" using e(3) by linarith
  then show ?thesis
  proof cases
    case 1
    then have "bitmap0 ! ?q = - 1" "b < 24" using e by (simp_all add: bitmap0_def nth_append)
    then show ?thesis using e(2) by (simp add: bm_get_bit)
  next
    case 2
    then have "bitmap0 ! ?q = mask 5" by (simp add: bitmap0_def nth_append)
    moreover have "b = 24 + ?r" using e 2 by simp
    ultimately show ?thesis using e(2) 2 by (simp add: bm_get_bit bit_simps) linarith
  next
    case 3
    then have "?q - 4 < 122" by linarith
    then have "bitmap0 ! ?q = 0" using 3 by (simp add: bitmap0_def nth_append nth_Cons')
    moreover have "32 \<le> b" "b < 1008" using 3 by linarith+
    ultimately show ?thesis by (simp add: bm_get_bit)
  next
    case 4
    then have "bitmap0 ! ?q = NOT (mask 6)" by (simp add: bitmap0_def nth_append nth_Cons')
    then show ?thesis using e 4 by (auto simp: bm_get_bit bit_simps)
  next
    case 5
    then have "bitmap0 ! ?q = - 1" by (simp add: bitmap0_def nth_append nth_Cons')
    then show ?thesis using e 5 by (simp add: bm_get_bit)
  qed
qed

lemma disk0_blocks:
  shows "disk0 1 = put_words 0 [1024, 985, 200, 10] (replicate 512 0)" "disk0 1014 = replicate 512 0" "length (disk0 k) = 512"
    "sb_of (disk0 1) = \<lparr>sb_size = 1024, sb_nblocks = 985, sb_ninodes = 200, sb_nlog = 10\<rparr>"
  by (simp_all add: disk0_def bitmap0_def sb_of_def get_put_other)

lemma disk0_used:
  shows "nblk disk0 = 1024" "b < 1024 \<Longrightarrow> used disk0 b \<longleftrightarrow> b < 29 \<or> 1014 \<le> b" "fs_geom 1014 disk0"
proof -
  show n: "nblk disk0 = 1024" by (simp add: disk0_blocks(4))
  have "bmblk disk0 b = 28" if "b < 1024" for b
  proof -
    have "unat (of_nat b :: uint) = b" using that by (intro unat_of_nat_small) simp
    then have "unat ((of_nat b :: uint) div of_nat BPB) = 0" using that by (simp add: unat_div BPB_def)
    then show ?thesis by (simp add: BBLOCK_def disk0_blocks(4) IPB_def unat_eq_0)
  qed
  then show u: "used disk0 b \<longleftrightarrow> b < 29 \<or> 1014 \<le> b" if "b < 1024" for b
    using that bitmap0_bits [of b] by (simp add: used_def BPB_def) (simp add: disk0_def)
  show "fs_geom 1014 disk0" using u by (auto simp: fs_geom_def n data_start_def disk0_blocks(4) BPB_def IPB_def)
qed

lemma disk0_running:
  fixes s :: "'z log_st_scheme"
  assumes "log_fresh s" "disk s = disk0"
  obtains t where "blk_ok t disk0 Map.empty {} {}" "room t Map.empty {} 9" "lstart t = 1014" "idle t"
    "\<exists>c l. t = s\<lparr>bcache := c, locks := l, lbusy := True\<rparr>"
proof -
  have d: "disk s 1 = put_words 0 [1024, 985, 200, 10] (replicate 512 0)" "disk s 1014 = replicate 512 0" "\<forall>k < 1024. length (disk s k) = 512"
    using disk0_blocks by (simp_all add: assms(2))
  obtain u where u: "log_ok u (disk u) Map.empty {}" "\<exists>c l. u = s\<lparr>bcache := c, locks := l\<rparr>" "lstart u = 1014" "lsize u = 10" "disk u = disk s"
    "idle u" "lh_list u = []" by (rule log_boot_disk [OF assms(1) d])
  show ?thesis
  proof (rule that [of "u\<lparr>lbusy := True\<rparr>"])
    show "blk_ok (u\<lparr>lbusy := True\<rparr>) disk0 Map.empty {} {}" using blk_ok_begin [OF u(1)] u(5,7) by (simp add: assms(2))
    show "\<exists>c l. u\<lparr>lbusy := True\<rparr> = s\<lparr>bcache := c, locks := l, lbusy := True\<rparr>" using u(2) by auto
    show "idle (u\<lparr>lbusy := True\<rparr>)" using u(6) by (simp add: idle_def free_lock_def)
  qed (use u in \<open>simp_all add: room_def log_budget_def NBUF_def\<close>)
qed


end
