(* ===== verification/Filedata.thy ===== *)
theory Filedata
  imports Fsdata
begin

text \<open>
  File contents in \<^verbatim>\<open>kernel/fs.c\<close>: what \<^verbatim>\<open>bmap\<close>, \<^verbatim>\<open>readi\<close> and \<^verbatim>\<open>writei\<close> do to the bytes of a file, over the block layer inside a
  transaction (\<open>Fsdata\<close>) and the file as a map of blocks (\<open>Blkmap\<close>).
\<close>

section \<open>An inode in memory\<close>

text \<open>
  A change of the inode cache is not seen by the block layer, and the block layer does not touch the inode cache.
\<close>

lemma blk_ok_icache [simp]: "blk_ok (s\<lparr>icache := f\<rparr>) W H D U = blk_ok s W H D U"
  by (simp add: blk_ok_def log_ok_def bio_ok_def bio_ready_def bio_rep_def bio_inv_def log_inv_def log_geom_def lh_list_def
      settled_def mach_ok_def free_lock_def caches_def)

lemma blk_frame_icache: "blk_frame s t \<Longrightarrow> icache t = icache s"
  by (auto simp: blk_frame_def elim!: log_frameE)

lemma blk_frame_upd: "blk_frame s t \<Longrightarrow> blk_frame (s\<lparr>icache := f\<rparr>) (t\<lparr>icache := f\<rparr>)"
proof -
  assume b: "blk_frame s t"
  then have "log_frame (s\<lparr>icache := f\<rparr>) (t\<lparr>icache := f\<rparr>)"
  proof (unfold blk_frame_def, elim conjE log_frameE)
    fix p c d w b n xs assume a: "woken (ptable s) p"
      "t = s\<lparr>ptable := p, bcache := c, disk := d, whist := w, lbusy := b, lh_n := n, lh_sector := xs\<rparr>"
    have e: "s\<lparr>ptable := p, bcache := c, disk := d, whist := w, lbusy := b, lh_n := n, lh_sector := xs, icache := f\<rparr>
       = s\<lparr>icache := f, ptable := p, bcache := c, disk := d, whist := w, lbusy := b, lh_n := n, lh_sector := xs\<rparr>"
      by (rule fs_st.equality) simp_all
    show ?thesis unfolding a(2) e by (rule log_frameI) (simp add: a(1))
  qed
  then show ?thesis using b by (simp add: blk_frame_def log_only_def)
qed

definition with_ino :: "nat \<Rightarrow> (uint list \<times> uint) \<Rightarrow> 'z fs_st_scheme \<Rightarrow> 'z fs_st_scheme" where
  "with_ino i = (\<lambda>(as, z) s. s\<lparr>icache := (icache s)(i := (icache s i)\<lparr>addrs := as, isize := z\<rparr>)\<rparr>)"

definition ino_frame :: "nat \<Rightarrow> 'z fs_st_scheme \<Rightarrow> 'z fs_st_scheme \<Rightarrow> bool" where
  "ino_frame i s t \<longleftrightarrow> (\<exists>x. blk_frame (with_ino i x s) t)"

lemma with_ino_self: "with_ino i (addrs (icache s i), isize (icache s i)) s = s"
  by (simp add: with_ino_def)

lemma blk_ino_frame: "blk_frame s t \<Longrightarrow> ino_frame i s t"
  unfolding ino_frame_def by (metis with_ino_self)

lemma ino_frame_blk: "ino_frame i s t \<Longrightarrow> blk_frame t u \<Longrightarrow> ino_frame i s u"
  unfolding ino_frame_def by (blast intro: blk_frame_trans)

lemma ino_frame_upd: "ino_frame i s t \<Longrightarrow> ino_frame i s (with_ino i x t)"
proof -
  assume "ino_frame i s t"
  then obtain y where y: "blk_frame (with_ino i y s) t" by (auto simp: ino_frame_def)
  let ?f = "icache (with_ino i x t)"
  have e: "icache t = icache (with_ino i y s)" by (rule blk_frame_icache [OF y])
  have "blk_frame ((with_ino i y s)\<lparr>icache := ?f\<rparr>) (t\<lparr>icache := ?f\<rparr>)" by (rule blk_frame_upd [OF y])
  moreover have "t\<lparr>icache := ?f\<rparr> = with_ino i x t" by (cases x) (simp add: with_ino_def)
  moreover have "(with_ino i y s)\<lparr>icache := ?f\<rparr> = with_ino i x s" using e by (cases x, cases y) (simp add: with_ino_def)
  ultimately show ?thesis unfolding ino_frame_def by metis
qed

lemma ino_frame_trans: "ino_frame i s t \<Longrightarrow> ino_frame i t u \<Longrightarrow> ino_frame i s u"
  using ino_frame_upd ino_frame_blk unfolding ino_frame_def [of i t u] by metis

lemma ino_frame_same: "ino_frame i s t \<Longrightarrow> lstart t = lstart s \<and> log_budget t = log_budget s \<and> lbusy t = lbusy s"
  unfolding ino_frame_def using lg.frame_same [of "with_ino i _ s" t] by (auto simp: with_ino_def log_budget_def)


text \<open>
  A well-formed file of an image whose bitmap is one block, all blocks of the file being in use and below the log; and the inode
  \<open>i\<close> in memory being that file.
\<close>

definition file_in :: "uint \<Rightarrow> dimg \<Rightarrow> dinode \<Rightarrow> bool" where
  "file_in st W di \<longleftrightarrow> file_wf W di \<and> fs_geom st W \<and> nblk W \<le> BPB
     \<and> (\<forall>x \<in> fblocks W di. x < st \<and> data_start W \<le> unat x \<and> unat x < nblk W \<and> used W (unat x))"

definition ino_ok :: "'z fs_st_scheme \<Rightarrow> nat \<Rightarrow> dimg \<Rightarrow> dinode \<Rightarrow> bool" where
  "ino_ok s i W di \<longleftrightarrow> idev (icache s i) = 1 \<and> dinode_of (icache s i) = di \<and> file_in (lstart s) W di"

lemma ino_ok_frame: "ino_ok s i W di \<Longrightarrow> blk_frame s t \<Longrightarrow> ino_ok t i W di"
  using lg.frame_same [of s t] by (simp add: ino_ok_def blk_frame_icache)

lemma file_in_blk:
  assumes "file_in st W di" "x \<in> fblocks W di"
  shows "x < st" "x \<noteq> 1" "c < nblk W \<Longrightarrow> x \<noteq> bmblk W c" "length (W x) = 512"
proof -
  have x: "x < st" "data_start W \<le> unat x" "fs_geom st W" "file_wf W di" using assms by (auto simp: file_in_def)
  then show "x < st" "length (W x) = 512" using assms(2) by (auto simp: file_wf_def)
  have "3 < data_start W" by (simp add: data_start_def)
  then show "x \<noteq> 1" using x(2) by auto
  show "c < nblk W \<Longrightarrow> x \<noteq> bmblk W c" using bmblk_unat(4) [OF x(3), of c] x(2) by auto
qed

lemma ino_ok_file: "ino_ok s i W di \<Longrightarrow> file_in (lstart s) W di"
  by (simp add: ino_ok_def)

lemma bmap_hit:
  assumes R: "blk_ok s W H D U" and I: "ino_ok s i W di" and h: "\<forall>x \<in> fblocks W di. H x = None" and c: "card (dom H \<union> D) < NBUF"
    and n: "n < MAXFILE" "blkno W di n \<noteq> 0"
  shows "wp (bmap i (of_nat n)) (\<lambda>a t. a = blkno W di n \<and> blk_ok t W H D U \<and> blk_frame s t) s"
proof -
  let ?p = "icache s i"
  have p: "idev ?p = 1" "addrs ?p = di_addrs di" using I by (auto simp: ino_ok_def dinode_of_def)
  have u: "unat (of_nat n :: uint) = n" using n(1) by (intro unat_of_nat_small) (simp add: MAXFILE_def NDIRECT_def NINDIRECT_def)
  show ?thesis
  proof (cases "n < NDIRECT")
    case True
    then show ?thesis using n p u R by (simp add: bmap_def wp_rules blkno_def lg.frame_refl)
  next
    case False
    let ?i = "di_addrs di ! NDIRECT" and ?j = "n - NDIRECT"
    have ind: "?i \<noteq> 0" "blkno W di n = get32 (4 * ?j) (W ?i)" using n False by (auto simp: blkno_def split: if_splits)
    have ix: "?i \<in> fblocks W di" by (rule fblocksI(2) [OF ind(1)])
    have j: "?j < NINDIRECT" using n(1) False by (simp add: MAXFILE_def)
    have "wp (bindK (bread 1 ?i) (\<lambda>b. bindK (getK (buf_data b)) (\<lambda>d. seqK (brelse b) (ret (get32 (4 * ?j) d)))))
      (\<lambda>r t. r = get32 (4 * ?j) (W ?i) \<and> blk_ok t W H D U \<and> blk_frame s t) s"
      using file_in_blk(1) [OF ino_ok_file [OF I] ix] h ix c by (intro lg.read_block [OF R]) auto
    then have "wp (bread 1 ?i) (\<lambda>b t. wp (brelse b) (\<lambda>_ u. get32 (4 * ?j) (buf_data b t) = blkno W di n \<and> blk_ok u W H D U \<and> blk_frame s u) t) s"
      unfolding ind(2) by (simp add: wp_bindK wp_getK wp_seqK wp_ret)
    then show ?thesis using False u j ind p n
      by (simp add: bmap_def bmap_ind_def wp_rules Let_def) (auto elim!: wp_mono simp: wp_def split: res.splits)
  qed
qed

section \<open>Reading a file\<close>

lemma off_words:
  assumes "x < 2 ^ 31"
  shows "unat (of_nat x :: uint) = x" "unat ((of_nat x :: uint) mod 512) = x mod 512" "(of_nat x :: uint) div 512 = of_nat (x div 512)"
proof -
  show u: "unat (of_nat x :: uint) = x" using assms by (intro unat_of_nat_small) simp
  then show "unat ((of_nat x :: uint) mod 512) = x mod 512" by (simp add: unat_mod)
  have "unat ((of_nat x :: uint) div 512) = x div 512" using u by (simp add: unat_div)
  then show "(of_nat x :: uint) div 512 = of_nat (x div 512)" by (metis of_nat_unat ucast_id)
qed

lemma chunk_unat:
  assumes "k \<le> n" "n < 2 ^ 31" "x < 2 ^ 31"
  shows "unat (chunk (of_nat n) (of_nat k) (of_nat x)) = min (n - k) (512 - x mod 512)"
proof -
  have nk: "(of_nat n :: uint) - of_nat k = of_nat (n - k)" using assms(1) by (simp add: of_nat_diff)
  have a: "unat ((of_nat n :: uint) - of_nat k) = n - k" unfolding nk by (rule off_words(1)) (use assms(2) in simp)
  have "x mod 512 < 512" by simp
  then have "unat (512 - (of_nat x :: uint) mod 512) = 512 - x mod 512" using off_words(2) [OF assms(3)]
    by (subst unat_sub) (simp_all add: word_le_nat_alt)
  with a show ?thesis by (simp add: chunk_def min_def word_le_nat_alt)
qed

lemma slice_contents:
  assumes w: "file_wf W di" and m: "x mod 512 + m \<le> 512" "x + m \<le> length (contents W di)" "0 < m"
  shows "slice (x mod 512) m (W (blkno W di (x div 512))) = slice x m (contents W di)"
proof (rule nth_equalityI)
  have l: "length (contents W di) = unat (di_size di)" by (simp add: contents_def)
  have "x < unat (di_size di)" using m l by simp
  note b = file_wf_blk [OF w this]
  then have "blkno W di (x div 512) \<in> fblocks W di" by (intro fblocksI(1)) auto
  then have L: "length (W (blkno W di (x div 512))) = 512" using w by (simp add: file_wf_def)
  show "length (slice (x mod 512) m (W (blkno W di (x div 512)))) = length (slice x m (contents W di))" using L m by simp
  fix j assume "j < length (slice (x mod 512) m (W (blkno W di (x div 512))))"
  then have j: "j < m" by simp
  have e: "x = 512 * (x div 512) + x mod 512" by simp
  have d: "(x + j) div 512 = x div 512"
  proof (rule div_nat_eqI)
    show "512 * (x div 512) \<le> x + j" "x + j < 512 * Suc (x div 512)" using e m(1) j unfolding mult_Suc_right by linarith+
  qed
  then have md: "(x + j) mod 512 = x mod 512 + j" using e div_mult_mod_eq [of "x + j" 512] by linarith
  show "slice (x mod 512) m (W (blkno W di (x div 512))) ! j = slice x m (contents W di) ! j"
    using j m L l d md by (simp add: nth_slice contents_def fbyte_def)
qed

lemma readi_loop_law:
  fixes s :: "'a fs_st_scheme"
  assumes R: "blk_ok s W H D U" and I: "ino_ok s i W di" and h: "\<forall>x \<in> fblocks W di. H x = None" and c: "card (dom H \<union> D) < NBUF"
    and n: "off + n \<le> length (contents W di)"
  shows "wp (readi_loop i None (of_nat off) (of_nat n)) (\<lambda>out t. out = slice off n (contents W di) \<and> blk_ok t W H D U \<and> blk_frame s t) s"
proof -
  let ?C = "contents W di"
  let ?I = "\<lambda>(tot :: uint, x :: uint, out) t. \<exists>k \<le> n. tot = of_nat k \<and> x = of_nat (off + k) \<and> out = slice off k ?C \<and> blk_ok t W H D U \<and> blk_frame s t"
  let ?m = "\<lambda>(c :: uint \<times> uint \<times> byte list) (t :: 'a fs_st_scheme). n - unat (fst c)"
  have w: "file_wf W di" using I by (simp add: ino_ok_def file_in_def)
  have l: "length ?C = unat (di_size di)" by (simp add: contents_def)
  have "unat (di_size di) \<le> MAXFILE * 512" using w by (simp add: file_wf_def)
  then have small: "off + n < 2 ^ 31" using n l by (simp add: MAXFILE_def NDIRECT_def NINDIRECT_def)
  show ?thesis unfolding readi_loop_def
  proof (rule wp_loopK [where I = ?I and m = ?m])
    show "?I (0, of_nat off, []) s" using R lg.frame_refl by (auto simp: slice_def intro!: exI [of _ 0])
    fix q and t :: "'a fs_st_scheme" assume "?I q t"
    then obtain k where q: "q = (of_nat k, of_nat (off + k), slice off k ?C)" "k \<le> n" and t: "blk_ok t W H D U" "blk_frame s t" by (cases q) auto
    let ?x = "off + k"
    have kn: "unat (of_nat k :: uint) = k" "unat (of_nat n :: uint) = n" using q(2) small by (auto intro: off_words(1))
    have lt: "(of_nat k :: uint) < of_nat n \<longleftrightarrow> k < n" using kn by (simp add: word_less_nat_alt)
    show "wp (readi_step i None (of_nat n) q)
      (\<lambda>r u. case r of Inl c' \<Rightarrow> ?I c' u \<and> ?m c' u < ?m q t
        | Inr out \<Rightarrow> out = slice off n ?C \<and> blk_ok u W H D U \<and> blk_frame s u) t"
    proof (cases "k < n")
      case False
      then show ?thesis using q t lt by (simp add: readi_step_def wp_ret)
    next
      case True
      define m where "m = min (n - k) (512 - ?x mod 512)"
      have m: "0 < m" "k + m \<le> n" "?x mod 512 + m \<le> 512" using True by (auto simp: m_def)
      have x: "?x < unat (di_size di)" "?x < 2 ^ 31" using True n l small by simp_all
      note b = file_wf_blk [OF w x(1)]
      let ?b = "blkno W di (?x div 512)"
      have bx: "?b \<in> fblocks W di" using b by (intro fblocksI(1)) auto
      have It: "ino_ok t i W di" by (rule ino_ok_frame [OF I t(2)])
      have um: "unat (chunk (of_nat n) (of_nat k) (of_nat ?x)) = m" unfolding m_def by (rule chunk_unat) (use True small in auto)
      then have cm: "chunk (of_nat n) (of_nat k) (of_nat ?x) = of_nat m" by (metis of_nat_unat ucast_id)
      have mu: "unat (of_nat m :: uint) = m" using um cm by simp
      have dv: "idev (icache u i) = 1" if "blk_frame t u" for u using It blk_frame_icache [OF that] by (simp add: ino_ok_def)
      have rd: "wp (bindK (bread 1 ?b) (\<lambda>bp. bindK (getK (buf_data bp)) (\<lambda>d. seqK (brelse bp) (ret (slice (?x mod 512) m d)))))
         (\<lambda>r v. r = slice (?x mod 512) m (W ?b) \<and> blk_ok v W H D U \<and> blk_frame u v) u" if u: "blk_ok u W H D U" "blk_frame t u" for u
        using file_in_blk(1) [OF ino_ok_file [OF ino_ok_frame [OF It u(2)]] bx] h bx c by (intro lg.read_block [OF u(1)]) auto
      have sl: "slice (?x mod 512) m (W ?b) = slice ?x m ?C" by (rule slice_contents [OF w m(3)]) (use m n in auto)
      have ap: "slice off k ?C @ slice ?x m ?C = slice off (k + m) ?C" by (simp add: slice_def take_add add.commute)
      have fin: "?I (of_nat k + of_nat m, of_nat ?x + of_nat m, slice off k ?C @ slice ?x m ?C) v
          \<and> ?m (of_nat k + of_nat m, of_nat ?x + of_nat m, slice off k ?C @ slice ?x m ?C) v < ?m q t"
        if "blk_ok v W H D U" "blk_frame u v" "blk_frame t u" for u v
      proof -
        have "unat (of_nat (k + m) :: uint) = k + m" by (rule off_words(1)) (use m(2) small in simp)
        then have "n - unat (of_nat k + of_nat m :: uint) < n - k" using m(1,2) by simp
        moreover have "blk_frame s v" using that t(2) blk_frame_trans by metis
        ultimately show ?thesis using m(2) that(1) kn(1) unfolding ap q(1) by (auto intro!: exI [of _ "k + m"] simp: add.assoc)
      qed
      show ?thesis unfolding q(1) readi_step_def prod.case using True lt b off_words(3) [OF x(2)] off_words(2) [OF x(2)]
        apply (simp add: wp_bindK Let_def wp_getK cm um put_dst_def adv_dst_def wp_seqK wp_ret del: of_nat_add)
        apply (rule wp_mono [OF bmap_hit [OF t(1) It h c]])
        apply simp
        apply simp
        apply (elim conjE)
        subgoal for a u using rd [of u] dv [of u]
          apply (simp add: wp_bindK wp_getK wp_seqK wp_ret del: of_nat_add)
          apply (erule wp_mono)
          apply (erule wp_mono)
          apply (elim conjE)
          subgoal for p v x w using fin [of w u] sl mu q(1) by (simp del: of_nat_add)
          done
        done
    qed
  qed
qed


text \<open>\<^verbatim>\<open>readi\<close> returns the bytes of the file from the offset on, at most \<open>n\<close>; an offset beyond the end is an error.\<close>

lemma readi_law:
  fixes s :: "'a fs_st_scheme"
  assumes R: "blk_ok s W H D U" and I: "ino_ok s i W di" and h: "\<forall>x \<in> fblocks W di. H x = None" and c: "card (dom H \<union> D) < NBUF"
    and ty: "di_type di \<noteq> T_DEV" and ov: "off + n < 2 ^ 32"
  shows "wp (readi i None (of_nat off) (of_nat n)) (\<lambda>(r, out) t. blk_ok t W H D U \<and> blk_frame s t
      \<and> (if length (contents W di) < off then r = - 1 \<and> out = [] else out = slice off n (contents W di) \<and> r = of_nat (length out))) s"
proof -
  let ?p = "icache s i" and ?L = "length (contents W di)"
  have p: "itype ?p = di_type di" "isize ?p = di_size di" using I by (auto simp: ino_ok_def dinode_of_def)
  have L: "unat (di_size di) = ?L" by (simp add: contents_def)
  have u: "unat (of_nat off :: uint) = off" "unat (of_nat (off + n) :: uint) = off + n"
    by (rule unat_of_nat_small, use ov in simp)+
  have g: "isize ?p < of_nat off \<longleftrightarrow> ?L < off" "\<not> of_nat off + of_nat n < (of_nat off :: uint)" "isize ?p < of_nat off + of_nat n \<longleftrightarrow> ?L < off + n"
    using u L p(2) by (simp_all add: word_less_nat_alt del: of_nat_add flip: of_nat_add)
  show ?thesis
  proof (cases "?L < off")
    case True
    then show ?thesis using g p ty R lg.frame_refl by (simp add: readi_def wp_rules)
  next
    case False
    let ?n = "min n (?L - off)"
    have n: "(if isize ?p < of_nat off + of_nat n then isize ?p - of_nat off else of_nat n) = (of_nat ?n :: uint)"
    proof (cases "?L < off + n")
      case True
      have "di_size di = of_nat ?L" using L by (metis of_nat_unat ucast_id)
      moreover have mn: "?n = ?L - off" using True by linarith
      ultimately show ?thesis using True False g(3) p(2) unfolding mn by (simp add: of_nat_diff)
    next
      case f: False
      then have "?n = n" by linarith
      then show ?thesis using f g(3) by simp
    qed
    have le: "off + ?n \<le> ?L" using False by simp
    have sl: "slice off ?n (contents W di) = slice off n (contents W di)" by (simp add: slice_def min_def)
    have "wp (readi_loop i None (of_nat off) (of_nat ?n)) (\<lambda>out t. out = slice off n (contents W di) \<and> blk_ok t W H D U \<and> blk_frame s t) s"
      using readi_loop_law [OF R I h c le] unfolding sl .
    then show ?thesis using g(1,2) p(1) ty False unfolding readi_def wp_bindK wp_getK Let_def n
      by (auto simp: wp_ret wp_bindK elim!: wp_mono)
  qed
qed

section \<open>A file gets a block of the free bitmap\<close>

definition nfree :: "dimg \<Rightarrow> nat" where
  "nfree W = card {c. c < nblk W \<and> \<not> used W c}"

lemma wrote_cong:
  assumes w: "wrote W0 di0 a d k W di" and c: "\<forall>x \<in> fblocks W di. V x = W x"
  shows "wrote W0 di0 a d k V di"
proof -
  have wf: "file_wf W di" using w by (simp add: wrote_def)
  have b: "blkno V di n = blkno W di n" if "n < MAXFILE" for n using file_cong(1) [OF c, of n] that by (simp add: fslot_def)
  have "fbyte V di j = fbyte W di j" if "j div 512 < MAXFILE" "blkno W di (j div 512) \<noteq> 0" for j
    using c fblocksI(1) [OF that] b [OF that(1)] by (simp add: fbyte_def)
  then show ?thesis using w b file_cong(3) [OF c wf] unfolding wrote_def by auto
qed

text \<open>The image and the inode after the free block \<open>b\<close> has become slot \<open>n\<close> of the file.\<close>

lemma alloc_slot_img:
  assumes f: "file_in st W di" and b: "b < nblk W" "\<not> used W b" and lb: "length (W (bmblk W 0)) = 512"
    and n: "n \<le> MAXFILE" "fslot W di n = 0" "n < NDIRECT \<or> n = MAXFILE \<or> di_addrs di ! NDIRECT \<noteq> 0"
  defines "x \<equiv> of_nat b" and "W' \<equiv> slot_img n (of_nat b) di (alloc_img b W)" and "di' \<equiv> slot_di n (of_nat b) di"
  shows "file_in st W' di'" "fblocks W' di' = insert x (fblocks W di)" "x \<notin> fblocks W di" "x \<noteq> 0" "unat x = b"
    "m < MAXFILE \<Longrightarrow> blkno W' di' m = (if m = n then x else blkno W di m)"
    "wrote W0 di0 a d k W di \<Longrightarrow> wrote W0 di0 a d k W' di'"
    "y \<notin> fblocks W' di' \<Longrightarrow> y \<noteq> bmblk W 0 \<Longrightarrow> W' y = W y"
    "c < nblk W \<Longrightarrow> used W' c \<longleftrightarrow> c = b \<or> used W c" "nfree W = Suc (nfree W')" "W' 1 = W 1" "bmblk W b = bmblk W 0"
proof -
  let ?V = "alloc_img b W"
  have G: "fs_geom st W" and wf: "file_wf W di" and one: "nblk W \<le> BPB" using f by (auto simp: file_in_def)
  have pos: "0 < nblk W" using b(1) by simp
  show bm: "bmblk W b = bmblk W 0" using b(1) one pos by (subst bmblk_inj [OF G b(1) pos]) simp
  have cb: "bmblk W c = bmblk W 0" if "c < nblk W" for c using that one pos by (subst bmblk_inj [OF G that pos]) simp
  note fr = free_block [OF G b]
  show ux: "unat x = b" using fr(1) by (simp add: x_def)
  have ds: "3 < data_start W" by (simp add: data_start_def)
  show x0: "x \<noteq> 0" using ux fr(3) ds by auto
  show xn: "x \<notin> fblocks W di" using f b(2) ux by (auto simp: file_in_def)
  have same: "?V y = W y" if "y \<noteq> x" "y \<noteq> bmblk W 0" for y using that bm by (simp add: alloc_img_def x_def)
  have agree: "\<forall>y \<in> fblocks W di. ?V y = W y" using file_in_blk(3) [OF f _ pos] xn by (metis same)
  have Vx: "?V x = replicate 512 0" by (simp add: alloc_img_def x_def)
  have fs: "fslot ?V di n = 0" using file_cong(1) [OF agree n(1)] n(2) by simp
  have fbV: "fblocks ?V di = fblocks W di" by (rule file_cong(2) [OF agree])
  note L = set_slot_law [OF file_cong(3) [OF agree wf] n(1) fs n(3) x0 _ Vx, unfolded fbV, OF xn, folded x_def W'_def di'_def]
  have W'def: "W' = slot_img n x di ?V" "di' = slot_di n x di" by (simp_all add: W'_def di'_def x_def)
  note L = L [unfolded x_def, folded W'_def di'_def, folded x_def]
  show fb: "fblocks W' di' = insert x (fblocks W di)" using L(1) .
  have bV: "blkno ?V di m = blkno W di m" if "m < MAXFILE" for m using file_cong(1) [OF agree, of m] that by (simp add: fslot_def)
  show "blkno W' di' m = (if m = n then x else blkno W di m)" if "m < MAXFILE" using L(4) [OF that] bV [OF that] by simp
  show "wrote W0 di0 a d k W' di'" if "wrote W0 di0 a d k W di"
    unfolding W'def by (rule wrote_slot [OF wrote_cong [OF that agree] n(1) fs n(3) x0 _ Vx]) (simp add: fbV xn)
  show out: "W' y = W y" if "y \<notin> fblocks W' di'" "y \<noteq> bmblk W 0" for y
    using that same [of y] L(7) [of y] fb by auto
  have n1: "(1 :: uint) \<notin> fblocks W' di'" "1 \<noteq> bmblk W 0" using fb file_in_blk(2) [OF f] fr(4) bmblk_unat(3) [OF G pos] by (auto simp: x_def)
  show W1: "W' 1 = W 1" by (rule out [OF n1])
  have bx: "bmblk W 0 \<notin> fblocks W' di'" using fb file_in_blk(3) [OF f _ pos] fr(5) [OF pos] by (auto simp: x_def)
  have "W' (bmblk W 0) = ?V (bmblk W 0)" using bx fb L(7) [of "bmblk W 0"] by auto
  then have uu: "used W' c = used ?V c" if "c < nblk W" for c
    using cb [OF that] alloc_img_sb(1) [OF G b] unfolding used_def W1 by simp
  show us: "used W' c \<longleftrightarrow> c = b \<or> used W c" if "c < nblk W" for c
    using uu [OF that] used_alloc [OF G b _ that] lb bm by simp
  have nb: "nblk W' = nblk W" "data_start W' = data_start W" unfolding data_start_def W1 by simp_all
  have "{c. c < nblk W \<and> \<not> used W c} = insert b {c. c < nblk W' \<and> \<not> used W' c}" using us b nb by auto
  moreover have "b \<notin> {c. c < nblk W' \<and> \<not> used W' c}" using us [OF b(1)] by simp
  ultimately show "nfree W = Suc (nfree W')" by (simp add: nfree_def)
  have "fs_geom st W'" using G us unfolding fs_geom_def nb by auto
  moreover have "\<forall>y \<in> fblocks W' di'. y < st \<and> data_start W' \<le> unat y \<and> unat y < nblk W' \<and> used W' (unat y)"
    unfolding fb nb using f fr(2,3) ux b(1) us by (auto simp: file_in_def x_def)
  ultimately show "file_in st W' di'" using L(2) one unfolding file_in_def nb by blast
qed

text \<open>
  What may happen to a file: it gets blocks that were free, and nothing in the image changes but its own blocks and the bitmap.
  \<^verbatim>\<open>bmap\<close> moreover leaves alone what has been written (\<open>ext\<close>).
\<close>

definition keeps :: "dimg \<Rightarrow> dinode \<Rightarrow> dimg \<Rightarrow> dinode \<Rightarrow> bool" where
  "keeps W di W' di' \<longleftrightarrow> (\<exists>as. di' = di\<lparr>di_addrs := as\<rparr>) \<and> fblocks W di \<subseteq> fblocks W' di'
     \<and> (\<forall>y. y \<notin> fblocks W' di' \<longrightarrow> y \<noteq> bmblk W 0 \<longrightarrow> W' y = W y) \<and> (\<forall>c < nblk W. used W c \<longrightarrow> used W' c)
     \<and> (\<forall>y \<in> fblocks W' di'. y \<in> fblocks W di \<or> unat y < nblk W \<and> \<not> used W (unat y)) \<and> W' 1 = W 1"

definition ext :: "dimg \<Rightarrow> dinode \<Rightarrow> dimg \<Rightarrow> dinode \<Rightarrow> bool" where
  "ext W di W' di' \<longleftrightarrow> keeps W di W' di' \<and> (\<forall>W0 di0 a d k. wrote W0 di0 a d k W di \<longrightarrow> wrote W0 di0 a d k W' di')"

lemma keeps_refl: "keeps W di W di"
  by (auto simp: keeps_def intro!: exI [of _ "di_addrs di"])

lemma keeps_trans:
  assumes "keeps W di V dj" "keeps V dj X dk"
  shows "keeps W di X dk"
proof -
  have n: "V 1 = W 1" "X 1 = V 1" using assms by (simp_all add: keeps_def)
  have "\<exists>as. dk = di\<lparr>di_addrs := as\<rparr>" using assms by (auto simp: keeps_def)
  moreover have "fblocks W di \<subseteq> fblocks X dk" using assms by (auto simp: keeps_def)
  moreover have "X y = W y" if "y \<notin> fblocks X dk" "y \<noteq> bmblk W 0" for y
    using that assms n unfolding keeps_def by (metis subsetD)
  moreover have "used X c" if "c < nblk W" "used W c" for c using that assms n unfolding keeps_def by metis
  moreover have "y \<in> fblocks W di \<or> unat y < nblk W \<and> \<not> used W (unat y)" if "y \<in> fblocks X dk" for y
    using that assms n unfolding keeps_def by metis
  ultimately show ?thesis using n unfolding keeps_def by auto
qed

lemma ext_refl: "ext W di W di"
  by (simp add: ext_def keeps_refl)

lemma ext_trans: "ext W di V dj \<Longrightarrow> ext V dj X dk \<Longrightarrow> ext W di X dk"
  unfolding ext_def using keeps_trans by blast

lemma ext_same: "ext W di W' di' \<Longrightarrow> W' 1 = W 1"
  by (simp add: ext_def keeps_def)

lemma alloc_ext:
  assumes f: "file_in st W di" and b: "b < nblk W" "\<not> used W b" and lb: "length (W (bmblk W 0)) = 512"
    and n: "n \<le> MAXFILE" "fslot W di n = 0" "n < NDIRECT \<or> n = MAXFILE \<or> di_addrs di ! NDIRECT \<noteq> 0"
  shows "ext W di (slot_img n (of_nat b) di (alloc_img b W)) (slot_di n (of_nat b) di)"
proof -
  note A = alloc_slot_img [OF assms]
  have "\<exists>as. slot_di n (of_nat b) di = di\<lparr>di_addrs := as\<rparr>" 
    by (rule exI [of _ "di_addrs (slot_di n (of_nat b) di)"]) (simp add: slot_di_def)
  then show ?thesis using A(2,5,7-9,11) b(1,2) unfolding ext_def keeps_def by auto
qed

lemma balloc_any:
  fixes t :: "'a fs_st_scheme"
  assumes R: "blk_ok t W H D {}" "room t H D 2" and f: "file_in (lstart t) W di" and M: "meta_free W H"
    and h: "\<forall>c < nblk W. \<not> used W c \<longrightarrow> H (of_nat c) = None" and fr: "0 < nfree W"
  shows "wp (balloc 1) (\<lambda>x u. \<exists>b < nblk W. \<not> used W b \<and> x = of_nat b
     \<and> blk_ok u (alloc_img b W) H (insert x (insert (bmblk W 0) D)) {} \<and> blk_frame t u) t"
proof -
  have G: "fs_geom (lstart t) W" and one: "nblk W \<le> BPB" using f by (auto simp: file_in_def)
  have "{c. c < nblk W \<and> \<not> used W c} \<noteq> {}" using fr by (auto simp: nfree_def card_gt_0_iff)
  then obtain c where c: "c < nblk W \<and> \<not> used W c" by auto
  define b where "b = (LEAST c. c < nblk W \<and> \<not> used W c)"
  have b: "b < nblk W" "\<not> used W b" using LeastI [of "\<lambda>c. c < nblk W \<and> \<not> used W c", OF c] by (auto simp: b_def)
  have "used W j" if "j < b" for j
    using that b(1) not_less_Least [of j "\<lambda>c. c < nblk W \<and> \<not> used W c", folded b_def] by simp
  then have j: "\<forall>j < b. used W j" by blast
  have pos: "0 < nblk W" using b(1) by simp
  have bm: "bmblk W b = bmblk W 0" using b(1) one pos by (subst bmblk_inj [OF G b(1) pos]) simp
  have r: "room t H D (Suc (Suc 0))" using R(2) by (simp add: numeral_2_eq_2)
  show ?thesis by (rule wp_mono [OF balloc_law [OF R(1) r G M b j]]) (use h b bm in auto)
qed

text \<open>How many blocks the transaction has logged or will log: the bitmap, the indirect block, and those of the file.\<close>

definition elog :: "uint set \<Rightarrow> uint \<Rightarrow> dinode \<Rightarrow> nat \<Rightarrow> bool" where
  "elog D B di e \<longleftrightarrow> finite D \<and> (if di_addrs di ! NDIRECT = 0 then card (insert B D) + 1 \<le> e
     else card (insert (di_addrs di ! NDIRECT) (insert B D)) \<le> e)"

lemma elog_le: "elog D B di e \<Longrightarrow> card D \<le> e"
proof -
  have "card D \<le> card (insert B D)" "card (insert B D) \<le> card (insert x (insert B D))" if "finite D" for x :: uint
    using that by (auto simp: card_insert_if)
  then show "elog D B di e \<Longrightarrow> card D \<le> e" unfolding elog_def by (auto split: if_splits dest: le_trans)
qed

text \<open>The blocks that are still missing: the indirect block, and \<open>r\<close> others.\<close>

definition enough :: "dimg \<Rightarrow> dinode \<Rightarrow> nat \<Rightarrow> bool" where
  "enough W di r \<longleftrightarrow> r + (if di_addrs di ! NDIRECT = 0 then 1 else 0) \<le> nfree W"

text \<open>The state between two calls of \<^verbatim>\<open>bmap\<close> in a transaction, and after one.\<close>

definition tx_ok :: "'z fs_st_scheme \<Rightarrow> nat \<Rightarrow> dimg \<Rightarrow> dinode \<Rightarrow> uint set \<Rightarrow> nat \<Rightarrow> nat \<Rightarrow> bool" where
  "tx_ok s i W di D e r \<longleftrightarrow> blk_ok s W Map.empty D {} \<and> ino_ok s i W di \<and> lbusy s \<and> elog D (bmblk W 0) di e
     \<and> e + 2 \<le> log_budget s \<and> e + 2 < NBUF \<and> enough W di r"

lemma tx_room: "tx_ok s i W di D e r \<Longrightarrow> room s Map.empty D 2"
proof -
  assume t: "tx_ok s i W di D e r"
  then have "card D \<le> e" "finite D" using elog_le unfolding tx_ok_def by (blast, simp add: elog_def)
  then show ?thesis using t by (simp add: tx_ok_def room_def)
qed

lemma tx_len: "tx_ok s i W di D e r \<Longrightarrow> 0 < nblk W \<Longrightarrow> length (W (bmblk W 0)) = 512"
  unfolding tx_ok_def ino_ok_def file_in_def using lg.blk_len bmblk_unat(2) by blast

text \<open>A direct block, or the indirect block, is missing.\<close>

definition slot_idx :: "nat \<Rightarrow> nat" where
  "slot_idx n = (if n = MAXFILE then NDIRECT else n)"

lemma slot_di_addrs: "n < NDIRECT \<or> n = MAXFILE \<Longrightarrow> slot_di n x di = di\<lparr>di_addrs := (di_addrs di)[slot_idx n := x]\<rparr>"
  by (auto simp: slot_di_def slot_idx_def MAXFILE_def NDIRECT_def)

lemma bmap_alloc:
  fixes s :: "'a fs_st_scheme"
  assumes T: "tx_ok s i W di D e r" and r: "0 < r + (if di_addrs di ! NDIRECT = 0 then 1 else 0)"
    and n: "n < NDIRECT \<or> n = MAXFILE" "fslot W di n = 0"
  shows "wp (bindK (balloc 1) (\<lambda>a. seqK (upd_inode i (\<lambda>p. p\<lparr>addrs := (addrs p)[slot_idx n := a]\<rparr>)) (ret a)))
    (\<lambda>a t. \<exists>W' di'. a \<noteq> 0 \<and> ino_frame i s t \<and> ext W di W' di' \<and> file_in (lstart s) W' di' \<and> ino_ok t i W' di'
       \<and> blk_ok t W' Map.empty (insert a (insert (bmblk W 0) D)) {} \<and> nfree W = Suc (nfree W')
       \<and> di' = di\<lparr>di_addrs := (di_addrs di)[slot_idx n := a]\<rparr> \<and> (\<forall>m < MAXFILE. blkno W' di' m = (if m = n then a else blkno W di m))) s"
proof -
  have f: "file_in (lstart s) W di" and B: "blk_ok s W Map.empty D {}" and I: "ino_ok s i W di" using T by (auto simp: tx_ok_def ino_ok_def)
  have fr: "0 < nfree W" using T r unfolding tx_ok_def enough_def by linarith
  have p: "idev (icache s i) = 1" "dinode_of (icache s i) = di" using I by (auto simp: ino_ok_def)
  have n': "n \<le> MAXFILE" "n < NDIRECT \<or> n = MAXFILE \<or> di_addrs di ! NDIRECT \<noteq> 0" using n by (auto simp: MAXFILE_def)
  have "wp (balloc 1) (\<lambda>x u. \<exists>b < nblk W. \<not> used W b \<and> x = of_nat b
     \<and> blk_ok u (alloc_img b W) Map.empty (insert x (insert (bmblk W 0) D)) {} \<and> blk_frame s u) s"
    by (rule balloc_any [OF B tx_room [OF T] f]) (use fr in \<open>auto simp: meta_free_def\<close>)
  then show ?thesis unfolding wp_bindK
  proof (rule wp_mono, elim exE conjE)
    fix x u b assume b: "b < nblk W" "\<not> used W b" "x = of_nat b" and u: "blk_ok u (alloc_img b W) Map.empty (insert x (insert (bmblk W 0) D)) {}" "blk_frame s u"
    let ?W = "slot_img n x di (alloc_img b W)" and ?d = "slot_di n x di"
    have lb: "length (W (bmblk W 0)) = 512" by (rule tx_len [OF T]) (use b in simp)
    note A = alloc_slot_img [OF f b(1,2) lb n'(1) n(2) n'(2), folded b(3)] and E = alloc_ext [OF f b(1,2) lb n'(1) n(2) n'(2), folded b(3)]
    have img: "?W = alloc_img b W" using n by (simp add: slot_img_def)
    have dd: "?d = di\<lparr>di_addrs := (di_addrs di)[slot_idx n := x]\<rparr>" by (rule slot_di_addrs [OF n(1)])
    let ?v = "with_ino i ((addrs (icache u i))[slot_idx n := x], isize (icache u i)) u"
    have ic: "icache u = icache s" by (rule blk_frame_icache [OF u(2)])
    have v: "u\<lparr>icache := (icache u)(i := (icache u i)\<lparr>addrs := (addrs (icache u i))[slot_idx n := x]\<rparr>)\<rparr> = ?v" by (simp add: with_ino_def)
    have ls: "lstart ?v = lstart s" using lg.frame_same [OF u(2)] by (simp add: with_ino_def)
    have "ino_ok ?v i ?W ?d" using p A(1) ic ls dd by (auto simp: ino_ok_def with_ino_def dinode_of_def)
    moreover have "ino_frame i s ?v" by (rule ino_frame_upd [OF blk_ino_frame [OF u(2)]])
    moreover have "blk_ok ?v ?W Map.empty (insert x (insert (bmblk W 0) D)) {}" using u(1) img by (simp add: with_ino_def)
    ultimately show "wp (seqK (upd_inode i (\<lambda>p. p\<lparr>addrs := (addrs p)[slot_idx n := x]\<rparr>)) (ret x))
     (\<lambda>a t. \<exists>W' di'. a \<noteq> 0 \<and> ino_frame i s t \<and> ext W di W' di' \<and> file_in (lstart s) W' di' \<and> ino_ok t i W' di'
       \<and> blk_ok t W' Map.empty (insert a (insert (bmblk W 0) D)) {} \<and> nfree W = Suc (nfree W')
       \<and> di' = di\<lparr>di_addrs := (di_addrs di)[slot_idx n := a]\<rparr> \<and> (\<forall>m < MAXFILE. blkno W' di' m = (if m = n then a else blkno W di m))) u"
      using A(1,4,6,10) E dd unfolding upd_inode_def wp_seqK wp_modK wp_ret v by (intro exI [of _ ?W] exI [of _ ?d]) simp
  qed
qed

lemma elog_ind: "elog D B di e \<Longrightarrow> di_addrs di ! NDIRECT \<noteq> 0 \<Longrightarrow> card (insert (di_addrs di ! NDIRECT) D) \<le> e"
proof -
  assume a: "elog D B di e" "di_addrs di ! NDIRECT \<noteq> 0"
  then have "card (insert (di_addrs di ! NDIRECT) D) \<le> card (insert (di_addrs di ! NDIRECT) (insert B D))"
    by (intro card_mono) (auto simp: elog_def)
  then show ?thesis using a by (simp add: elog_def)
qed

lemma bmap_ind_law:
  fixes s :: "'a fs_st_scheme"
  assumes T: "tx_ok s i W di D e r" and n: "NDIRECT \<le> n" "n < MAXFILE" and i0: "di_addrs di ! NDIRECT \<noteq> 0" and r: "0 < r"
  defines "ind \<equiv> di_addrs di ! NDIRECT"
  shows "wp (bmap_ind 1 ind (n - NDIRECT)) (\<lambda>a t. \<exists>W' D'. a \<noteq> 0 \<and> blk_frame s t \<and> ext W di W' di \<and> file_in (lstart s) W' di
      \<and> blk_ok t W' Map.empty D' {} \<and> (\<forall>m < MAXFILE. blkno W' di m = (if m = n then a else blkno W di m))
      \<and> (W' = W \<and> D' = D \<or> D' = insert ind (insert a (insert (bmblk W 0) D)) \<and> nfree W = Suc (nfree W'))) s"
proof -
  let ?B = "bmblk W 0" and ?H = "[ind \<mapsto> p]" and ?j = "n - NDIRECT"
  have f: "file_in (lstart s) W di" and B: "blk_ok s W Map.empty D {}" using T by (auto simp: tx_ok_def ino_ok_def)
  have ix: "ind \<in> fblocks W di" unfolding ind_def by (rule fblocksI(2) [OF i0])
  note ib = file_in_blk [OF f ix]
  have bn: "blkno W di n = get32 (4 * ?j) (W ind)" using n i0 by (simp add: blkno_def ind_def)
  have fr: "0 < nfree W" using T r unfolding tx_ok_def enough_def by linarith
  have nb: "0 < nblk W" using ix f by (auto simp: file_in_def)
  have lb: "length (W ?B) = 512" by (rule tx_len [OF T nb])
  show ?thesis unfolding bmap_ind_def wp_bindK
  proof (rule wp_mono [OF fs_bread [OF B tx_room [OF T] ib(1)]], simp, elim conjE)
    fix p t assume t: "blk_ok t W [ind \<mapsto> p] D {}" "blk_frame s t"
    have g: "buf_data p t = W ind" by (rule lg.gt_ok [OF t(1)]) simp
    have ls: "lstart t = lstart s" using lg.frame_same [OF t(2)] by simp
    let ?Q = "\<lambda>a t. \<exists>W' D'. a \<noteq> 0 \<and> blk_frame s t \<and> ext W di W' di \<and> file_in (lstart s) W' di
      \<and> blk_ok t W' Map.empty D' {} \<and> (\<forall>m < MAXFILE. blkno W' di m = (if m = n then a else blkno W di m))
      \<and> (W' = W \<and> D' = D \<or> D' = insert ind (insert a (insert ?B D)) \<and> nfree W = Suc (nfree W'))"
    have e: "lbusy s" "finite D" "e + 2 \<le> log_budget s" "e + 2 < NBUF" "card (insert ind D) \<le> e" "card (insert ?B D) \<le> e"
      using T elog_ind [of D ?B di e] i0 card_insert_le [of "insert ?B D" ind] unfolding tx_ok_def ind_def
      by (auto simp: elog_def split: if_splits)
    have miss: "wp (balloc 1) (\<lambda>a u. wp (seqK (modK (\<lambda>s. set_buf_data p (put32 (4 * ?j) a (buf_data p s)) s)) (seqK (log_write p) (brelse p)))
        (\<lambda>_ v. ?Q a v) u) t" if b0: "blkno W di n = 0"
    proof -
      have "card D \<le> card (insert ind D)" using e(2) by (simp add: card_insert_if)
      then have rm: "room t [ind \<mapsto> p] D 2" using e room_frame [OF t(2), of "[ind \<mapsto> p]" D 2] by (simp add: room_def)
      have "wp (balloc 1) (\<lambda>x u. \<exists>b < nblk W. \<not> used W b \<and> x = of_nat b
          \<and> blk_ok u (alloc_img b W) [ind \<mapsto> p] (insert x (insert ?B D)) {} \<and> blk_frame t u) t"
      proof (rule balloc_any [OF t(1) rm _ _ _ fr])
        show "file_in (lstart t) W di" using f ls by simp
        show "meta_free W [ind \<mapsto> p]" using ib(2,3) by (auto simp: meta_free_def)
        show "\<forall>c < nblk W. \<not> used W c \<longrightarrow> [ind \<mapsto> p] (of_nat c) = None"
        proof (intro allI impI)
          fix c assume c: "c < nblk W" "\<not> used W c"
          have "unat (of_nat c :: uint) = c" using free_block(1) [OF _ c] f by (auto simp: file_in_def)
          then show "[ind \<mapsto> p] (of_nat c) = None" using c f ix by (auto simp: file_in_def)
        qed
      qed
      then show ?thesis
      proof (rule wp_mono, elim exE conjE)
        fix x u b assume b: "b < nblk W" "\<not> used W b" "x = of_nat b"
          and u: "blk_ok u (alloc_img b W) [ind \<mapsto> p] (insert x (insert ?B D)) {}" "blk_frame t u"
        have nz: "n \<le> MAXFILE" "fslot W di n = 0" "n < NDIRECT \<or> n = MAXFILE \<or> di_addrs di ! NDIRECT \<noteq> 0" using n i0 b0 by (auto simp: fslot_def)
        have sd: "slot_di n x di = di" using n by (simp add: slot_di_def)
        note A = alloc_slot_img [OF f b(1,2) lb nz, folded b(3), unfolded sd] and E = alloc_ext [OF f b(1,2) lb nz, folded b(3), unfolded sd]
        let ?V = "alloc_img b W" and ?W = "slot_img n x di (alloc_img b W)"
        have vi: "?V ind = W ind" using A(3) ix ib(3) [OF nb] A(12) by (auto simp: alloc_img_def b(3))
        have W: "?W = ?V(ind := put32 (4 * ?j) x (?V ind))" using n by (simp add: slot_img_def ind_def)
        have "card (insert x (insert ?B D)) \<le> e + 1" using e(2,6) card_insert_le_m1 [of 1] by (simp add: card_insert_if)
        then have rm: "room u Map.empty (insert x (insert ?B D)) (Suc 0)"
          using e lg.frame_same [OF t(2)] lg.frame_same [OF u(2)] by (simp add: room_def)
        have "4 * ?j + 4 \<le> 512" using n by (simp add: MAXFILE_def NINDIRECT_def)
        then have len: "length (put32 (4 * ?j) x (?V ind)) = 512" using ib(4) vi by simp
        have "wp (seqK (modK (\<lambda>s. set_buf_data p (put32 (4 * ?j) x (buf_data p s)) s)) (seqK (log_write p) (brelse p)))
          (\<lambda>_ v. blk_ok v ?W Map.empty (insert ind (insert x (insert ?B D))) {} \<and> blk_frame u v \<and> room v Map.empty (insert ind (insert x (insert ?B D))) 0) u"
          unfolding W by (rule fs_change [OF u(1) _ _ rm, where f = "put32 (4 * ?j) x"]) (simp_all add: len)
        then show "wp (seqK (modK (\<lambda>s. set_buf_data p (put32 (4 * ?j) x (buf_data p s)) s)) (seqK (log_write p) (brelse p))) (\<lambda>_ v. ?Q x v) u"
        proof (rule wp_mono, elim conjE)
          fix y v assume v: "blk_ok v ?W Map.empty (insert ind (insert x (insert ?B D))) {}" "blk_frame u v"
          have "blk_frame s v" using t(2) u(2) v(2) blk_frame_trans by metis
          then show "?Q x v" using v(1) A(1,4,6,10) E
            by (intro exI [of _ ?W] exI [of _ "insert ind (insert x (insert ?B D))"]) simp
        qed
      qed
    qed
    have hit: "wp (brelse p) (\<lambda>_ v. ?Q (blkno W di n) v) t" if "blkno W di n \<noteq> 0"
      by (rule wp_mono [OF lg.drop_block [OF t(1)]])
         (use that f ext_refl [of W di] blk_frame_trans [OF t(2)] in auto)
    show "wp (getK (\<lambda>s. get32 (4 * ?j) (buf_data p s))) (\<lambda>a. wp (if a = 0 then bindK (balloc 1) (\<lambda>a.
             seqK (modK (\<lambda>s. set_buf_data p (put32 (4 * ?j) a (buf_data p s)) s)) (seqK (log_write p) (ret a))) else ret a)
           (\<lambda>a. wp (seqK (brelse p) (ret a)) ?Q)) t"
      using miss hit by (cases "blkno W di n = 0") (simp_all add: wp_getK wp_bindK wp_seqK wp_ret wp_modK g flip: bn)
  qed
qed

lemma elog_insert: "elog D B di e \<Longrightarrow> elog (insert a D) B di (Suc e)"
proof -
  assume l: "elog D B di e"
  have c: "card (insert a E) \<le> Suc (card E)" for E by (cases "finite E") (auto simp: card_insert_if)
  have "insert B (insert a D) = insert a (insert B D)"
    "insert (di_addrs di ! NDIRECT) (insert B (insert a D)) = insert a (insert (di_addrs di ! NDIRECT) (insert B D))" by auto
  then show ?thesis using l c [of "insert B D"] c [of "insert (di_addrs di ! NDIRECT) (insert B D)"]
    unfolding elog_def by (simp split: if_splits)
qed

lemma elog_cong: "di_addrs dj ! NDIRECT = di_addrs di ! NDIRECT \<Longrightarrow> elog D B dj e = elog D B di e"
  by (simp add: elog_def)

lemma elog_absorb: "elog (insert B D) B di e = elog D B di e" "di_addrs di ! NDIRECT \<noteq> 0 \<Longrightarrow> elog (insert (di_addrs di ! NDIRECT) D) B di e = elog D B di e"
  by (auto simp: elog_def insert_commute)

text \<open>The end of \<^verbatim>\<open>bmap\<close>, with the indirect block in place.\<close>

lemma bmap_ind_tx:
  fixes s :: "'a fs_st_scheme"
  assumes T: "tx_ok s i W di D e (Suc r)" and n: "NDIRECT \<le> n" "n < MAXFILE" and i0: "di_addrs di ! NDIRECT \<noteq> 0"
  shows "wp (bmap_ind 1 (di_addrs di ! NDIRECT) (n - NDIRECT)) (\<lambda>a t. \<exists>W' D'. a \<noteq> 0 \<and> a = blkno W' di n \<and> blk_frame s t \<and> ext W di W' di
      \<and> ino_ok t i W' di \<and> blk_ok t W' Map.empty D' {} \<and> elog (insert a D') (bmblk W 0) di (Suc e) \<and> enough W' di r) s"
proof (rule wp_mono [OF bmap_ind_law [OF T n i0]], simp, elim exE conjE)
  fix a t W' D' assume a: "a \<noteq> 0" "blk_frame s t" "ext W di W' di" "file_in (lstart s) W' di" "blk_ok t W' Map.empty D' {}"
    "\<forall>m < MAXFILE. blkno W' di m = (if m = n then a else blkno W di m)"
    "W' = W \<and> D' = D \<or> D' = insert (di_addrs di ! NDIRECT) (insert a (insert (bmblk W 0) D)) \<and> nfree W = Suc (nfree W')"
  have l: "elog D (bmblk W 0) di e" "enough W di (Suc r)" "ino_ok s i W di" using T by (auto simp: tx_ok_def)
  have "elog (insert a D') (bmblk W 0) di (Suc e)"
  proof -
    have "insert a (insert (di_addrs di ! NDIRECT) (insert a (insert (bmblk W 0) D))) = insert (di_addrs di ! NDIRECT) (insert (bmblk W 0) (insert a D))" by auto
    then show ?thesis using a(7) elog_insert [OF l(1), of a] elog_absorb i0 by auto
  qed
  moreover have "ino_ok t i W' di" using l(3) a(4) lg.frame_same [OF a(2)] blk_frame_icache [OF a(2)] by (simp add: ino_ok_def)
  moreover have "enough W' di r" using a(7) l(2) i0 by (auto simp: enough_def)
  ultimately show "\<exists>W' D'. a \<noteq> 0 \<and> a = blkno W' di n \<and> blk_frame s t \<and> ext W di W' di
      \<and> ino_ok t i W' di \<and> blk_ok t W' Map.empty D' {} \<and> elog (insert a D') (bmblk W 0) di (Suc e) \<and> enough W' di r"
    using a n(2) by (intro exI [of _ W'] exI [of _ D']) simp
qed

lemma bmap_law:
  fixes s :: "'a fs_st_scheme"
  assumes T: "tx_ok s i W di D e (Suc r)" and n: "n < MAXFILE"
  shows "wp (bmap i (of_nat n)) (\<lambda>a t. \<exists>W' di' D'. a \<noteq> 0 \<and> a = blkno W' di' n \<and> ino_frame i s t \<and> ext W di W' di' \<and> ino_ok t i W' di'
      \<and> blk_ok t W' Map.empty D' {} \<and> elog (insert a D') (bmblk W 0) di' (Suc e) \<and> enough W' di' r) s" (is "wp _ ?Q s")
proof -
  let ?p = "icache s i"
  have I: "ino_ok s i W di" and B: "blk_ok s W Map.empty D {}" and l: "elog D (bmblk W 0) di e" "enough W di (Suc r)" using T by (auto simp: tx_ok_def)
  have p: "idev ?p = 1" "addrs ?p = di_addrs di" using I by (auto simp: ino_ok_def dinode_of_def)
  have u: "unat (of_nat n :: uint) = n" using n by (intro unat_of_nat_small) (simp add: MAXFILE_def NDIRECT_def NINDIRECT_def)
  have la: "length (di_addrs di) = NDIRECT + 1" using I by (simp add: ino_ok_def file_in_def file_wf_def)
  consider "blkno W di n \<noteq> 0" | "blkno W di n = 0" "n < NDIRECT" | "NDIRECT \<le> n" "di_addrs di ! NDIRECT \<noteq> 0" | "NDIRECT \<le> n" "di_addrs di ! NDIRECT = 0"
    by linarith
  then show ?thesis
  proof cases
    case 1
    have "card (dom Map.empty \<union> D) < NBUF" using tx_room [OF T] by (simp add: room_def)
    from bmap_hit [OF B I _ this n 1] show ?thesis
    proof (rule wp_mono)
      fix a t assume a: "a = blkno W di n \<and> blk_ok t W Map.empty D {} \<and> blk_frame s t"
      have "enough W di r" using l(2) by (simp add: enough_def)
      then show "?Q a t" using a 1 elog_insert [OF l(1)] ext_refl blk_ino_frame [of s t i] ino_ok_frame [OF I] by blast
    qed simp
  next
    case 2
    then have z: "fslot W di n = 0" "slot_idx n = n" "addrs ?p ! n = 0" using p by (simp_all add: fslot_def slot_idx_def MAXFILE_def blkno_def)
    have "wp (bindK (balloc 1) (\<lambda>a. seqK (upd_inode i (\<lambda>p. p\<lparr>addrs := (addrs p)[n := a]\<rparr>)) (ret a))) ?Q s"
    proof (rule wp_mono [OF bmap_alloc [OF T, of n, unfolded z(2)]])
      fix a t assume "\<exists>W' di'. a \<noteq> 0 \<and> ino_frame i s t \<and> ext W di W' di' \<and> file_in (lstart s) W' di' \<and> ino_ok t i W' di'
       \<and> blk_ok t W' Map.empty (insert a (insert (bmblk W 0) D)) {} \<and> nfree W = Suc (nfree W')
       \<and> di' = di\<lparr>di_addrs := (di_addrs di)[n := a]\<rparr> \<and> (\<forall>m < MAXFILE. blkno W' di' m = (if m = n then a else blkno W di m))"
      then obtain W' di' where a: "a \<noteq> 0" "ino_frame i s t" "ext W di W' di'" "ino_ok t i W' di'" "blk_ok t W' Map.empty (insert a (insert (bmblk W 0) D)) {}"
        "nfree W = Suc (nfree W')" "di' = di\<lparr>di_addrs := (di_addrs di)[n := a]\<rparr>" "blkno W' di' n = a" using n by auto
      have ind: "di_addrs di' ! NDIRECT = di_addrs di ! NDIRECT" using a(7) 2 by simp
      then have "elog (insert a (insert (bmblk W 0) D)) (bmblk W 0) di' (Suc e)"
        unfolding elog_cong [OF ind] insert_commute [of a] using elog_insert [OF l(1), of a] by (simp only: elog_absorb(1))
      moreover have "enough W' di' r" using l(2) a(6) ind by (simp add: enough_def)
      ultimately show "?Q a t" using a by (intro exI [of _ W'] exI [of _ di'] exI [of _ "insert a (insert (bmblk W 0) D)"]) simp
    qed (use 2 z in auto)
    then show ?thesis using 2 z u p by (simp add: bmap_def wp_bindK wp_getK)
  next
    case 3
    have "wp (bmap_ind 1 (di_addrs di ! NDIRECT) (n - NDIRECT)) ?Q s"
      by (rule wp_mono [OF bmap_ind_tx [OF T 3(1) n 3(2)]]) (use blk_ino_frame in blast)
    moreover have "n - NDIRECT < NINDIRECT" using 3 n by (simp add: MAXFILE_def)
    ultimately show ?thesis using 3 u p by (simp add: bmap_def wp_bindK wp_getK wp_ret Let_def)
  next
    case 4
    have z: "fslot W di MAXFILE = 0" "slot_idx MAXFILE = NDIRECT" using 4 by (simp_all add: fslot_def slot_idx_def)
    have "wp (bindK (balloc 1) (\<lambda>a. seqK (upd_inode i (\<lambda>p. p\<lparr>addrs := (addrs p)[NDIRECT := a]\<rparr>)) (ret a)))
       (\<lambda>ind t. wp (bmap_ind 1 ind (n - NDIRECT)) ?Q t) s"
    proof (rule wp_mono [OF bmap_alloc [OF T, of MAXFILE, unfolded z(2)]])
      fix a t assume "\<exists>W' di'. a \<noteq> 0 \<and> ino_frame i s t \<and> ext W di W' di' \<and> file_in (lstart s) W' di' \<and> ino_ok t i W' di'
       \<and> blk_ok t W' Map.empty (insert a (insert (bmblk W 0) D)) {} \<and> nfree W = Suc (nfree W')
       \<and> di' = di\<lparr>di_addrs := (di_addrs di)[NDIRECT := a]\<rparr> \<and> (\<forall>m < MAXFILE. blkno W' di' m = (if m = MAXFILE then a else blkno W di m))"
      then obtain W1 di1 where a: "a \<noteq> 0" "ino_frame i s t" "ext W di W1 di1" "ino_ok t i W1 di1" "blk_ok t W1 Map.empty (insert a (insert (bmblk W 0) D)) {}"
        "nfree W = Suc (nfree W1)" "di1 = di\<lparr>di_addrs := (di_addrs di)[NDIRECT := a]\<rparr>" by auto
      have ind: "di_addrs di1 ! NDIRECT = a" using a(7) la by simp
      have W1: "bmblk W1 0 = bmblk W 0" using ext_same [OF a(3)] by simp
      have "card (insert a (insert (bmblk W 0) D)) \<le> e" using l(1) 4(2) by (simp add: elog_def card_insert_if split: if_splits)
      then have "elog (insert a (insert (bmblk W 0) D)) (bmblk W 0) di1 e" using l(1) ind a(1) by (simp add: elog_def insert_commute insert_absorb)
      moreover have "enough W1 di1 (Suc r)" using l(2) a(1,6) 4(2) ind by (simp add: enough_def)
      ultimately have T1: "tx_ok t i W1 di1 (insert a (insert (bmblk W 0) D)) e (Suc r)"
        using T a(4,5) ino_frame_same [OF a(2)] unfolding tx_ok_def W1 by simp
      have "di_addrs di1 ! NDIRECT \<noteq> 0" using ind a(1) by simp
      from bmap_ind_tx [OF T1 4(1) n this] show "wp (bmap_ind 1 a (n - NDIRECT)) ?Q t"
        unfolding ind W1 by (rule wp_mono) (use ext_trans [OF a(3)] ino_frame_blk [OF a(2)] in blast)
    qed (use 4 z in auto)
    moreover have "n - NDIRECT < NINDIRECT" using 4 n by (simp add: MAXFILE_def)
    ultimately show ?thesis using 4 u p by (simp add: bmap_def wp_bindK wp_getK wp_seqK wp_ret Let_def upd_inode_def wp_modK)
  qed
qed

section \<open>Writing a file\<close>

text \<open>Bytes written into a block of the file, inside the transaction.\<close>

lemma write_chunk:
  fixes t :: "'a fs_st_scheme"
  assumes B: "blk_ok t W Map.empty D {}" and I: "ino_ok t i W di" and l: "elog (insert x D) (bmblk W 0) di (Suc e)"
    and cap: "lbusy t" "e + 2 \<le> log_budget t" "e + 2 < NBUF" and en: "enough W di r"
    and n: "n < MAXFILE" "x = blkno W di n" "x \<noteq> 0" and bs: "p + length bs \<le> 512"
  defines "V \<equiv> W(x := splice p bs (W x))"
  shows "wp (bindK (bread 1 x) (\<lambda>b. seqK (modK (\<lambda>s. set_buf_data b (splice p bs (buf_data b s)) s)) (seqK (log_write b) (brelse b))))
      (\<lambda>_ u. blk_frame t u \<and> blk_ok u V Map.empty (insert x D) {} \<and> ino_ok u i V di \<and> keeps W di V di
        \<and> elog (insert x D) (bmblk V 0) di (Suc e) \<and> enough V di r) t"
proof -
  have f: "file_in (lstart t) W di" using I by (simp add: ino_ok_def)
  have wf: "file_wf W di" using f by (simp add: file_in_def)
  have xb: "x \<in> fblocks W di" using fblocksI(1) [OF n(1)] n(2,3) by simp
  note xf = file_in_blk [OF f xb]
  note L = write_block_law [OF wf n(1) n(3) [unfolded n(2)] bs, folded n(2), folded V_def]
  have len: "length (splice p bs (W x)) = 512" using bs xf(4) by simp
  have "card D \<le> Suc e" using elog_le [OF l] l by (auto simp: elog_def card_insert_if split: if_splits)
  then have rm: "room t Map.empty D (Suc 0)" using cap l by (simp add: room_def elog_def)
  have V1: "V 1 = W 1" using xf(2) by (simp add: V_def)
  have vb: "V (bmblk W c) = W (bmblk W c)" if "c < nblk W" for c using xf(3) [OF that] by (auto simp: V_def)
  then have us: "used V c = used W c" if "c < nblk W" for c using that V1 by (simp add: used_def)
  have nf: "nfree V = nfree W"
  proof -
    have "{c. c < nblk V \<and> \<not> used V c} = {c. c < nblk W \<and> \<not> used W c}" using us V1 by auto
    then show ?thesis by (simp add: nfree_def)
  qed
  have fV: "file_in (lstart t) V di" using f L(3) us V1 bitmap_cong(2) [of V W, OF V1] vb unfolding file_in_def L(2)
    by (auto simp: data_start_def)
  have kp: "keeps W di V di" unfolding keeps_def L(2) using xb us V1 by (auto simp: V_def intro!: exI [of _ "di_addrs di"])
  have "wp (bindK (bread 1 x) (\<lambda>b. seqK (modK (\<lambda>s. set_buf_data b (splice p bs (buf_data b s)) s)) (seqK (log_write b) (brelse b))))
    (\<lambda>_ u. blk_ok u V Map.empty (insert x D) {} \<and> blk_frame t u \<and> room u Map.empty (insert x D) 0) t"
    unfolding V_def by (rule fs_modify [OF B xf(1) _ rm, where f = "splice p bs"]) (simp_all add: len)
  then show ?thesis
  proof (rule wp_mono, elim conjE, intro conjI)
    fix y u assume u: "blk_ok u V Map.empty (insert x D) {}" "blk_frame t u"
    show "blk_frame t u" "blk_ok u V Map.empty (insert x D) {}" "keeps W di V di" using u kp by simp_all
    show "ino_ok u i V di" using I fV lg.frame_same [OF u(2)] blk_frame_icache [OF u(2)] by (simp add: ino_ok_def)
    show "elog (insert x D) (bmblk V 0) di (Suc e)" "enough V di r" using l en nf V1 by (simp_all add: enough_def)
  qed
qed

text \<open>The source of a write delivers the bytes \<open>d\<close>, whatever the write has done so far.\<close>

definition src_gives :: "'z fs_st_scheme \<Rightarrow> nat \<Rightarrow> csrc \<Rightarrow> byte list \<Rightarrow> bool" where
  "src_gives s i src d \<longleftrightarrow> (\<forall>t k m. ino_frame i s t \<longrightarrow> k + m \<le> length d \<longrightarrow> get_src src k m t = Ok (slice k m d) t)"

lemma src_kbytes: "src_gives s i (KBytes d) d"
  by (simp add: src_gives_def get_src_def ret_def)

text \<open>The blocks still to be written when \<open>k\<close> bytes have been, and the invariant of the loop of \<^verbatim>\<open>writei\<close>.\<close>

definition todo :: "nat \<Rightarrow> nat \<Rightarrow> nat \<Rightarrow> nat" where
  "todo a n k = (if k < n then (a + n + 511) div 512 - (a + k) div 512 else 0)"

definition wi_inv :: "'z fs_st_scheme \<Rightarrow> nat \<Rightarrow> dimg \<Rightarrow> dinode \<Rightarrow> nat \<Rightarrow> byte list \<Rightarrow> nat \<Rightarrow> nat \<Rightarrow> 'z fs_st_scheme \<Rightarrow> bool" where
  "wi_inv s i W0 di0 a d E k t \<longleftrightarrow> (\<exists>W di D e r. ino_frame i s t \<and> tx_ok t i W di D e r \<and> wrote W0 di0 a d k W di \<and> keeps W0 di0 W di
     \<and> e + todo a (length d) k \<le> E \<and> todo a (length d) k \<le> r)"

lemma todo_step:
  assumes "k < n" "m = min (n - k) (512 - (a + k) mod 512)"
  shows "Suc (todo a n (k + m)) \<le> todo a n k" "0 < todo a n k"
proof -
  let ?q = "(a + k) div 512" and ?r = "(a + k) mod 512"
  have e: "a + k = 512 * ?q + ?r" "?r < 512" by simp_all
  have q: "?q < (a + n + 511) div 512"
  proof -
    have "?q * 512 + 512 \<le> a + n + 511" using e assms(1) by linarith
    then have "(?q * 512 + 512) div 512 \<le> (a + n + 511) div 512" by (rule div_le_mono)
    then show ?thesis by simp
  qed
  then show "0 < todo a n k" using assms(1) by (simp add: todo_def)
  show "Suc (todo a n (k + m)) \<le> todo a n k"
  proof (cases "k + m < n")
    case True
    then have "m + ?r = 512" using assms(2) e(2) by linarith
    then have "a + (k + m) = 512 * Suc ?q" using e(1) unfolding mult_Suc_right by linarith
    then have "(a + (k + m)) div 512 = Suc ?q" by simp
    then show ?thesis using True assms(1) q unfolding todo_def by simp linarith
  next
    case False
    then show ?thesis using assms(1) q by (simp add: todo_def)
  qed
qed

lemma writei_step_law:
  fixes s :: "'a fs_st_scheme"
  assumes g: "wi_inv s i W0 di0 a d E k t" and k: "k < length d" and le: "a + length d \<le> MAXFILE * 512" and src: "src_gives s i src d"
    and E: "E + 2 \<le> log_budget s" "E + 2 < NBUF"
  defines "m \<equiv> min (length d - k) (512 - (a + k) mod 512)"
  shows "wp (writei_step i src (of_nat (length d)) (of_nat k, of_nat (a + k)))
    (\<lambda>r u. r = Inl (of_nat (k + m), of_nat (a + (k + m))) \<and> wi_inv s i W0 di0 a d E (k + m) u) t"
proof -
  let ?x = "a + k" and ?L = "length d"
  obtain W di D e r where w: "ino_frame i s t" "tx_ok t i W di D e r" "wrote W0 di0 a d k W di" "keeps W0 di0 W di"
    "e + todo a ?L k \<le> E" "todo a ?L k \<le> r" using g by (auto simp: wi_inv_def)
  have small: "a + ?L < 2 ^ 31" using le by (simp add: MAXFILE_def NDIRECT_def NINDIRECT_def)
  then have x31: "?x < 2 ^ 31" using k by simp
  have m: "0 < m" "k + m \<le> ?L" "?x mod 512 + m \<le> 512" using k by (auto simp: m_def)
  have td: "Suc (todo a ?L (k + m)) \<le> todo a ?L k" by (rule todo_step(1) [OF k]) (simp add: m_def)
  obtain r' where r': "r = Suc r'" using w(6) td by (cases r) auto
  have n: "?x div 512 < MAXFILE" using k le less_mult_imp_div_less [of ?x MAXFILE 512] by simp
  have lt: "(of_nat k :: uint) < of_nat ?L"
    using k small off_words(1) [of k] off_words(1) [of ?L] by (simp add: word_less_nat_alt)
  have um: "unat (chunk (of_nat ?L) (of_nat k) (of_nat ?x)) = m" unfolding m_def by (rule chunk_unat) (use k small in auto)
  then have cm: "chunk (of_nat ?L) (of_nat k) (of_nat ?x) = of_nat m" by (metis of_nat_unat ucast_id)
  have mu: "unat (of_nat m :: uint) = m" "unat (of_nat k :: uint) = k" using um cm off_words(1) [of k] k small by auto
  note O = off_words(2,3) [OF x31]
  let ?Q = "\<lambda>r u. r = Inl (of_nat (k + m), of_nat (a + (k + m))) \<and> wi_inv s i W0 di0 a d E (k + m) u"
  have rest: "wp (bindK (getK (\<lambda>s. idev (icache s i))) (\<lambda>dv. bindK (bread dv x) (\<lambda>bp. bindK (get_src src k m) (\<lambda>bs.
      seqK (modK (\<lambda>s. set_buf_data bp (splice (?x mod 512) bs (buf_data bp s)) s)) (seqK (log_write bp) (seqK (brelse bp)
        (ret (Inl (of_nat k + of_nat m, of_nat ?x + of_nat m)))))))))
     ?Q u"
    if u: "x \<noteq> 0" "x = blkno W' di' (?x div 512)" "ino_frame i t u" "ext W di W' di'" "ino_ok u i W' di'"
      "blk_ok u W' Map.empty D' {}" "elog (insert x D') (bmblk W 0) di' (Suc e)" "enough W' di' r'" for x u W' di' D'
  proof -
    have bm: "bmblk W 0 = bmblk W' 0" using ext_same [OF u(4)] by simp
    have fr: "ino_frame i s u" by (rule ino_frame_trans [OF w(1) u(3)])
    have cap: "lbusy u" "e + 2 \<le> log_budget u" "e + 2 < NBUF" using w(2) ino_frame_same [OF u(3)] by (auto simp: tx_ok_def)
    have ds: "?x mod 512 + length (slice k m d) \<le> 512" using m by simp
    note C = write_chunk [OF u(6,5) u(7) [unfolded bm] cap u(8) n u(2,1) ds]
    have dv: "idev (icache u i) = 1" using u(5) by (simp add: ino_ok_def)
    have sg: "get_src src k m v = Ok (slice k m d) v" if "blk_frame u v" for v
      using src ino_frame_blk [OF fr that] m(2) by (simp add: src_gives_def)
    have "ext W di W' di'" by (rule u(4))
    then have wr: "wrote W0 di0 a d k W' di'" using w(3) by (simp add: ext_def)
    let ?V = "W'(x := splice (?x mod 512) (slice k m d) (W' x))"
    have wr2: "wrote W0 di0 a d (k + m) ?V di'" by (rule wrote_chunk [OF wr n u(2,1) m(3,2)])
    have fin: "wi_inv s i W0 di0 a d E (k + m) v"
      if v: "blk_frame u v" "blk_ok v ?V Map.empty (insert x D') {}" "ino_ok v i ?V di'" "keeps W' di' ?V di'"
        "elog (insert x D') (bmblk ?V 0) di' (Suc e)" "enough ?V di' r'" for v
    proof -
      have "keeps W0 di0 ?V di'" using keeps_trans [OF keeps_trans [OF w(4)] v(4)] u(4) by (simp add: ext_def)
      moreover have "Suc e + todo a ?L (k + m) \<le> E" "todo a ?L (k + m) \<le> r'" using td w(5,6) r' by simp_all
      moreover from this have "tx_ok v i ?V di' (insert x D') (Suc e) r'"
        using v(2,3,5,6) cap lg.frame_same [OF v(1)] E ino_frame_same [OF fr] unfolding tx_ok_def by simp
      ultimately show ?thesis using wr2 ino_frame_blk [OF fr v(1)] unfolding wi_inv_def by blast
    qed
    have "card D' \<le> Suc e" "finite D'" using elog_le [OF u(7)] u(7) by (auto simp: elog_def card_insert_if split: if_splits)
    then have rm: "room u Map.empty D' 0" using cap by (simp add: room_def)
    have "x \<in> fblocks W' di'" using fblocksI(1) [OF n] u(1,2) by simp
    then have xl: "x < lstart u" by (rule file_in_blk(1) [OF ino_ok_file [OF u(5)]])
    from fs_bread [OF u(6) rm xl] obtain b v where b: "bread 1 x u = Ok b v" "blk_frame u v" by (auto simp: wp_returns)
    have "wp (seqK (modK (\<lambda>s. set_buf_data b (splice (?x mod 512) (slice k m d) (buf_data b s)) s)) (seqK (log_write b) (brelse b)))
      (\<lambda>_ v. wi_inv s i W0 di0 a d E (k + m) v) v"
    proof -
      have "wp (seqK (modK (\<lambda>s. set_buf_data b (splice (?x mod 512) (slice k m d) (buf_data b s)) s)) (seqK (log_write b) (brelse b)))
        (\<lambda>_ v. blk_frame u v \<and> blk_ok v ?V Map.empty (insert x D') {} \<and> ino_ok v i ?V di' \<and> keeps W' di' ?V di'
        \<and> elog (insert x D') (bmblk ?V 0) di' (Suc e) \<and> enough ?V di' r') v" using C b(1) by (simp add: wp_bindK wp_returns [of "bread 1 x"])
      then show ?thesis by (rule wp_mono) (use fin in blast)
    qed
    then show ?thesis using b(1) sg [OF b(2)] unfolding wp_bindK wp_getK dv wp_returns [of "bread 1 x"]
      by (simp add: wp_returns [of "get_src src k m"] wp_seqK wp_ret) (simp add: add.assoc)
  qed
  show ?thesis unfolding writei_step_def prod.case using lt n
    by (simp add: Let_def cm mu O wp_bindK [of "bmap i (of_nat (?x div 512))"] del: of_nat_add)
       (rule wp_mono [OF bmap_law [OF w(2) [unfolded r'] n]], use rest in blast)
qed

lemma writei_loop_law:
  fixes s :: "'a fs_st_scheme"
  assumes g: "wi_inv s i W0 di0 a d E 0 s" and le: "a + length d \<le> MAXFILE * 512" and src: "src_gives s i src d"
    and E: "E + 2 \<le> log_budget s" "E + 2 < NBUF"
  shows "wp (writei_loop i src (of_nat a) (of_nat (length d))) (\<lambda>off t. off = of_nat (a + length d) \<and> wi_inv s i W0 di0 a d E (length d) t) s"
proof -
  let ?I = "\<lambda>(tot :: uint, x :: uint) t. \<exists>k \<le> length d. tot = of_nat k \<and> x = of_nat (a + k) \<and> wi_inv s i W0 di0 a d E k t"
  let ?m = "\<lambda>(c :: uint \<times> uint) (t :: 'a fs_st_scheme). length d - unat (fst c)"
  have small: "a + length d < 2 ^ 31" using le by (simp add: MAXFILE_def NDIRECT_def NINDIRECT_def)
  show ?thesis unfolding writei_loop_def
  proof (rule wp_loopK [where I = ?I and m = ?m])
    show "?I (0, of_nat a) s" using g by (auto intro!: exI [of _ 0])
    fix q and t :: "'a fs_st_scheme" assume "?I q t"
    then obtain k where q: "q = (of_nat k, of_nat (a + k))" "k \<le> length d" "wi_inv s i W0 di0 a d E k t" by (cases q) auto
    have kn: "unat (of_nat k :: uint) = k" "unat (of_nat (length d) :: uint) = length d" using q(2) small by (auto intro: off_words(1))
    show "wp (writei_step i src (of_nat (length d)) q) (\<lambda>r u. case r of Inl c' \<Rightarrow> ?I c' u \<and> ?m c' u < ?m q t
        | Inr off \<Rightarrow> off = of_nat (a + length d) \<and> wi_inv s i W0 di0 a d E (length d) u) t"
    proof (cases "k < length d")
      case False
      then have "k = length d" using q(2) by simp
      then show ?thesis using q by (simp add: writei_step_def wp_ret)
    next
      case True
      define m where "m = min (length d - k) (512 - (a + k) mod 512)"
      have m: "0 < m" "k + m \<le> length d" using True by (auto simp: m_def)
      have "unat (of_nat (k + m) :: uint) = k + m" by (rule off_words(1)) (use m(2) small in simp)
      then have l: "length d - unat (of_nat (k + m) :: uint) < length d - k" using m by linarith
      show ?thesis unfolding q(1)
        by (rule wp_mono [OF writei_step_law [OF q(3) True le src E, folded m_def]])
           (use m(2) l kn(1) in \<open>auto intro!: exI [of _ "k + m"] simp del: of_nat_add\<close>)
    qed
  qed
qed

text \<open>The block of an inode of the file system is before the bitmap.\<close>

lemma iblock_range:
  assumes f: "file_in st W di" and n: "n < sb_ninodes (sb_of (W 1))" and nb: "0 < nblk W"
  shows "IBLOCK n < st" "IBLOCK n \<noteq> 1" "c < nblk W \<Longrightarrow> IBLOCK n \<noteq> bmblk W c" "IBLOCK n \<notin> fblocks W di"
proof -
  have G: "fs_geom st W" using f by (simp add: file_in_def)
  note b = bmblk_unat [OF G nb]
  have nd: "unat n div IPB \<le> unat (sb_ninodes (sb_of (W 1))) div IPB" using n by (intro div_le_mono) (simp add: word_less_nat_alt)
  have "unat (bmblk W 0) < 2 ^ 32" using unsigned_less [of "bmblk W 0", where ?'a = nat] by simp
  then have l: "unat (sb_ninodes (sb_of (W 1))) div IPB + 3 < 2 ^ 32" using b(1) by simp
  have "unat (n div of_nat IPB) = unat n div IPB" by (simp add: unat_div IPB_def)
  then have u: "unat (IBLOCK n) = unat n div IPB + 2" unfolding IBLOCK_def using nd l by (simp add: unat_word_ariths)
  then have lt: "unat (IBLOCK n) < unat (bmblk W 0)" using nd b(1) by simp
  then show "IBLOCK n < st" using b(2) by (simp add: word_less_nat_alt)
  show "IBLOCK n \<noteq> 1" using u by auto
  show "IBLOCK n \<noteq> bmblk W c" if "c < nblk W" using bmblk_unat(1) [OF G that] u nd by auto
  have "unat (IBLOCK n) < data_start W" using lt b(4) by simp
  then show "IBLOCK n \<notin> fblocks W di" using f by (auto simp: file_in_def)
qed

lemma file_in_size: "file_in st W di \<Longrightarrow> file_wf W (di\<lparr>di_size := z\<rparr>) \<Longrightarrow> file_in st W (di\<lparr>di_size := z\<rparr>)"
proof -
  have "fblocks W (di\<lparr>di_size := z\<rparr>) = fblocks W di" by (simp add: fblocks_def fslot_def blkno_def fun_eq_iff)
  then show "file_in st W di \<Longrightarrow> file_wf W (di\<lparr>di_size := z\<rparr>) \<Longrightarrow> file_in st W (di\<lparr>di_size := z\<rparr>)" by (simp add: file_in_def)
qed

lemma iupdate_law:
  fixes t :: "'a fs_st_scheme"
  assumes B: "blk_ok t W Map.empty D {}" "room t Map.empty D (Suc 0)" and I: "ino_ok t i W di" and nb: "0 < nblk W"
    and n: "inum (icache t i) < sb_ninodes (sb_of (W 1))"
  defines "ib \<equiv> IBLOCK (inum (icache t i))" and "off \<equiv> dinode_off (inum (icache t i))"
  defines "V \<equiv> W(ib := put_dinode off di (W ib))"
  shows "wp (iupdate i) (\<lambda>_ u. blk_frame t u \<and> blk_ok u V Map.empty (insert ib D) {} \<and> ino_ok u i V di) t"
    "get_dinode off (V ib) = di" "contents V di = contents W di" "fblocks V di = fblocks W di" "c < nblk W \<Longrightarrow> used V c = used W c" "V 1 = W 1"
proof -
  have f: "file_in (lstart t) W di" and p: "idev (icache t i) = 1" "dinode_of (icache t i) = di" using I by (auto simp: ino_ok_def)
  note r = iblock_range [OF f n nb, folded ib_def]
  have wf: "file_wf W di" using f by (simp add: file_in_def)
  have la: "length (di_addrs di) = NDIRECT + 1" using wf by (simp add: file_wf_def)
  have "length (W ib) = 512" by (rule lg.blk_len [OF B(1) r(1)])
  moreover have "off + 64 \<le> 512" using mod_less_divisor [of IPB "unat (inum (icache t i))"] by (simp add: off_def dinode_off_def IPB_def)
  ultimately have len: "length (put_dinode off di (W ib)) = 512" and g: "get_dinode off (V ib) = di"
    using la by (simp_all add: length_put_dinode V_def get_put_dinode)
  show "get_dinode off (V ib) = di" by (rule g)
  have ag: "\<forall>k \<in> fblocks W di. V k = W k" using r(4) by (auto simp: V_def)
  show "contents V di = contents W di" "fblocks V di = fblocks W di" using file_cong [OF ag] wf by simp_all
  show V1: "V 1 = W 1" using r(2) by (simp add: V_def)
  have vb: "V (bmblk W c) = W (bmblk W c)" if "c < nblk W" for c using r(3) [OF that] by (simp add: V_def)
  show us: "used V c = used W c" if "c < nblk W" for c using vb [OF that] V1 by (simp add: used_def)
  have fV: "file_in (lstart t) V di" using f file_cong(2,3) [OF ag] us V1 bitmap_cong(2) [of V W, OF V1] vb unfolding file_in_def
    by (auto simp: data_start_def)
  have "wp (iupdate i) (\<lambda>_ u. blk_ok u V Map.empty (insert ib D) {} \<and> blk_frame t u \<and> room u Map.empty (insert ib D) 0) t"
    using fs_modify [OF B(1) r(1) _ B(2), of "put_dinode off di"] len p unfolding iupdate_def V_def by (simp add: wp_bindK wp_getK ib_def off_def)
  then show "wp (iupdate i) (\<lambda>_ u. blk_frame t u \<and> blk_ok u V Map.empty (insert ib D) {} \<and> ino_ok u i V di) t"
  proof (rule wp_mono, elim conjE, intro conjI)
    fix y u assume u: "blk_ok u V Map.empty (insert ib D) {}" "blk_frame t u"
    show "blk_frame t u" "blk_ok u V Map.empty (insert ib D) {}" using u by simp_all
    show "ino_ok u i V di" using I fV lg.frame_same [OF u(2)] blk_frame_icache [OF u(2)] by (simp add: ino_ok_def)
  qed
qed

text \<open>The file after a write: its new contents, and what else may have changed.\<close>

definition written :: "'z fs_st_scheme \<Rightarrow> nat \<Rightarrow> dimg \<Rightarrow> dinode \<Rightarrow> byte list \<Rightarrow> 'z fs_st_scheme \<Rightarrow> dimg \<Rightarrow> dinode \<Rightarrow> uint set \<Rightarrow> bool" where
  "written s i W di C' t W' di' D' \<longleftrightarrow> blk_ok t W' Map.empty D' {} \<and> ino_frame i s t \<and> ino_ok t i W' di' \<and> finite D' \<and> card D' < NBUF
     \<and> contents W' di' = C' \<and> di_type di' = di_type di
     \<and> (\<forall>y. y \<notin> fblocks W' di' \<longrightarrow> y \<noteq> bmblk W 0 \<longrightarrow> y \<noteq> IBLOCK (inum (icache s i)) \<longrightarrow> W' y = W y)
     \<and> (\<forall>y \<in> fblocks W' di'. y \<in> fblocks W di \<or> unat y < nblk W \<and> \<not> used W (unat y)) \<and> (\<forall>c < nblk W. used W c \<longrightarrow> used W' c)
     \<and> (length (contents W di) < length C' \<longrightarrow> get_dinode (dinode_off (inum (icache s i))) (W' (IBLOCK (inum (icache s i)))) = di')"

lemma ino_frame_inum: "ino_frame i s t \<Longrightarrow> inum (icache t i) = inum (icache s i)"
  by (auto simp: ino_frame_def with_ino_def dest!: blk_frame_icache)

text \<open>The end of \<^verbatim>\<open>writei\<close>: a larger size goes into the inode and to the disk.\<close>

lemma writei_end:
  fixes t :: "'a fs_st_scheme"
  assumes g: "wi_inv s i W di a d E (length d) t" and E: "E + 2 \<le> log_budget s" "E + 2 < NBUF"
    and n: "inum (icache s i) < sb_ninodes (sb_of (W 1))" and nb: "0 < nblk W"
    and a: "a \<le> length (contents W di)" "a + length d \<le> MAXFILE * 512" "length (contents W di) \<le> MAXFILE * 512"
  defines "C \<equiv> contents W di" and "off \<equiv> of_nat (a + length d) :: uint"
  defines "C' \<equiv> take a C @ d @ drop (a + length d) C"
  shows "wp (seqK (whenK (of_nat (length d) > (0 :: uint) \<and> off > isize (icache t i)) (seqK (upd_inode i (\<lambda>p. p\<lparr>isize := off\<rparr>)) (iupdate i))) (ret r))
    (\<lambda>v u. v = r \<and> (\<exists>W' di' D'. written s i W di C' u W' di' D')) t"
proof -
  obtain W1 dj D e r' where w: "ino_frame i s t" "tx_ok t i W1 dj D e r'" "wrote W di a d (length d) W1 dj" "keeps W di W1 dj" "e \<le> E"
    using g by (auto simp: wi_inv_def todo_def)
  have L: "unat (di_size di) = length C" by (simp add: C_def contents_def)
  have sz: "di_size dj = di_size di" using w(3) by (simp add: wrote_def)
  have B: "blk_ok t W1 Map.empty D {}" and I: "ino_ok t i W1 dj" and lb: "lbusy t" and el: "elog D (bmblk W1 0) dj e" using w(2) by (auto simp: tx_ok_def)
  have dj: "isize (icache t i) = di_size di" using I sz by (auto simp: ino_ok_def dinode_of_def)
  have small: "a + length d < 2 ^ 31" using a(2) by (simp add: MAXFILE_def NDIRECT_def NINDIRECT_def)
  have uo: "unat off = a + length d" unfolding off_def by (rule off_words(1) [OF small])
  have ul: "unat (of_nat (length d) :: uint) = length d" by (rule off_words(1)) (use small in simp)
  have lg: "card D \<le> E" "finite D" using elog_le [OF el] w(5) el by (auto simp: elog_def)
  have caps: "log_budget t = log_budget s" using ino_frame_same [OF w(1)] by simp
  have rm: "room t Map.empty D (Suc 0)" using lg lb E caps by (simp add: room_def)
  have W11: "W1 1 = W 1" using w(4) by (simp add: keeps_def)
  have lC': "length C' = max (length C) (a + length d)" using a(1) by (simp add: C'_def C_def)
  note Wd = wrote_done [OF w(3) _ a(2), folded C_def, unfolded L]
  show ?thesis
  proof (cases "of_nat (length d) > (0 :: uint) \<and> off > isize (icache t i)")
    case False
    then have "a + length d \<le> length C" using uo ul dj L a(1) by (auto simp: word_less_nat_alt not_less C_def)
    then have "contents W1 dj = C'" using Wd(2) [of "di_size di"] a L sz unfolding C'_def C_def
      by (metis dinode.surjective dinode.update_convs(5) max.absorb1)
    moreover have "di_type dj = di_type di" using w(4) by (auto simp: keeps_def)
    moreover have "\<not> length C < length C'" using lC' \<open>a + length d \<le> length C\<close> by simp
    moreover have "card D < NBUF" using lg E by simp
    ultimately have "written s i W di C' t W1 dj D" using B I w(1,4) lg W11 unfolding written_def keeps_def C_def by auto
    then show ?thesis using False by (auto simp: wp_seqK wp_ret wp_whenK)
  next
    case True
    then have gt: "length C < a + length d" using uo dj L by (simp add: word_less_nat_alt)
    let ?dk = "dj\<lparr>di_size := off\<rparr>" and ?u = "with_ino i (addrs (icache t i), off) t"
    have wf: "file_wf W1 ?dk" and C: "contents W1 ?dk = C'" using Wd [of off] a uo gt unfolding C'_def C_def by (auto simp: max_def)
    have st: "t\<lparr>icache := (icache t)(i := (icache t i)\<lparr>isize := off\<rparr>)\<rparr> = ?u" by (simp add: with_ino_def)
    have Iu: "ino_ok ?u i W1 ?dk" using I file_in_size [OF _ wf] by (auto simp: ino_ok_def with_ino_def dinode_of_def)
    have Bu: "blk_ok ?u W1 Map.empty D {}" using B by (simp add: with_ino_def)
    have fu: "ino_frame i s ?u" by (rule ino_frame_upd [OF w(1)])
    have rmu: "room ?u Map.empty D (Suc 0)" using rm by (simp add: room_def with_ino_def log_budget_def)
    have nu: "inum (icache ?u i) = inum (icache s i)" by (rule ino_frame_inum [OF fu])
    have nbu: "0 < nblk W1" "inum (icache ?u i) < sb_ninodes (sb_of (W1 1))" using nb n nu W11 by simp_all
    note P = iupdate_law [OF Bu rmu Iu nbu, unfolded nu]
    let ?ib = "IBLOCK (inum (icache s i))" and ?off = "dinode_off (inum (icache s i))"
    let ?V = "W1(?ib := put_dinode ?off ?dk (W1 ?ib))"
    have fbk: "fblocks W1 ?dk = fblocks W1 dj" by (simp add: fblocks_def fslot_def blkno_def fun_eq_iff)
    have "written s i W di C' v ?V ?dk (insert ?ib D)" if v: "blk_frame ?u v" "blk_ok v ?V Map.empty (insert ?ib D) {}" "ino_ok v i ?V ?dk" for v
    proof -
      have "ino_frame i s v" by (rule ino_frame_blk [OF fu v(1)])
      moreover have "card (insert ?ib D) < NBUF" using lg E by (simp add: card_insert_if)
      moreover have "di_type ?dk = di_type di" using w(4) by (auto simp: keeps_def)
      moreover have "\<forall>c < nblk W. used W c \<longrightarrow> used ?V c" using P(5) w(4) W11 unfolding keeps_def by auto
      ultimately show ?thesis using v(2,3) P(2-4) C w(4) lg(2) unfolding written_def keeps_def fbk by auto
    qed
    then show ?thesis using True P(1) unfolding wp_seqK wp_whenK wp_ret upd_inode_def wp_modK st
      by (auto elim!: wp_mono)
  qed
qed

lemma writei_law:
  fixes s :: "'a fs_st_scheme"
  assumes B: "blk_ok s W Map.empty D {}" and I: "ino_ok s i W di" and lb: "lbusy s" and ty: "di_type di \<noteq> T_DEV"
    and n: "inum (icache s i) < sb_ninodes (sb_of (W 1))"
    and a: "a \<le> length (contents W di)" "a + length d \<le> MAXFILE * 512" and src: "src_gives s i src d"
    and cap: "card D + nb + 4 \<le> log_budget s" "card D + nb + 4 < NBUF" "nb < nfree W" and nb: "nb = (a + length d + 511) div 512 - a div 512"
  shows "wp (writei i src (of_nat a) (of_nat (length d)))
    (\<lambda>r t. r = of_nat (length d) \<and> (\<exists>W' di' D'. written s i W di (take a (contents W di) @ d @ drop (a + length d) (contents W di)) t W' di' D')) s"
proof -
  let ?C = "contents W di" and ?E = "card D + nb + 2" and ?B = "bmblk W 0"
  have f: "file_in (lstart s) W di" using I by (simp add: ino_ok_def)
  have L: "unat (di_size di) = length ?C" by (simp add: contents_def)
  have LM: "length ?C \<le> MAXFILE * 512" using f L by (simp add: file_in_def file_wf_def)
  have "finite D" using B by (auto simp: blk_ok_def)
  then have "elog D ?B di (card D + 2)" by (auto simp: elog_def card_insert_if)
  moreover have "enough W di nb" using cap(3) by (simp add: enough_def)
  ultimately have tx: "tx_ok s i W di D (card D + 2) nb" using B I lb cap by (simp add: tx_ok_def)
  have td: "todo a (length d) 0 \<le> nb" by (simp add: todo_def nb)
  have wf: "file_wf W di" using f by (simp add: file_in_def)
  have inv: "wi_inv s i W di a d ?E 0 s" unfolding wi_inv_def
    using tx wrote_start [OF wf, of a d] keeps_refl [of W di] td blk_ino_frame [OF lg.frame_refl]
    by (intro exI [of _ W] exI [of _ di] exI [of _ D] exI [of _ "card D + 2"] exI [of _ nb]) auto
  have E: "?E + 2 \<le> log_budget s" "?E + 2 < NBUF" using cap by simp_all
  have nbl: "0 < nblk W"
  proof (rule ccontr)
    assume "\<not> 0 < nblk W"
    then have "nfree W = 0" by (simp add: nfree_def)
    then show False using cap(3) by simp
  qed
  have p: "itype (icache s i) = di_type di" "isize (icache s i) = di_size di" using I by (auto simp: ino_ok_def dinode_of_def)
  have small: "a + length d < 2 ^ 31" using a(2) by (simp add: MAXFILE_def NDIRECT_def NINDIRECT_def)
  have u: "unat (of_nat a :: uint) = a" "unat (of_nat (a + length d) :: uint) = a + length d" using off_words(1) small by (simp, blast)
  have g: "\<not> isize (icache s i) < of_nat a" "\<not> of_nat a + of_nat (length d) < (of_nat a :: uint)"
    using u L a(1) p(2) by (simp_all add: word_less_nat_alt del: of_nat_add flip: of_nat_add)
  have big: "\<not> (of_nat (MAXFILE * 512) :: uintp) < ucast (of_nat a + of_nat (length d) :: uint)"
  proof -
    have "unat (ucast (of_nat (a + length d) :: uint) :: uintp) = a + length d" 
      using u(2) small by (simp add: unsigned_ucast_eq take_bit_word_eq_self take_bit_nat_eq_self del: of_nat_add)
    moreover have "unat (of_nat (MAXFILE * 512) :: uintp) = MAXFILE * 512" by (simp add: MAXFILE_def NDIRECT_def NINDIRECT_def)
    ultimately show ?thesis using a(2) by (simp add: word_less_nat_alt del: of_nat_add of_nat_mult flip: of_nat_add)
  qed
  let ?Q = "\<lambda>r t. r = of_nat (length d) \<and> (\<exists>W' di' D'. written s i W di (take a ?C @ d @ drop (a + length d) ?C) t W' di' D')"
  have "wp (writei_loop i src (of_nat a) (of_nat (length d))) (\<lambda>off t. wp (seqK (whenK (of_nat (length d) > (0 :: uint) \<and> off > isize (icache t i))
      (seqK (upd_inode i (\<lambda>p. p\<lparr>isize := off\<rparr>)) (iupdate i))) (ret (of_nat (length d)))) ?Q t) s"
  proof (rule wp_mono [OF writei_loop_law [OF inv a(2) src E]], elim conjE)
    fix off :: uint and t assume o: "off = of_nat (a + length d)" and w: "wi_inv s i W di a d ?E (length d) t"
    show "wp (seqK (whenK (of_nat (length d) > (0 :: uint) \<and> off > isize (icache t i))
      (seqK (upd_inode i (\<lambda>p. p\<lparr>isize := off\<rparr>)) (iupdate i))) (ret (of_nat (length d)))) ?Q t"
      unfolding o by (rule writei_end [OF w E n nbl a LM])
  qed
  then show ?thesis using g big p(1) ty unfolding writei_def wp_bindK wp_getK by (simp only: if_False wp_bindK wp_getK simp_thms)
qed


text \<open>An empty file in the inode cache of a machine with a transaction running.\<close>

definition empty_file :: inode where
  "empty_file = \<lparr>idev = 1, inum = 2, iref = 1, iflags = {I_BUSY, I_VALID}, itype = T_FILE, imajor = 0, iminor = 0, inlink = 1, isize = 0,
     addrs = replicate 13 0\<rparr>"

lemma empty_file_running:
  obtains s :: fs_st where "blk_ok s disk0 Map.empty {} {}" "ino_ok s 0 disk0 (dinode_of empty_file)" "lbusy s" "icache s 0 = empty_file"
    "log_budget s = 9" "1 < nfree disk0" "contents disk0 (dinode_of empty_file) = []"
proof -
  let ?s0 = "fs_boot\<lparr>disk := disk0, icache := (\<lambda>_. empty_file)\<rparr>"
  have "log_fresh ?s0" by (simp add: log_fresh_def idle_def free_lock_def fs_boot_defs)
  then obtain s :: fs_st where s: "blk_ok s disk0 Map.empty {} {}" "room s Map.empty {} 9" "lstart s = 1014"
    "\<exists>c l. s = ?s0\<lparr>bcache := c, locks := l, lbusy := True\<rparr>" by (rule disk0_running) simp_all
  have f: "fblocks disk0 (dinode_of empty_file) = {}" by (auto simp: fblocks_def fslot_def blkno_def empty_file_def dinode_of_def nth_Cons' NDIRECT_def)
  have "file_wf disk0 (dinode_of empty_file)"
    by (auto simp: file_wf_def f fslot_def blkno_def empty_file_def dinode_of_def NDIRECT_def nth_Cons' inj_on_def disk0_blocks(3))
  then have "file_in 1014 disk0 (dinode_of empty_file)" unfolding file_in_def f disk0_used(1) using disk0_used(3) by (simp add: BPB_def)
  then have "ino_ok s 0 disk0 (dinode_of empty_file)" "icache s 0 = empty_file" "log_budget s = 9" using s by (auto simp: ino_ok_def empty_file_def log_budget_def fs_boot_defs)
  moreover have "card {29, 30 :: nat} \<le> card {c. c < nblk disk0 \<and> \<not> used disk0 c}"
    unfolding disk0_used(1) by (rule card_mono) (auto simp: disk0_used(2))
  ultimately show ?thesis using s by (intro that [of s]) (auto simp: nfree_def empty_file_def dinode_of_def contents_def)
qed


end
