(* ===== verification/Mkfs.thy ===== *)
theory Mkfs
  imports Fsdata
begin

text \<open>
  \<^verbatim>\<open>tools/mkfs.c\<close>, the host program that builds the file system image. The image is a file of sectors;
  reading beyond its end fails, a hole reads as zeros. A failed assertion and \<^verbatim>\<open>exit(1)\<close> are panics of the
  model; the messages printed on the way, the check of the number of arguments and the opening of the image file are left out.
\<close>

section \<open>State\<close>

definition mkfs_nblocks :: nat where "mkfs_nblocks = 985"
definition mkfs_nlog :: nat where "mkfs_nlog = LOGSIZE"
definition mkfs_ninodes :: nat where "mkfs_ninodes = 200"
definition mkfs_size :: nat where "mkfs_size = 1024"

record mkfs_st =
  img :: dimg
  nsec :: nat
  freeblock :: uint
  usedblocks :: uint
  freeinode :: uint

definition xshort :: "ushort \<Rightarrow> ushort" where
  "xshort x = word_of_bytes [ucast x, ucast (drop_bit 8 x)]"

definition xint :: "uint \<Rightarrow> uint" where
  "xint x = word_of_bytes [ucast x, ucast (drop_bit 8 x), ucast (drop_bit 16 x), ucast (drop_bit 24 x)]"

definition assertK :: "bool \<Rightarrow> (unit, 's) kern" where
  "assertK c = (if c then ret () else panic ''assertion failed'')"

section \<open>Sectors and inodes\<close>

definition wsect :: "uint \<Rightarrow> byte list \<Rightarrow> (unit, mkfs_st) kern" where
  "wsect sec buf = modK (\<lambda>s. s\<lparr>img := (img s)(sec := buf), nsec := max (nsec s) (unat sec + 1)\<rparr>)"

definition rsect :: "uint \<Rightarrow> (byte list, mkfs_st) kern" where
  "rsect sec =
    bindK (getK (\<lambda>s. unat sec < nsec s)) (\<lambda>ok.
      if ok then getK (\<lambda>s. img s sec) else panic ''read'')"

definition i2b :: "uint \<Rightarrow> uint" where
  "i2b ino = ino div of_nat IPB + 2"

definition winode :: "uint \<Rightarrow> dinode \<Rightarrow> (unit, mkfs_st) kern" where
  "winode ino ip =
    bindK (rsect (i2b ino)) (\<lambda>buf.
      wsect (i2b ino) (put_dinode (64 * (unat ino mod IPB)) ip buf))"

definition rinode :: "uint \<Rightarrow> (dinode, mkfs_st) kern" where
  "rinode ino =
    bindK (rsect (i2b ino)) (\<lambda>buf. ret (get_dinode (64 * (unat ino mod IPB)) buf))"

definition mkfs_ialloc :: "ushort \<Rightarrow> (uint, mkfs_st) kern" where
  "mkfs_ialloc ty =
    bindK (getK freeinode) (\<lambda>ino.
    seqK (modK (\<lambda>s. s\<lparr>freeinode := freeinode s + 1\<rparr>))
   (seqK (winode ino \<lparr>di_type = xshort ty, di_major = 0, di_minor = 0, di_nlink = xshort 1, di_size = xint 0,
            di_addrs = replicate 13 0\<rparr>)
         (ret ino)))"

definition mkfs_balloc :: "uint \<Rightarrow> (unit, mkfs_st) kern" where
  "mkfs_balloc ub =
    seqK (assertK (sint ub < 512 * 8))
         (wsect (of_nat (mkfs_ninodes div IPB + 3)) (fold bm_set [0..<nat (sint ub)] (replicate 512 0)))"

section \<open>Appending to a file\<close>

text \<open>\<^verbatim>\<open>xint(freeblock++)\<close> and \<^verbatim>\<open>usedblocks++\<close>.\<close>

definition newblock :: "(uint, mkfs_st) kern" where
  "newblock =
    bindK (getK freeblock) (\<lambda>b.
    seqK (modK (\<lambda>s. s\<lparr>freeblock := freeblock s + 1, usedblocks := usedblocks s + 1\<rparr>))
         (ret (xint b)))"

text \<open>The block of file block \<open>fbn\<close> through the indirect block, which gets a new entry if there is none.\<close>

definition iappend_ind :: "dinode \<Rightarrow> nat \<Rightarrow> (dinode \<times> uint, mkfs_st) kern" where
  "iappend_ind din fbn =
    (let ind = xint (di_addrs din ! NDIRECT); j = fbn - NDIRECT in
     bindK (rsect ind) (\<lambda>indirect.
       if get32 (4 * j) indirect = 0 then
         bindK newblock (\<lambda>b.
         seqK (wsect ind (put32 (4 * j) b indirect))
              (ret (din, xint b)))
       else ret (din, xint (get32 (4 * j) indirect))))"

text \<open>The part of the loop of \<^verbatim>\<open>iappend\<close> that finds the block of file block \<open>fbn\<close>, or gives the file one.\<close>

definition iappend_blk :: "dinode \<Rightarrow> nat \<Rightarrow> (dinode \<times> uint, mkfs_st) kern" where
  "iappend_blk din fbn =
    (if fbn < NDIRECT then
       if xint (di_addrs din ! fbn) = 0 then
         bindK newblock (\<lambda>b. ret (din\<lparr>di_addrs := (di_addrs din)[fbn := b]\<rparr>, xint b))
       else ret (din, xint (di_addrs din ! fbn))
     else if xint (di_addrs din ! NDIRECT) = 0 then
       bindK newblock (\<lambda>b. iappend_ind (din\<lparr>di_addrs := (di_addrs din)[NDIRECT := b]\<rparr>) fbn)
     else iappend_ind din fbn)"

text \<open>The loop: the inode, \<^verbatim>\<open>off\<close>, and the bytes still to come.\<close>

definition iappend_step :: "dinode \<times> uint \<times> byte list \<Rightarrow> ((dinode \<times> uint \<times> byte list) + (dinode \<times> uint), mkfs_st) kern" where
  "iappend_step = (\<lambda>(din, off, p).
    if p = [] then ret (Inr (din, off))
    else
      let fbn = off div 512 in
      seqK (assertK (unat fbn < MAXFILE))
     (bindK (iappend_blk din (unat fbn)) (\<lambda>(din, x).
      let n1 = min (length p) (unat ((fbn + 1) * 512 - off)) in
      bindK (rsect x) (\<lambda>buf.
      seqK (wsect x (splice (unat (off - fbn * 512)) (take n1 p) buf))
           (ret (Inl (din, off + of_nat n1, drop n1 p)))))))"

definition iappend :: "uint \<Rightarrow> byte list \<Rightarrow> (unit, mkfs_st) kern" where
  "iappend ino xp =
    bindK (rinode ino) (\<lambda>din.
    bindK (loopK iappend_step (din, xint (di_size din), xp)) (\<lambda>(din, off).
      winode ino (din\<lparr>di_size := xint off\<rparr>)))"

section \<open>main\<close>

definition put_sb :: "uint \<Rightarrow> uint \<Rightarrow> uint \<Rightarrow> uint \<Rightarrow> byte list" where
  "put_sb n nb ni nl = put_words 0 [xint n, xint nb, xint ni, xint nl] (replicate 512 0)"

definition mkfs_start :: "(unit, mkfs_st) kern" where
  "mkfs_start =
    (let bitblocks = mkfs_size div (512 * 8) + 1; ub = mkfs_ninodes div IPB + 3 + bitblocks in
     seqK (modK (\<lambda>s. s\<lparr>usedblocks := of_nat ub, freeblock := of_nat ub\<rparr>))
    (seqK (assertK (mkfs_nblocks + ub + mkfs_nlog = mkfs_size))
    (seqK (forK [0..<mkfs_nblocks + ub + mkfs_nlog] (\<lambda>i. wsect (of_nat i) (replicate 512 0)))
          (wsect 1 (put_sb (of_nat mkfs_size) (of_nat mkfs_nblocks) (of_nat mkfs_ninodes) (of_nat mkfs_nlog))))))"

definition mkfs_root :: "(uint, mkfs_st) kern" where
  "mkfs_root =
    bindK (mkfs_ialloc T_DIR) (\<lambda>rootino.
    seqK (assertK (rootino = ROOTINO))
   (seqK (iappend rootino (de_pack [46] (ucast (xshort (ucast rootino)))))
   (seqK (iappend rootino (de_pack [46, 46] (ucast (xshort (ucast rootino)))))
         (ret rootino))))"

text \<open>
  One file argument: its name and what the successive calls of \<^verbatim>\<open>read\<close> on it return, \<open>None\<close> if it cannot be opened. A
  leading \<^verbatim>\<open>fs/\<close> is dropped from the name.
\<close>

definition strip_fs :: "byte list \<Rightarrow> byte list" where
  "strip_fs name = (if take 3 name = [102, 115, 47] then drop 3 name else name)"

definition mkfs_file :: "uint \<Rightarrow> byte list \<times> byte list list option \<Rightarrow> (unit, mkfs_st) kern" where
  "mkfs_file rootino = (\<lambda>(arg, reads).
    let name = strip_fs arg in
    seqK (assertK (47 \<notin> set name))
    (case reads of None \<Rightarrow> panic ''open''
     | Some chunks \<Rightarrow>
       bindK (mkfs_ialloc T_FILE) (\<lambda>ino.
       seqK (iappend rootino (de_pack name (ucast (xshort (ucast ino)))))
            (forK chunks (iappend ino)))))"

definition mkfs_finish :: "uint \<Rightarrow> (unit, mkfs_st) kern" where
  "mkfs_finish rootino =
    bindK (rinode rootino) (\<lambda>din.
    let off = xint (di_size din) in
    seqK (winode rootino (din\<lparr>di_size := xint ((off div 512 + 1) * 512)\<rparr>))
   (bindK (getK usedblocks) mkfs_balloc))"

definition mkfs_main :: "(byte list \<times> byte list list option) list \<Rightarrow> (unit, mkfs_st) kern" where
  "mkfs_main args =
    seqK mkfs_start
   (bindK mkfs_root (\<lambda>rootino.
    seqK (forK args (mkfs_file rootino))
         (mkfs_finish rootino)))"

text \<open>The image file after \<^verbatim>\<open>open\<close> with \<^verbatim>\<open>O_TRUNC\<close>.\<close>

definition mkfs_init :: mkfs_st where
  "mkfs_init = \<lparr>img = \<lambda>_. replicate 512 0, nsec = 0, freeblock = 0, usedblocks = 0, freeinode = 1\<rparr>"

section \<open>One file grows\<close>

lemma xint_id [simp]: "xint x = x"
proof -
  have "xint x = word_of_bytes (bytes32 x)" by (simp add: xint_def bytes32_def)
  then show ?thesis by simp
qed

lemma xshort_id [simp]: "xshort x = x"
proof -
  have "xshort x = word_of_bytes (bytes16 x)" by (simp add: xshort_def bytes16_def)
  then show ?thesis by simp
qed

lemma wp_assertK [wp_rules]: "wp (assertK c) Q s = (c \<and> Q () s)"
  by (simp add: assertK_def wp_ret wp_panic)

text \<open>
  In the middle of \<^verbatim>\<open>iappend\<close>: the first \<open>k\<close> bytes of \<open>d\<close> have been appended to the file \<open>di0\<close> of length \<open>a\<close>, the file lives in
  blocks that have been handed out, those from \<open>f0\<close> on by \<^verbatim>\<open>iappend\<close> itself, every other block is as it was, blocks not yet handed out are zero, and so are the bytes of
  the file behind what has been written (\<open>tailz\<close>).
\<close>

definition tailz :: "nat \<Rightarrow> dimg \<Rightarrow> dinode \<Rightarrow> bool" where
  "tailz n W di \<longleftrightarrow> (\<forall>j \<ge> n. j div 512 < MAXFILE \<longrightarrow> blkno W di (j div 512) \<noteq> 0 \<longrightarrow> fbyte W di j = 0)"

definition growing :: "nat \<Rightarrow> dimg \<Rightarrow> dinode \<Rightarrow> nat \<Rightarrow> byte list \<Rightarrow> nat \<Rightarrow> mkfs_st \<Rightarrow> dinode \<Rightarrow> bool" where
  "growing f0 W0 di0 a d k s din \<longleftrightarrow> wrote W0 di0 a d k (img s) din \<and> (\<exists>as. din = di0\<lparr>di_addrs := as\<rparr>)
     \<and> fblocks (img s) din \<subseteq> {x. 29 \<le> unat x \<and> unat x < unat (freeblock s)} \<and> 29 \<le> unat (freeblock s)
     \<and> fblocks (img s) din \<subseteq> fblocks W0 di0 \<union> {x. f0 \<le> unat x} \<and> f0 \<le> unat (freeblock s)
     \<and> (\<forall>x. x \<notin> fblocks (img s) din \<longrightarrow> img s x = W0 x) \<and> (\<forall>x. unat (freeblock s) \<le> unat x \<longrightarrow> W0 x = replicate 512 0)
     \<and> nsec s = 1024 \<and> usedblocks s = freeblock s \<and> tailz (a + k) (img s) din"

lemma growing_wf: "growing f0 W0 di0 a d k s din \<Longrightarrow> file_wf (img s) din"
  by (simp add: growing_def wrote_def)

text \<open>The file gets the next block in slot \<open>n\<close>.\<close>

definition granted :: "nat \<Rightarrow> dinode \<Rightarrow> mkfs_st \<Rightarrow> mkfs_st" where
  "granted n din s = s\<lparr>img := slot_img n (freeblock s) din (img s), freeblock := freeblock s + 1, usedblocks := usedblocks s + 1\<rparr>"

lemma granted_sel [simp]: "freeinode (granted n din s) = freeinode s" "freeblock (granted n din s) = freeblock s + 1"
  by (simp_all add: granted_def)

lemma growing_grant:
  assumes g: "growing f0 W0 di0 a d k s din" and n: "n \<le> MAXFILE" "fslot (img s) din n = 0"
    "n < NDIRECT \<or> n = MAXFILE \<or> di_addrs din ! NDIRECT \<noteq> 0" and f: "unat (freeblock s) < 1024"
  shows "growing f0 W0 di0 a d k (granted n din s) (slot_di n (freeblock s) din)"
    "m < MAXFILE \<Longrightarrow> blkno (img (granted n din s)) (slot_di n (freeblock s) din) m = (if m = n then freeblock s else blkno (img s) din m)"
    "unat (freeblock (granted n din s)) = unat (freeblock s) + 1" "freeblock s \<noteq> 0"
proof -
  let ?b = "freeblock s"
  have nb: "?b \<notin> fblocks (img s) din" using g by (auto simp: growing_def)
  have b0: "?b \<noteq> 0" using g by (auto simp: growing_def)
  have z: "img s ?b = replicate 512 0" using g nb by (auto simp: growing_def)
  note L = set_slot_law [OF growing_wf [OF g] n b0 nb z]
  show u: "unat (freeblock (granted n din s)) = unat ?b + 1" using f by (simp add: granted_def unat_word_ariths)
  show "?b \<noteq> 0" by (rule b0)
  show "blkno (img (granted n din s)) (slot_di n ?b din) m = (if m = n then ?b else blkno (img s) din m)" if "m < MAXFILE"
    using L(4) [OF that] by (simp add: granted_def)
  have "wrote W0 di0 a d k (img (granted n din s)) (slot_di n ?b din)"
    using wrote_slot [OF _ n b0 nb z] g by (simp add: growing_def granted_def)
  moreover have fb: "fblocks (img (granted n din s)) (slot_di n ?b din) = insert ?b (fblocks (img s) din)" using L(1) by (simp add: granted_def)
  moreover have "\<exists>as. slot_di n ?b din = di0\<lparr>di_addrs := as\<rparr>" using g by (auto simp: growing_def slot_di_def)
  moreover have "img (granted n din s) x = W0 x" if "x \<notin> insert ?b (fblocks (img s) din)" for x
    using that L(7) [of x] g by (simp add: granted_def growing_def)
  moreover have "W0 x = replicate 512 0" if "unat (freeblock (granted n din s)) \<le> unat x" for x
    using that g unfolding u by (simp add: growing_def)
  moreover have "tailz (a + k) (img (granted n din s)) (slot_di n ?b din)"
    unfolding tailz_def
  proof (intro allI impI)
    fix j assume j: "a + k \<le> j" "j div 512 < MAXFILE" "blkno (img (granted n din s)) (slot_di n ?b din) (j div 512) \<noteq> 0"
    show "fbyte (img (granted n din s)) (slot_di n ?b din) j = 0"
    proof (cases "j div 512 = n")
      case True
      then show ?thesis using L(4) [OF j(2)] L(6) by (simp add: fbyte_def granted_def)
    next
      case False
      then have "blkno (img s) din (j div 512) \<noteq> 0" using L(4) [OF j(2)] j(3) by (simp add: granted_def)
      then show ?thesis using False j g L(4,5) [of "j div 512"] by (simp add: growing_def tailz_def fbyte_def granted_def)
    qed
  qed
  ultimately show "growing f0 W0 di0 a d k (granted n din s) (slot_di n ?b din)" using g u
    unfolding growing_def by (auto simp: granted_def)
qed

lemma growing_chunk:
  assumes g: "growing f0 W0 di0 a d k s din" and x: "(a + k) div 512 < MAXFILE" "x = blkno (img s) din ((a + k) div 512)" "x \<noteq> 0"
    and m: "(a + k) mod 512 + m \<le> 512" "k + m \<le> length d"
  defines "t \<equiv> s\<lparr>img := (img s)(x := splice ((a + k) mod 512) (slice k m d) (img s x))\<rparr>"
  shows "growing f0 W0 di0 a d (k + m) t din" "i < MAXFILE \<Longrightarrow> blkno (img t) din i = blkno (img s) din i"
    "x \<in> fblocks (img s) din"
proof -
  have w: "wrote W0 di0 a d k (img s) din" using g by (simp add: growing_def)
  have "(a + k) mod 512 + length (slice k m d) \<le> 512" using m by simp
  note L = write_block_law [OF growing_wf [OF g] x(1) x(3) [unfolded x(2)] this, folded x(2)]
  have W: "wrote W0 di0 a d (k + m) (img t) din" using wrote_chunk [OF w x m] by (simp add: t_def)
  show xb: "x \<in> fblocks (img s) din" using fblocksI(1) [OF x(1), of "img s" din] x by simp
  show "blkno (img t) din i = blkno (img s) din i" if "i < MAXFILE" using L(1) [of i] that by (simp add: t_def fslot_def)
  have "fblocks (img t) din = fblocks (img s) din" using L(2) by (simp add: t_def)
  moreover have "tailz (a + (k + m)) (img t) din"
    unfolding tailz_def
  proof (intro allI impI)
    fix j assume j: "a + (k + m) \<le> j" "j div 512 < MAXFILE" "blkno (img t) din (j div 512) \<noteq> 0"
    have b: "blkno (img s) din (j div 512) \<noteq> 0" using j L(1) [of "j div 512"] by (simp add: t_def fslot_def)
    have "a + k = 512 * ((a + k) div 512) + (a + k) mod 512" "j = 512 * (j div 512) + j mod 512" by simp_all
    then have "\<not> (j div 512 = (a + k) div 512 \<and> (a + k) mod 512 \<le> j mod 512 \<and> j mod 512 < (a + k) mod 512 + length (slice k m d))"
      using j(1) m(2) length_slice [of k m d] by linarith
    then have "fbyte (img t) din j = fbyte (img s) din j" using L(4) [OF j(2) b] by (auto simp: t_def)
    then show "fbyte (img t) din j = 0" using g j b by (simp add: growing_def tailz_def)
  qed
  ultimately show "growing f0 W0 di0 a d (k + m) t din" using g W xb unfolding growing_def by (auto simp: t_def)
qed

section \<open>How many blocks\<close>

text \<open>The file has a block exactly for the first \<open>m\<close> file blocks, and an indirect block when it needs one.\<close>

definition blocks_to :: "nat \<Rightarrow> dimg \<Rightarrow> dinode \<Rightarrow> bool" where
  "blocks_to m W di \<longleftrightarrow> (\<forall>n < MAXFILE. blkno W di n \<noteq> 0 \<longleftrightarrow> n < m) \<and> (di_addrs di ! NDIRECT \<noteq> 0 \<longleftrightarrow> NDIRECT < m)"

definition nslots :: "nat \<Rightarrow> nat" where
  "nslots m = m + (if NDIRECT < m then 1 else 0)"

abbreviation cdiv :: "nat \<Rightarrow> nat" where
  "cdiv x \<equiv> (x + 511) div 512"


lemma blocks_to_grant:
  assumes g: "growing f0 W0 di0 a d k s din" and u: "blocks_to m (img s) din" and f: "unat (freeblock s) < 1024" and m: "m < MAXFILE"
    and i: "NDIRECT \<le> m \<Longrightarrow> di_addrs din ! NDIRECT \<noteq> 0"
  shows "fslot (img s) din m = 0" "blocks_to (Suc m) (img (granted m din s)) (slot_di m (freeblock s) din) \<or> m = NDIRECT"
proof -
  show z: "fslot (img s) din m = 0" using u m by (auto simp: blocks_to_def fslot_def)
  have "m < NDIRECT \<or> m = MAXFILE \<or> di_addrs din ! NDIRECT \<noteq> 0" using i by linarith
  note G = growing_grant [OF g less_imp_le [OF m] z this f]
  have "di_addrs (slot_di m (freeblock s) din) ! NDIRECT = di_addrs din ! NDIRECT" using m by (simp add: slot_di_def)
  then show "blocks_to (Suc m) (img (granted m din s)) (slot_di m (freeblock s) din) \<or> m = NDIRECT"
    using u i G(2,4) by (auto simp: blocks_to_def less_Suc_eq)
qed

lemma rsect_law: "unat x < nsec s \<Longrightarrow> wp (rsect x) Q s = Q (img s x) s"
  by (simp add: rsect_def wp_rules)

lemma wsect_law: "unat x < nsec s \<Longrightarrow> wp (wsect x b) Q s = Q () (s\<lparr>img := (img s)(x := b)\<rparr>)"
proof -
  assume "unat x < nsec s"
  then have "s\<lparr>img := (img s)(x := b), nsec := max (nsec s) (unat x + 1)\<rparr> = s\<lparr>img := (img s)(x := b)\<rparr>" by (simp add: max_def)
  then show ?thesis by (simp add: wsect_def wp_rules)
qed

lemma newblock_law: "wp newblock Q s = Q (freeblock s) (s\<lparr>freeblock := freeblock s + 1, usedblocks := usedblocks s + 1\<rparr>)"
  by (simp add: newblock_def wp_rules)

text \<open>The block of file block \<open>n\<close> once the indirect block is there.\<close>

lemma iappend_ind_law:
  assumes g: "growing f0 W0 di0 a d k s din" and n: "NDIRECT \<le> n" "n < MAXFILE" and ind: "di_addrs din ! NDIRECT \<noteq> 0"
    and f: "unat (freeblock s) \<le> 1024" "blkno (img s) din n = 0 \<Longrightarrow> unat (freeblock s) < 1024"
  shows "wp (iappend_ind din n)
    (\<lambda>(din', x) t. din' = din \<and> t = (if blkno (img s) din n = 0 then granted n din s else s)
       \<and> x = (if blkno (img s) din n = 0 then freeblock s else blkno (img s) din n)) s"
proof -
  let ?i = "di_addrs din ! NDIRECT"
  have "?i \<in> fblocks (img s) din" by (rule fblocksI(2) [OF ind])
  then have "unat ?i < unat (freeblock s)" using g by (auto simp: growing_def)
  then have i: "unat ?i < nsec s" "nsec s = 1024" using g f by (auto simp: growing_def)
  have e: "blkno (img s) din n = get32 (4 * (n - NDIRECT)) (img s ?i)" using n ind by (simp add: blkno_def)
  show ?thesis using n i
    by (auto simp: iappend_ind_def Let_def wp_rules rsect_law newblock_law wsect_def e granted_def slot_img_def max_def intro!: mkfs_st.equality)
qed

lemma slot_di_ind: "NDIRECT \<le> n \<Longrightarrow> n < MAXFILE \<Longrightarrow> slot_di n x din = din"
  by (simp add: slot_di_def)

lemma iappend_blk_law:
  assumes g: "growing f0 W0 di0 a d k s din" and u: "blocks_to m (img s) din" and n: "n < MAXFILE" "n \<le> m"
    and f: "unat (freeblock s) + nslots (max m (Suc n)) \<le> 1024 + nslots m"
  shows "wp (iappend_blk din n) (\<lambda>(din', x) t. growing f0 W0 di0 a d k t din' \<and> blocks_to (max m (Suc n)) (img t) din'
      \<and> x = blkno (img t) din' n \<and> x \<noteq> 0 \<and> unat (freeblock t) + nslots m = unat (freeblock s) + nslots (max m (Suc n))
      \<and> freeinode t = freeinode s) s"
proof (cases "n < m")
  case True
  then have mx: "max m (Suc n) = m" and b: "blkno (img s) din n \<noteq> 0" using u n by (auto simp: blocks_to_def)
  show ?thesis
  proof (cases "n < NDIRECT")
    case True
    then show ?thesis using g u b mx by (simp add: iappend_blk_def wp_rules blkno_def)
  next
    case False
    then have i: "di_addrs din ! NDIRECT \<noteq> 0" using u True by (simp add: blocks_to_def)
    show ?thesis using False i iappend_ind_law [OF g _ n(1) i] f mx b g u
      by (auto simp: iappend_blk_def wp_rules elim!: wp_mono)
  qed
next
  case False
  then have nm: "n = m" "max m (Suc n) = Suc m" using n by auto
  have lt: "unat (freeblock s) < 1024" using f by (simp add: nm nslots_def split: if_splits)
  have b0: "blkno (img s) din m = 0" using u n nm by (auto simp: blocks_to_def)
  have b: "unat (freeblock s) \<le> 1024" using lt by simp
  show ?thesis
  proof (cases "m < NDIRECT")
    case True
    have a0: "di_addrs din ! m = 0" using b0 True by (simp add: blkno_def)
    have t: "s\<lparr>freeblock := freeblock s + 1, usedblocks := usedblocks s + 1\<rparr> = granted m din s"
      using True by (simp add: granted_def slot_img_def)
    have z: "fslot (img s) din m = 0" by (rule blocks_to_grant [OF g u lt]) (use n nm True in auto)
    have "blocks_to (Suc m) (img (granted m din s)) (slot_di m (freeblock s) din)"
      using blocks_to_grant(2) [OF g u lt] n nm True by auto
    moreover note G = growing_grant [OF g _ z _ lt]
    ultimately show ?thesis using True a0 n nm G t
      by (auto simp: iappend_blk_def wp_rules newblock_law nslots_def slot_di_def granted_def)
  next
    case False
    show ?thesis
    proof (cases "m = NDIRECT")
      case m12: True
      let ?b = "freeblock s" and ?s1 = "granted MAXFILE din s" and ?d1 = "slot_di MAXFILE (freeblock s) din"
      have z: "fslot (img s) din MAXFILE = 0" using u m12 by (simp add: blocks_to_def fslot_def)
      have G: "growing f0 W0 di0 a d k ?s1 ?d1" "\<And>j. j < MAXFILE \<Longrightarrow> blkno (img ?s1) ?d1 j = blkno (img s) din j"
        "unat (freeblock ?s1) = unat ?b + 1" "?b \<noteq> 0"
        using growing_grant [OF g _ z _ lt] by auto
      have la: "length (di_addrs din) = NDIRECT + 1" using growing_wf [OF g] by (simp add: file_wf_def)
      have i1: "di_addrs ?d1 ! NDIRECT = ?b" using la by (simp add: slot_di_def MAXFILE_def NDIRECT_def)
      have z0: "di_addrs din ! NDIRECT = 0" using z by (simp add: fslot_def)
      have b1: "blkno (img ?s1) ?d1 m = 0" using G(2) [of m] b0 n nm by simp
      have lt1: "unat (freeblock ?s1) < 1024" using f G(3) by (simp add: nm nslots_def m12)
      have t1: "s\<lparr>freeblock := ?b + 1, usedblocks := usedblocks s + 1\<rparr> = ?s1" by (simp add: granted_def slot_img_def)
      have d1: "din\<lparr>di_addrs := (di_addrs din)[NDIRECT := ?b]\<rparr> = ?d1" by (simp add: slot_di_def MAXFILE_def NINDIRECT_def)
      have nd: "NDIRECT \<le> m" "m < MAXFILE" "di_addrs ?d1 ! NDIRECT \<noteq> 0" using m12 n nm i1 G(4) by auto
      have z1: "fslot (img ?s1) ?d1 m = 0" using b1 nd by (simp add: fslot_def)
      have H: "growing f0 W0 di0 a d k (granted m ?d1 ?s1) (slot_di m (freeblock ?s1) ?d1)"
        "\<And>j. j < MAXFILE \<Longrightarrow> blkno (img (granted m ?d1 ?s1)) (slot_di m (freeblock ?s1) ?d1) j = (if j = m then freeblock ?s1 else blkno (img ?s1) ?d1 j)"
        "unat (freeblock (granted m ?d1 ?s1)) = unat (freeblock ?s1) + 1" "freeblock ?s1 \<noteq> 0"
        using growing_grant [OF G(1) _ z1 _ lt1] nd by auto
      have up: "blocks_to (Suc m) (img (granted m ?d1 ?s1)) ?d1"
        using u H(2,4) G(2) nd m12 unfolding blocks_to_def slot_di_ind [OF nd(1,2)] by (auto simp: less_Suc_eq)
      have "wp (iappend_ind ?d1 m)
        (\<lambda>(din', x) t. din' = ?d1 \<and> t = granted m ?d1 ?s1 \<and> x = freeblock ?s1) ?s1"
        using iappend_ind_law [OF G(1) nd] lt1 b1 by simp
      then show ?thesis unfolding nm(1) iappend_blk_def using m12 z0 H(1,3,4) H(2) [OF nd(2)] up nm G(3) lt1 slot_di_ind [OF nd(1,2)]
        by (auto simp: wp_rules newblock_law t1 d1 nslots_def elim!: wp_mono)
    next
      case m13: False
      then have nd: "NDIRECT \<le> m" "m < MAXFILE" "di_addrs din ! NDIRECT \<noteq> 0" using False n nm u by (auto simp: blocks_to_def)
      have z: "fslot (img s) din m = 0" using b0 nd by (simp add: fslot_def)
      have H: "growing f0 W0 di0 a d k (granted m din s) (slot_di m (freeblock s) din)"
        "\<And>j. j < MAXFILE \<Longrightarrow> blkno (img (granted m din s)) (slot_di m (freeblock s) din) j = (if j = m then freeblock s else blkno (img s) din j)"
        "unat (freeblock (granted m din s)) = unat (freeblock s) + 1" "freeblock s \<noteq> 0"
        using growing_grant [OF g _ z _ lt] nd by auto
      have up: "blocks_to (Suc m) (img (granted m din s)) din" using blocks_to_grant(2) [OF g u lt nd(2)] nd m13 slot_di_ind [OF nd(1,2)] by auto
      show ?thesis unfolding nm(1) iappend_blk_def using False m13 nd H up nm iappend_ind_law [OF g nd b] b0 lt slot_di_ind [OF nd(1,2)]
        by (auto simp: wp_rules Let_def nslots_def granted_def elim!: wp_mono)
    qed
  qed
qed

lemma off_split:
  assumes "x < 2 ^ 31"
  shows "unat ((of_nat x :: uint) div 512) = x div 512"
    "unat (((of_nat x :: uint) div 512 + 1) * 512 - of_nat x) = 512 - x mod 512"
    "unat ((of_nat x :: uint) - of_nat x div 512 * 512) = x mod 512"
proof -
  have u: "unat (of_nat x :: uint) = x" using assms by (simp add: unat_of_nat)
  then show d: "unat ((of_nat x :: uint) div 512) = x div 512" by (simp add: unat_div)
  then have e: "(of_nat x :: uint) div 512 = of_nat (x div 512)" by (metis of_nat_unat ucast_id)
  have x: "x = x div 512 * 512 + x mod 512" "x mod 512 < 512" by simp_all
  have X: "(of_nat x :: uint) = of_nat (x div 512) * 512 + of_nat (x mod 512)"
    by (metis of_nat_add of_nat_mult of_nat_numeral x(1))
  have r: "((of_nat x :: uint) div 512 + 1) * 512 - of_nat x = of_nat (512 - x mod 512)"
    unfolding e unfolding X by (subst of_nat_diff) (use x(2) in \<open>simp_all add: algebra_simps\<close>)
  show "unat (((of_nat x :: uint) div 512 + 1) * 512 - of_nat x) = 512 - x mod 512"
    unfolding r by (simp only: unat_of_nat) simp
  have r: "(of_nat x :: uint) - of_nat x div 512 * 512 = of_nat (x mod 512)" unfolding e unfolding X by simp
  show "unat ((of_nat x :: uint) - of_nat x div 512 * 512) = x mod 512"
    unfolding r by (simp only: unat_of_nat) simp
qed

lemma nslots_mono: "m \<le> n \<Longrightarrow> nslots m \<le> nslots n"
  by (simp add: nslots_def)

lemma cdiv_in: "0 < n1 \<Longrightarrow> x mod 512 + n1 \<le> 512 \<Longrightarrow> cdiv (x + n1) = Suc (x div 512)"
proof -
  assume a: "0 < n1" "x mod 512 + n1 \<le> 512"
  have "x + n1 + 511 = 512 * Suc (x div 512) + (x mod 512 + n1 - 1)" using a div_mult_mod_eq [of x 512] by simp
  moreover have "x mod 512 + n1 - 1 < 512" using a by simp
  ultimately show ?thesis by (metis add.commute div_mult_self4 div_less add_0 zero_neq_numeral)
qed

text \<open>The file has grown by \<open>k\<close> bytes, and the blocks it took are the next ones.\<close>

definition file_grown :: "dimg \<Rightarrow> dinode \<Rightarrow> nat \<Rightarrow> byte list \<Rightarrow> mkfs_st \<Rightarrow> nat \<Rightarrow> dinode \<Rightarrow> mkfs_st \<Rightarrow> bool" where
  "file_grown W0 di0 a d s k din t \<longleftrightarrow> growing (unat (freeblock s)) W0 di0 a d k t din \<and> blocks_to (cdiv (a + k)) (img t) din
     \<and> unat (freeblock t) + nslots (cdiv a) = unat (freeblock s) + nslots (cdiv (a + k)) \<and> freeinode t = freeinode s"

lemma iappend_step_law:
  assumes g: "file_grown W0 di0 a d s k din t" and k: "k < length d" and a: "a + length d \<le> MAXFILE * 512"
    and f: "unat (freeblock s) + nslots (cdiv (a + length d)) \<le> 1024 + nslots (cdiv a)"
  defines "n1 \<equiv> min (length d - k) (512 - (a + k) mod 512)"
  shows "wp (iappend_step (din, of_nat (a + k), drop k d))
    (\<lambda>r u. \<exists>din'. r = Inl (din', of_nat (a + (k + n1)), drop (k + n1) d) \<and> file_grown W0 di0 a d s (k + n1) din' u) t"
proof -
  let ?x = "a + k"
  let ?n = "?x div 512"
  have x: "?x < MAXFILE * 512" using k a by simp
  then have x31: "?x < 2 ^ 31" by (simp add: MAXFILE_def NDIRECT_def NINDIRECT_def)
  note O = off_split [OF x31]
  have n: "?n < MAXFILE" using x by (simp add: div_less_iff_less_mult)
  have n1: "0 < n1" "?x mod 512 + n1 \<le> 512" "k + n1 \<le> length d" using k by (auto simp: n1_def)
  have G: "growing (unat (freeblock s)) W0 di0 a d k t din" "blocks_to (cdiv ?x) (img t) din" using g by (auto simp: file_grown_def)
  have c: "cdiv (a + (k + n1)) = Suc ?n" using cdiv_in [OF n1(1,2)] by (simp add: add.assoc)
  have m: "?n \<le> cdiv ?x" "max (cdiv ?x) (Suc ?n) = Suc ?n" "Suc ?n \<le> cdiv (a + length d)"
  proof -
    show "?n \<le> cdiv ?x" by (simp add: div_le_mono)
    have "cdiv ?x \<le> cdiv (?x + n1)" by (simp add: div_le_mono)
    then show "max (cdiv ?x) (Suc ?n) = Suc ?n" using cdiv_in [OF n1(1,2)] by simp
    have "cdiv (a + (k + n1)) \<le> cdiv (a + length d)" using n1(3) by (intro div_le_mono) simp
    then show "Suc ?n \<le> cdiv (a + length d)" using c by simp
  qed
  have "unat (freeblock t) + nslots (max (cdiv ?x) (Suc ?n)) \<le> 1024 + nslots (cdiv ?x)"
    using g f nslots_mono [OF m(3)] unfolding m(2) by (simp add: file_grown_def)
  note B = iappend_blk_law [OF G n m(1) this, unfolded m(2)]
  have fin: "file_grown W0 di0 a d s (k + n1) din' (u\<lparr>img := (img u)(b := splice (?x mod 512) (slice k n1 d) (img u b))\<rparr>) \<and> unat b < nsec u"
    if u: "growing (unat (freeblock s)) W0 di0 a d k u din'" "blocks_to (Suc ?n) (img u) din'" "b = blkno (img u) din' ?n" "b \<noteq> 0"
      "unat (freeblock u) + nslots (cdiv ?x) = unat (freeblock t) + nslots (Suc ?n)" "freeinode u = freeinode t" for u din' b
  proof -
    let ?u = "u\<lparr>img := (img u)(b := splice (?x mod 512) (slice k n1 d) (img u b))\<rparr>"
    note C = growing_chunk [OF u(1) n u(3,4) n1(2,3)]
    have fb: "unat (freeblock u) \<le> 1024" using u(5) g f nslots_mono [OF m(3)] by (simp add: file_grown_def)
    have b: "unat b < nsec u" using C(3) u(1) fb by (auto simp: growing_def)
    have "blocks_to (Suc ?n) (img ?u) din'" using u(2) C(2) by (simp add: blocks_to_def)
    moreover have "unat (freeblock u) + nslots (cdiv a) = unat (freeblock s) + nslots (cdiv (a + (k + n1)))"
      using u(5) g unfolding c by (simp add: file_grown_def)
    ultimately show ?thesis using C(1) b u(6) g c by (simp add: file_grown_def)
  qed
  have "take n1 (drop k d) = slice k n1 d" by (simp add: slice_def)
  moreover have "min (length d - k) (512 - ?x mod 512) = n1" by (simp add: n1_def)
  moreover have "(of_nat ?x :: uint) + of_nat n1 = of_nat (a + (k + n1))" by (simp add: add.assoc)
  ultimately have T: "wp (bindK (rsect b) (\<lambda>buf. seqK (wsect b (splice (?x mod 512) (take (min (length (drop k d)) (512 - ?x mod 512)) (drop k d)) buf))
       (ret (Inl (din', (of_nat ?x :: uint) + of_nat (min (length (drop k d)) (512 - ?x mod 512)), drop (min (length (drop k d)) (512 - ?x mod 512)) (drop k d))))))
     (\<lambda>r u. \<exists>din'. r = Inl (din', of_nat (a + (k + n1)), drop (k + n1) d) \<and> file_grown W0 di0 a d s (k + n1) din' u) u"
    if u: "growing (unat (freeblock s)) W0 di0 a d k u din'" "blocks_to (Suc ?n) (img u) din'" "b = blkno (img u) din' ?n" "b \<noteq> 0"
      "unat (freeblock u) + nslots (cdiv ?x) = unat (freeblock t) + nslots (Suc ?n)" "freeinode u = freeinode t" for u din' b
    using fin [OF u] unfolding wp_bindK by (simp add: rsect_law wsect_law wp_rules add.commute del: of_nat_add)
  show ?thesis using k n
    unfolding iappend_step_def Let_def prod.case O
    by (simp add: wp_assertK wp_seqK wp_bindK O del: of_nat_add)
       (rule wp_mono [OF B], auto simp: O wp_bindK simp del: of_nat_add dest!: T)
qed

lemma iappend_loop_law:
  assumes g: "file_grown W0 di0 a d s 0 din s" and a: "a + length d \<le> MAXFILE * 512"
    and f: "unat (freeblock s) + nslots (cdiv (a + length d)) \<le> 1024 + nslots (cdiv a)"
  shows "wp (loopK iappend_step (din, of_nat a, d)) (\<lambda>(din', off) t. off = of_nat (a + length d) \<and> file_grown W0 di0 a d s (length d) din' t) s"
proof -
  let ?I = "\<lambda>(din, off, p) t. \<exists>k \<le> length d. off = of_nat (a + k) \<and> p = drop k d \<and> file_grown W0 di0 a d s k din t"
  let ?m = "\<lambda>(c :: dinode \<times> uint \<times> byte list) (t :: mkfs_st). length (snd (snd c))"
  show ?thesis
  proof (rule wp_loopK [where I = ?I and m = ?m])
    show "?I (din, of_nat a, d) s" using g by (auto intro!: exI [of _ 0])
    fix c :: "dinode \<times> uint \<times> byte list" and t assume "?I c t"
    then obtain din off p k where c: "c = (din, of_nat (a + k), drop k d)" "k \<le> length d" "file_grown W0 di0 a d s k din t" by (cases c) auto
    show "wp (iappend_step c) (\<lambda>r u. case r of Inl c' \<Rightarrow> ?I c' u \<and> ?m c' u < ?m c t
        | Inr r \<Rightarrow> (\<lambda>(din', off) t. off = of_nat (a + length d) \<and> file_grown W0 di0 a d s (length d) din' t) r u) t"
    proof (cases "k = length d")
      case True
      then show ?thesis using c by (simp add: iappend_step_def wp_rules)
    next
      case False
      then have k: "k < length d" using c by simp
      define n where "n = min (length d - k) (512 - (a + k) mod 512)"
      have n: "0 < n" "k + n \<le> length d" using k by (auto simp: n_def)
      then have l: "length d - (k + n) < length d - k" using k by linarith
      show ?thesis unfolding c(1)
        by (rule wp_mono [OF iappend_step_law [OF c(3) k a f, folded n_def]])
           (use l n in \<open>auto intro!: exI [of _ "k + n"] simp del: of_nat_add\<close>)
    qed
  qed
qed

section \<open>The image as a list of files\<close>

text \<open>Inode \<open>i\<close> of an image, and the image after it has been replaced.\<close>

definition idi :: "dimg \<Rightarrow> nat \<Rightarrow> dinode" where
  "idi W i = get_dinode (64 * (i mod IPB)) (W (of_nat (i div IPB + 2)))"

definition put_idi :: "nat \<Rightarrow> dinode \<Rightarrow> dimg \<Rightarrow> dimg" where
  "put_idi i di W = W(of_nat (i div IPB + 2) := put_dinode (64 * (i mod IPB)) di (W (of_nat (i div IPB + 2))))"

lemma idi_put:
  assumes "i < 200" "j < 200" "length (di_addrs di) = NDIRECT + 1" "\<forall>x. length (W x) = 512"
  shows "idi (put_idi i di W) j = (if j = i then di else idi W j)"
proof -
  have w: "(of_nat (i div IPB + 2) :: uint) = of_nat (j div IPB + 2) \<longleftrightarrow> i div IPB = j div IPB"
  proof -
    have "unat (of_nat (k div IPB + 2) :: uint) = k div IPB + 2" if "k < 200" for k
      using that unfolding unat_of_nat by (intro mod_less) (simp add: IPB_def less_mult_imp_div_less)
    from this [OF assms(1)] this [OF assms(2)] show ?thesis by (metis add_right_imp_eq)
  qed
  have r: "64 * (i mod IPB) + 64 \<le> 512" "64 * (j mod IPB) + 64 \<le> 512"
    using mod_less_divisor [of IPB i] mod_less_divisor [of IPB j] by (simp_all add: IPB_def)
  show ?thesis
  proof (cases "j = i")
    case True
    then show ?thesis using assms r by (simp add: idi_def put_idi_def get_put_dinode)
  next
    case False
    show ?thesis
    proof (cases "i div IPB = j div IPB")
      case True
      then have "i mod IPB \<noteq> j mod IPB" using False by (metis div_mod_decomp)
      then have "64 * (j mod IPB) + 64 \<le> 64 * (i mod IPB) \<or> 64 * (i mod IPB) + 64 \<le> 64 * (j mod IPB)" by linarith
      then show ?thesis using False True assms r unfolding idi_def put_idi_def by (simp add: get_put_dinode_other)
    next
      case ne: False
      then show ?thesis using False w unfolding idi_def put_idi_def by (auto simp del: of_nat_add)
    qed
  qed
qed

end
