(* ===== verification/Mkimage.thy ===== *)
theory Mkimage
  imports Mkfs
begin

text \<open>
  What \<^verbatim>\<open>tools/mkfs.c\<close> leaves behind: the invariant of the image as a list of files, its preservation by \<^verbatim>\<open>iappend\<close> and
  \<^verbatim>\<open>ialloc\<close>, and the correctness of the whole program.
\<close>

text \<open>A file with its type and its bytes, in blocks from 29 up to \<open>fb\<close>.\<close>

definition file_is :: "dimg \<Rightarrow> nat \<Rightarrow> ushort \<times> byte list \<Rightarrow> dinode \<Rightarrow> bool" where
  "file_is W fb c di \<longleftrightarrow> di_type di = fst c \<and> di_major di = 0 \<and> di_minor di = 0 \<and> di_nlink di = 1
     \<and> file_wf W di \<and> contents W di = snd c \<and> blocks_to (cdiv (length (snd c))) W di \<and> tailz (length (snd c)) W di
     \<and> fblocks W di \<subseteq> {x. 29 \<le> unat x \<and> unat x < fb}"

definition nblks :: "(ushort \<times> byte list) list \<Rightarrow> nat" where
  "nblks C = (\<Sum>c \<leftarrow> C. nslots (cdiv (length (snd c))))"

definition mkfs_sb :: "byte list" where
  "mkfs_sb = put_sb (of_nat mkfs_size) (of_nat mkfs_nblocks) (of_nat mkfs_ninodes) (of_nat mkfs_nlog)"

text \<open>
  The image holds the files \<open>C\<close>, those of the inodes 1, 2 and so on, each in blocks of its own; the data blocks are handed out
  from block 29 on, without gaps.
\<close>

definition holds_files :: "(ushort \<times> byte list) list \<Rightarrow> mkfs_st \<Rightarrow> bool" where
  "holds_files C s \<longleftrightarrow> nsec s = 1024 \<and> usedblocks s = freeblock s \<and> unat (freeblock s) = 29 + nblks C \<and> 29 + nblks C \<le> 1024
     \<and> unat (freeinode s) = Suc (length C) \<and> length C < 200
     \<and> (\<forall>x. length (img s x) = 512) \<and> (\<forall>x. 29 + nblks C \<le> unat x \<longrightarrow> img s x = replicate 512 0) \<and> img s 1 = mkfs_sb
     \<and> (\<forall>i < length C. file_is (img s) (29 + nblks C) (C ! i) (idi (img s) (Suc i)))
     \<and> (\<forall>i < length C. \<forall>j < length C. i \<noteq> j \<longrightarrow> fblocks (img s) (idi (img s) (Suc i)) \<inter> fblocks (img s) (idi (img s) (Suc j)) = {})"

lemma blkno_cong:
  assumes "\<forall>k \<in> fblocks W di. V k = W k" "n < MAXFILE"
  shows "blkno V di n = blkno W di n"
  using file_cong(1) [OF assms(1), of n] assms(2) by (simp add: fslot_def)

lemma file_is_cong:
  assumes c: "\<forall>k \<in> fblocks W di. V k = W k" and f: "file_is W fb c di" and le: "fb \<le> fb'"
  shows "file_is V fb' c di"
proof -
  have "fbyte V di j = fbyte W di j" if "j div 512 < MAXFILE" "blkno W di (j div 512) \<noteq> 0" for j
    using c fblocksI(1) [OF that] blkno_cong [OF c that(1)] by (simp add: fbyte_def)
  then have "tailz n V di = tailz n W di" for n using blkno_cong [OF c] by (auto simp: tailz_def)
  moreover have "blocks_to m V di = blocks_to m W di" for m using blkno_cong [OF c] by (simp add: blocks_to_def)
  ultimately show ?thesis using f le file_cong(2-4) [OF c] by (auto simp: file_is_def)
qed

lemma file_is_empty: "fst c = ty \<Longrightarrow> snd c = [] \<Longrightarrow>
    file_is W fb c \<lparr>di_type = ty, di_major = 0, di_minor = 0, di_nlink = 1, di_size = 0, di_addrs = replicate 13 0\<rparr>"
  by (auto simp: file_is_def file_wf_def contents_def blocks_to_def tailz_def fblocks_def fslot_def blkno_def NDIRECT_def nth_Cons')

lemma ino_blk:
  assumes "i < 200"
  shows "i2b (of_nat i) = of_nat (i div IPB + 2)" "unat (of_nat i :: uint) = i" "unat (of_nat (i div IPB + 2) :: uint) = i div IPB + 2" "i div IPB + 2 < 27"
proof -
  show u: "unat (of_nat i :: uint) = i" using assms by (simp add: unat_of_nat)
  show l: "i div IPB + 2 < 27" using assms by (simp add: IPB_def less_mult_imp_div_less)
  then show "unat (of_nat (i div IPB + 2) :: uint) = i div IPB + 2" unfolding unat_of_nat by (intro mod_less) simp
  have "unat ((of_nat i :: uint) div of_nat IPB) = i div IPB" using u by (simp add: unat_div IPB_def)
  then have "(of_nat i :: uint) div of_nat IPB = of_nat (i div IPB)" by (metis of_nat_unat ucast_id)
  then show "i2b (of_nat i) = of_nat (i div IPB + 2)" by (simp add: i2b_def)
qed

lemma idi_cong: "i < 200 \<Longrightarrow> (\<And>x. unat x < 27 \<Longrightarrow> V x = W x) \<Longrightarrow> idi V i = idi W i"
  using ino_blk(3,4) [of i] by (simp add: idi_def)

lemma rinode_law: "i < 200 \<Longrightarrow> nsec s = 1024 \<Longrightarrow> wp (rinode (of_nat i)) Q s = Q (idi (img s) i) s"
  using ino_blk [of i] by (simp add: rinode_def wp_rules rsect_law idi_def del: of_nat_add)

lemma winode_law: "i < 200 \<Longrightarrow> nsec s = 1024 \<Longrightarrow> wp (winode (of_nat i) di) Q s = Q () (s\<lparr>img := put_idi i di (img s)\<rparr>)"
  using ino_blk [of i] by (simp add: winode_def wp_rules rsect_law wsect_law put_idi_def del: of_nat_add)

lemma put_idi_other: "i < 200 \<Longrightarrow> 27 \<le> unat x \<or> unat x < 2 \<Longrightarrow> put_idi i di W x = W x"
  using ino_blk(3,4) [of i] by (auto simp: put_idi_def simp del: of_nat_add)

lemma length_put_idi: "i < 200 \<Longrightarrow> (\<forall>x. length (W x) = 512) \<Longrightarrow> length (di_addrs di) = NDIRECT + 1 \<Longrightarrow> length (put_idi i di W x) = 512"
  using mod_less_divisor [of IPB i] by (simp add: put_idi_def length_put_dinode IPB_def)


lemma nblks_update: "i < length C \<Longrightarrow> nblks (C[i := c]) + nslots (cdiv (length (snd (C ! i)))) = nblks C + nslots (cdiv (length (snd c)))"
  by (induction C arbitrary: i) (auto simp: nblks_def split: nat.splits)

lemma size_irrelevant: "blkno W (di\<lparr>di_size := z\<rparr>) = blkno W di" "fblocks W (di\<lparr>di_size := z\<rparr>) = fblocks W di"
    "fbyte W (di\<lparr>di_size := z\<rparr>) = fbyte W di" "blocks_to m W (di\<lparr>di_size := z\<rparr>) = blocks_to m W di" "tailz n W (di\<lparr>di_size := z\<rparr>) = tailz n W di"
  by (simp_all add: fun_eq_iff blkno_def fslot_def fblocks_def fbyte_def blocks_to_def tailz_def)

lemma image_start:
  assumes im: "holds_files C s" and i: "i < length C"
  defines "di \<equiv> idi (img s) (Suc i)" and "a \<equiv> length (snd (C ! i))"
  shows "file_grown (img s) di a d s 0 di s" "di_size di = of_nat a" "unat (di_size di) = a" "a \<le> MAXFILE * 512"
proof -
  have f: "file_is (img s) (29 + nblks C) (C ! i) di" using im i by (simp add: holds_files_def di_def)
  then have "contents (img s) di = snd (C ! i)" by (simp add: file_is_def)
  then have "length (contents (img s) di) = a" by (simp add: a_def)
  then show u: "unat (di_size di) = a" by (simp add: contents_def)
  then show "di_size di = of_nat a" by auto
  show "a \<le> MAXFILE * 512" using f u by (simp add: file_is_def file_wf_def)
  have "\<exists>as. di = di\<lparr>di_addrs := as\<rparr>" by (rule exI [of _ "di_addrs di"]) simp
  then show "file_grown (img s) di a d s 0 di s" using im f wrote_start [of "img s" di a d]
    unfolding file_grown_def growing_def by (auto simp: holds_files_def file_is_def a_def)
qed

lemma image_step:
  assumes im: "holds_files C s" and i: "i < length C" and le: "length (snd (C ! i)) + length d \<le> MAXFILE * 512"
  defines "c \<equiv> (fst (C ! i), snd (C ! i) @ d)" and "di \<equiv> idi (img s) (Suc i)" and "a \<equiv> length (snd (C ! i))"
  assumes g: "file_grown (img s) di a d s (length d) din t" and f: "29 + nblks (C[i := c]) \<le> 1024"
  shows "holds_files (C[i := c]) (t\<lparr>img := put_idi (Suc i) (din\<lparr>di_size := of_nat (a + length d)\<rparr>) (img t)\<rparr>)"
proof -
  let ?D = "din\<lparr>di_size := of_nat (a + length d)\<rparr>" and ?C = "C[i := c]"
  let ?V = "put_idi (Suc i) ?D (img t)" and ?W = "img s"
  have i2: "Suc i < 200" "length C < 200" using im i by (auto simp: holds_files_def)
  have G: "growing (unat (freeblock s)) ?W di a d (length d) t din" "blocks_to (cdiv (a + length d)) (img t) din"
    "unat (freeblock t) + nslots (cdiv a) = unat (freeblock s) + nslots (cdiv (a + length d))" "freeinode t = freeinode s" using g by (auto simp: file_grown_def)
  have fi: "file_is ?W (29 + nblks C) (C ! i) di" using im i by (simp add: holds_files_def di_def)
  note S = image_start [OF im i, folded di_def a_def]
  have fb: "unat (freeblock t) = 29 + nblks ?C" using G(3) nblks_update [OF i, of c] im by (simp add: holds_files_def a_def c_def)
  have mono: "nblks C \<le> nblks ?C" using nblks_update [OF i, of c] nslots_mono [of "cdiv a" "cdiv (a + length d)"] by (simp add: c_def a_def div_le_mono)
  have w: "wrote ?W di a d (length d) (img t) din" using G(1) by (simp add: growing_def)
  have wf: "file_wf (img t) din" by (rule growing_wf [OF G(1)])
  have lD: "length (di_addrs ?D) = NDIRECT + 1" using wf by (simp add: file_wf_def)
  have ub: "fblocks (img t) din \<subseteq> {x. 29 \<le> unat x \<and> unat x < 29 + nblks ?C}" using G(1) fb by (simp add: growing_def)
  have same: "img t x = ?W x" if "x \<notin> fblocks (img t) din" for x using G(1) that by (simp add: growing_def)
  have lt: "length (img t x) = 512" for x using same [of x] wf im by (cases "x \<in> fblocks (img t) din") (auto simp: file_wf_def holds_files_def)
  have V: "?V x = img t x" if "27 \<le> unat x \<or> unat x < 2" for x using put_idi_other [OF i2(1) that] .
  have un: "unat (of_nat (a + length d) :: uint) = a + length d" using le unfolding a_def unat_of_nat by (intro mod_less) (simp add: MAXFILE_def NDIRECT_def NINDIRECT_def)
  note Wd = wrote_done [OF w _ le [folded a_def], of "of_nat (a + length d)"]
  have new: "file_is (img t) (29 + nblks ?C) c ?D"
  proof -
    have "file_wf (img t) ?D" "contents (img t) ?D = snd c"
      using Wd S(3,4) un fi unfolding file_is_def by (auto simp: c_def a_def simp del: of_nat_add)
    moreover have "\<exists>as. din = di\<lparr>di_addrs := as\<rparr>" using G(1) by (simp add: growing_def)
    then have "di_type ?D = di_type di" "di_major ?D = di_major di" "di_minor ?D = di_minor di" "di_nlink ?D = di_nlink di" by auto
    moreover have "length (snd c) = a + length d" by (simp add: c_def a_def)
    moreover have "blocks_to (cdiv (a + length d)) (img t) ?D" using G(2) by (simp only: size_irrelevant)
    moreover have "tailz (a + length d) (img t) ?D" using G(1) by (simp only: growing_def size_irrelevant)
    ultimately show ?thesis using fi ub unfolding file_is_def size_irrelevant by (simp add: c_def)
  qed
  have low: "img t x = ?W x" if "unat x < 29" for x by (rule same) (use ub that in auto)
  have idis: "idi ?V (Suc j) = (if j = i then ?D else idi ?W (Suc j))" if "j < length C" for j
  proof -
    have "idi (img t) (Suc j) = idi ?W (Suc j)" using that i2 by (intro idi_cong low) auto
    then show ?thesis using idi_put [OF i2(1) _ lD, of "Suc j" "img t"] that i2 lt by simp
  qed
  have oth: "file_is ?W (29 + nblks C) (C ! j) (idi ?W (Suc j))" "fblocks ?W (idi ?W (Suc j)) \<inter> fblocks (img t) din = {}"
    "\<forall>k \<in> fblocks ?W (idi ?W (Suc j)). ?V k = ?W k" if j: "j < length C" "j \<noteq> i" for j
  proof -
    show F: "file_is ?W (29 + nblks C) (C ! j) (idi ?W (Suc j))" using im j by (simp add: holds_files_def)
    have "fblocks ?W (idi ?W (Suc j)) \<inter> fblocks ?W di = {}" using im i j unfolding holds_files_def di_def by blast
    moreover have "fblocks (img t) din \<subseteq> fblocks ?W di \<union> {x. 29 + nblks C \<le> unat x}" using G(1) im by (auto simp: growing_def holds_files_def)
    ultimately show D: "fblocks ?W (idi ?W (Suc j)) \<inter> fblocks (img t) din = {}" using F unfolding file_is_def by fastforce
    show "\<forall>k \<in> fblocks ?W (idi ?W (Suc j)). ?V k = ?W k"
    proof
      fix k assume k: "k \<in> fblocks ?W (idi ?W (Suc j))"
      then have "27 \<le> unat k" using F by (auto simp: file_is_def)
      then show "?V k = ?W k" using V [of k] same [of k] D k by auto
    qed
  qed
  have newV: "\<forall>k \<in> fblocks (img t) ?D. ?V k = img t k" unfolding size_irrelevant using ub V by auto
  have fn: "fblocks ?V ?D = fblocks (img t) din" using file_cong(2) [OF newV] unfolding size_irrelevant .
  have fo: "fblocks ?V (idi ?W (Suc j)) = fblocks ?W (idi ?W (Suc j))" if "j < length C" "j \<noteq> i" for j by (rule file_cong(2) [OF oth(3) [OF that]])
  have files: "file_is ?V (29 + nblks ?C) (?C ! j) (idi ?V (Suc j))" if "j < length C" for j
    using that i file_is_cong [OF newV new order_refl] file_is_cong [OF oth(3,1) [OF that] _] mono idis [OF that] by (cases "j = i") auto
  have disj: "fblocks ?V (idi ?V (Suc j)) \<inter> fblocks ?V (idi ?V (Suc k)) = {}" if "j < length C" "k < length C" "j \<noteq> k" for j k
  proof (cases "j = i \<or> k = i")
    case True
    then show ?thesis using that oth(2) fn fo idis by (auto simp: Int_commute)
  next
    case False
    then show ?thesis using that im fo idis by (simp add: holds_files_def)
  qed
  have z: "?V x = replicate 512 0" if "29 + nblks ?C \<le> unat x" for x
  proof -
    have "x \<notin> fblocks (img t) din" using that ub by auto
    then show ?thesis using that V [of x] same [of x] im mono by (simp add: holds_files_def)
  qed
  have "(1 :: uint) \<notin> fblocks (img t) din" using ub by auto
  then have sb: "?V 1 = mkfs_sb" using V [of 1] same [of 1] im by (simp add: holds_files_def)
  show ?thesis using files disj z sb fb f G(1,4) im length_put_idi [OF i2(1) _ lD, of "img t"] lt
    unfolding holds_files_def by (simp add: growing_def)
qed

section \<open>The image grows file by file\<close>

lemma iappend_law:
  assumes im: "holds_files C s" and i: "i < length C" and le: "length (snd (C ! i)) + length d \<le> MAXFILE * 512"
  defines "C' \<equiv> C[i := (fst (C ! i), snd (C ! i) @ d)]"
  assumes f: "29 + nblks C' \<le> 1024"
  shows "wp (iappend (of_nat (Suc i)) d) (\<lambda>_ t. holds_files C' t) s"
proof -
  let ?a = "length (snd (C ! i))" and ?di = "idi (img s) (Suc i)"
  note S = image_start [OF im i]
  have i2: "Suc i < 200" and n: "nsec s = 1024" using im i by (auto simp: holds_files_def)
  have "unat (freeblock s) + nslots (cdiv (?a + length d)) \<le> 1024 + nslots (cdiv ?a)"
    using im f nblks_update [OF i, of "(fst (C ! i), snd (C ! i) @ d)"] by (simp add: holds_files_def C'_def)
  note L = iappend_loop_law [OF S(1) le this]
  have "wp (winode (of_nat (Suc i)) (din\<lparr>di_size := of_nat (?a + length d)\<rparr>)) (\<lambda>_ t. holds_files C' t) t"
    if "file_grown (img s) ?di ?a d s (length d) din t" for din t
  proof -
    have "nsec t = 1024" using that by (simp add: file_grown_def growing_def)
    then show ?thesis using image_step [OF im i le that] f i2 unfolding C'_def by (simp add: winode_law del: of_nat_Suc of_nat_add)
  qed
  then show ?thesis unfolding iappend_def wp_bindK rinode_law [OF i2 n] xint_id S(2)
    by (intro wp_mono [OF L]) auto
qed

lemma mkfs_ialloc_law:
  assumes im: "holds_files C s" and l: "length C < 199"
  shows "wp (mkfs_ialloc ty) (\<lambda>ino t. ino = of_nat (Suc (length C)) \<and> holds_files (C @ [(ty, [])]) t) s"
proof -
  let ?n = "Suc (length C)" and ?W = "img s"
  define D where "D = \<lparr>di_type = ty, di_major = 0, di_minor = 0, di_nlink = 1, di_size = 0, di_addrs = replicate 13 0\<rparr>"
  let ?V = "put_idi ?n D ?W" and ?s = "s\<lparr>freeinode := freeinode s + 1\<rparr>"
  have e: "freeinode s = of_nat ?n" using im by (metis holds_files_def of_nat_unat ucast_id)
  have n2: "?n < 200" "nsec ?s = 1024" using l im by (auto simp: holds_files_def)
  have ui: "unat (freeinode s + 1) = Suc ?n" using im n2(1) by (simp add: holds_files_def unat_word_ariths)
  have lD: "length (di_addrs D) = NDIRECT + 1" by (simp add: D_def NDIRECT_def)
  have lW: "\<forall>x. length (?W x) = 512" using im by (simp add: holds_files_def)
  have nb: "nblks (C @ [(ty, [])]) = nblks C" by (simp add: nblks_def nslots_def)
  have V: "?V x = ?W x" if "27 \<le> unat x \<or> unat x < 2" for x using put_idi_other [OF n2(1) that] .
  have idis: "idi ?V (Suc j) = (if j = length C then D else idi ?W (Suc j))" if "j < ?n" for j
    using idi_put [OF n2(1) _ lD lW, of "Suc j"] that l by simp
  have fD: "fblocks W D = {}" for W by (auto simp: D_def fblocks_def fslot_def blkno_def NDIRECT_def nth_Cons')
  have old: "file_is ?W (29 + nblks C) (C ! j) (idi ?W (Suc j))" "\<forall>k \<in> fblocks ?W (idi ?W (Suc j)). ?V k = ?W k" if "j < length C" for j
  proof -
    show F: "file_is ?W (29 + nblks C) (C ! j) (idi ?W (Suc j))" using im that by (simp add: holds_files_def)
    then have "27 \<le> unat k" if "k \<in> fblocks ?W (idi ?W (Suc j))" for k using that by (auto simp: file_is_def)
    then show "\<forall>k \<in> fblocks ?W (idi ?W (Suc j)). ?V k = ?W k" using V by auto
  qed
  have fo: "fblocks ?V (idi ?W (Suc j)) = fblocks ?W (idi ?W (Suc j))" if "j < length C" for j by (rule file_cong(2) [OF old(2) [OF that]])
  have files: "file_is ?V (29 + nblks C) ((C @ [(ty, [])]) ! j) (idi ?V (Suc j))" if "j < ?n" for j
    using that file_is_cong [OF old(2,1) order_refl] file_is_empty [of "(ty, [])" ty ?V "29 + nblks C"] idis [OF that]
    by (cases "j = length C") (auto simp: nth_append D_def)
  have disj: "fblocks ?V (idi ?V (Suc j)) \<inter> fblocks ?V (idi ?V (Suc k)) = {}" if "j < ?n" "k < ?n" "j \<noteq> k" for j k
    using that im fo idis fD by (cases "j = length C \<or> k = length C") (auto simp: holds_files_def)
  have "holds_files (C @ [(ty, [])]) (?s\<lparr>img := ?V\<rparr>)"
    using im files disj V lW length_put_idi [OF n2(1) lW lD] n2(1) ui unfolding holds_files_def nb by simp
  then show ?thesis using n2 e by (simp add: mkfs_ialloc_def wp_rules winode_law D_def del: of_nat_Suc)
qed

text \<open>What fits into the image, and one list of files growing into another.\<close>

definition fits :: "(ushort \<times> byte list) list \<Rightarrow> bool" where
  "fits C \<longleftrightarrow> 29 + nblks C \<le> 1024 \<and> length C < 200 \<and> (\<forall>c \<in> set C. length (snd c) \<le> MAXFILE * 512)"

definition grows :: "(ushort \<times> byte list) list \<Rightarrow> (ushort \<times> byte list) list \<Rightarrow> bool" where
  "grows C T \<longleftrightarrow> length C \<le> length T \<and> (\<forall>i < length C. length (snd (C ! i)) \<le> length (snd (T ! i)))"

lemma fits_mono:
  assumes g: "grows C T" and f: "fits T"
  shows "fits C"
proof -
  have "nblks C = (\<Sum>i < length C. nslots (cdiv (length (snd (C ! i)))))" by (simp add: nblks_def sum_list_sum_nth atLeast0LessThan)
  also have "\<dots> \<le> (\<Sum>i < length C. nslots (cdiv (length (snd (T ! i)))))"
    using g by (intro sum_mono nslots_mono div_le_mono) (simp add: grows_def)
  also have "\<dots> \<le> (\<Sum>i < length T. nslots (cdiv (length (snd (T ! i)))))" using g by (intro sum_mono2) (auto simp: grows_def)
  also have "\<dots> = nblks T" by (simp add: nblks_def sum_list_sum_nth atLeast0LessThan)
  finally have "nblks C \<le> nblks T" .
  moreover have "length (snd (C ! i)) \<le> MAXFILE * 512" if "i < length C" for i
  proof -
    have "T ! i \<in> set T" using that g by (simp add: grows_def)
    then have "length (snd (T ! i)) \<le> MAXFILE * 512" using f by (simp add: fits_def)
    then show ?thesis using that g by (meson grows_def le_trans)
  qed
  then have "\<forall>c \<in> set C. length (snd c) \<le> MAXFILE * 512" by (metis in_set_conv_nth)
  ultimately show ?thesis using f g by (simp add: fits_def grows_def)
qed

lemma grows_trans: "grows A B \<Longrightarrow> grows B C \<Longrightarrow> grows A C"
  unfolding grows_def by (meson le_trans less_le_trans)

abbreviation appended :: "nat \<Rightarrow> byte list \<Rightarrow> (ushort \<times> byte list) list \<Rightarrow> (ushort \<times> byte list) list" where
  "appended i d C \<equiv> C[i := (fst (C ! i), snd (C ! i) @ d)]"

lemma appended_grows: "i < length C \<Longrightarrow> grows (appended i d C) (appended i (d @ e) C)"
  by (simp add: grows_def nth_list_update)

lemma iappend_fits:
  assumes "holds_files C s" "i < length C" "fits (appended i d C)"
  shows "wp (iappend (of_nat (Suc i)) d) (\<lambda>_ t. holds_files (appended i d C) t) s"
proof (rule iappend_law [OF assms(1,2)])
  have "(fst (C ! i), snd (C ! i) @ d) \<in> set (appended i d C)" using assms(2) by (rule set_update_memI)
  then show "length (snd (C ! i)) + length d \<le> MAXFILE * 512" using assms(3) by (fastforce simp: fits_def)
qed (use assms(3) in \<open>simp add: fits_def\<close>)

lemma iappends_law:
  "holds_files C s \<Longrightarrow> i < length C \<Longrightarrow> fits (appended i (concat ds) C)
    \<Longrightarrow> wp (forK ds (iappend (of_nat (Suc i)))) (\<lambda>_ t. holds_files (appended i (concat ds) C) t) s"
proof (induction ds arbitrary: C s)
  case Nil
  then show ?case by (simp add: wp_rules)
next
  case (Cons d ds)
  let ?C = "appended i d C"
  have e: "appended i (concat ds) ?C = appended i (concat (d # ds)) C" using Cons.prems(2) by simp
  have "grows ?C (appended i (concat (d # ds)) C)" using appended_grows [OF Cons.prems(2)] by simp
  note a = iappend_fits [OF Cons.prems(1,2) fits_mono [OF this Cons.prems(3)]]
  have "wp (iappend (of_nat (Suc i)) d) (\<lambda>_ t. wp (forK ds (iappend (of_nat (Suc i)))) (\<lambda>_ t. holds_files (appended i (concat (d # ds)) C) t) t) s"
    by (rule wp_mono [OF a]) (use Cons.IH [of ?C] Cons.prems(2,3) e in \<open>simp del: of_nat_Suc\<close>)
  then show ?case by (simp add: wp_rules del: of_nat_Suc)
qed

section \<open>The whole program\<close>

definition root_bytes :: "byte list list \<Rightarrow> byte list" where
  "root_bytes names = de_pack [46] 1 @ de_pack [46, 46] 1
     @ concat (map (\<lambda>i. de_pack (strip_fs (names ! i)) (of_nat (i + 2))) [0..<length names])"

definition mkfs_files :: "(byte list \<times> byte list list) list \<Rightarrow> (ushort \<times> byte list) list" where
  "mkfs_files args = (T_DIR, root_bytes (map fst args)) # map (\<lambda>(_, ds). (T_FILE, concat ds)) args"

lemma root_bytes_snoc: "root_bytes (ns @ [n]) = root_bytes ns @ de_pack (strip_fs n) (of_nat (length ns + 2))"
  by (auto simp: root_bytes_def nth_append intro!: arg_cong [where f = concat] map_cong)

lemma mkfs_files_snoc: "mkfs_files (as @ [(n, ds)]) = appended 0 (de_pack (strip_fs n) (of_nat (length as + 2))) (mkfs_files as) @ [(T_FILE, concat ds)]"
  by (simp add: mkfs_files_def root_bytes_snoc)

lemma length_mkfs_files [simp]: "length (mkfs_files as) = Suc (length as)"
  by (simp add: mkfs_files_def)

lemma mkfs_files_grows: "grows (mkfs_files as) (mkfs_files (as @ bs))"
proof (induction bs rule: rev_induct)
  case Nil
  then show ?case by (simp add: grows_def)
next
  case (snoc b bs)
  obtain n ds where b: "b = (n, ds)" by (cases b)
  have "length (snd (mkfs_files (as @ bs) ! i)) \<le> length (snd (mkfs_files ((as @ bs) @ [(n, ds)]) ! i))" if "i < length (mkfs_files (as @ bs))" for i
    using that unfolding mkfs_files_snoc by (simp add: nth_append nth_list_update)
  then have "grows (mkfs_files (as @ bs)) (mkfs_files ((as @ bs) @ [(n, ds)]))" by (simp add: grows_def)
  from grows_trans [OF snoc.IH this] show ?case unfolding b by simp
qed

lemma ino_short: "k < 200 \<Longrightarrow> ucast (xshort (ucast (of_nat k :: uint))) = (of_nat k :: uint)"
  by (rule word_unat_eq_iff [THEN iffD2]) (simp add: unsigned_ucast_eq unat_of_nat take_bit_eq_mod unat_mod)

lemma mkfs_file_law:
  assumes im: "holds_files (mkfs_files as) s" and f: "fits (mkfs_files (as @ [(n, ds)]))" and n: "47 \<notin> set (strip_fs n)"
  shows "wp (mkfs_file 1 (n, Some ds)) (\<lambda>_ t. holds_files (mkfs_files (as @ [(n, ds)])) t) s"
proof -
  let ?k = "Suc (length as)" and ?de = "de_pack (strip_fs n) (of_nat (length as + 2))"
  let ?C = "mkfs_files as @ [(T_FILE, [])]"
  have l: "length (mkfs_files as) < 199" using f by (simp add: fits_def)
  have k: "Suc ?k < 200" using l by simp
  have e: "mkfs_files (as @ [(n, ds)]) = appended ?k (concat ds) (appended 0 ?de ?C)"
    unfolding mkfs_files_snoc by (simp add: list_update_append nth_append mkfs_files_def)
  have "grows (appended 0 ?de ?C) (appended ?k (concat ds) (appended 0 ?de ?C))" by (simp add: grows_def nth_list_update)
  then have f1: "fits (appended 0 ?de ?C)" using f fits_mono unfolding e by blast
  have A: "wp (iappend (of_nat (Suc 0)) ?de) (\<lambda>_ t. holds_files (appended 0 ?de ?C) t) u" if "holds_files ?C u" for u
    by (rule iappend_fits [OF that]) (use f1 in simp_all)
  have B: "wp (forK ds (iappend (of_nat (Suc ?k)))) (\<lambda>_ t. holds_files (mkfs_files (as @ [(n, ds)])) t) u" if "holds_files (appended 0 ?de ?C) u" for u
    unfolding e by (rule iappends_law [OF that]) (use f in \<open>simp_all add: e\<close>)
  have AB: "wp (seqK (iappend 1 ?de) (forK ds (iappend (of_nat (Suc ?k))))) (\<lambda>_ t. holds_files (mkfs_files (as @ [(n, ds)])) t) u" if "holds_files ?C u" for u
    unfolding wp_seqK by (rule wp_mono [OF A [OF that, simplified of_nat_1 One_nat_def [symmetric]]]) (rule B)
  show ?thesis using n wp_mono [OF mkfs_ialloc_law [OF im l, of T_FILE]] AB ino_short [OF k]
    by (simp add: mkfs_file_def Let_def wp_assertK wp_seqK wp_bindK del: of_nat_Suc of_nat_add)
qed

lemma zero_fill_law:
  assumes N: "N < 2 ^ 32" and s: "img s = (\<lambda>_. replicate 512 0)" "nsec s = 0"
  shows "wp (forK [0..<N] (\<lambda>i. wsect (of_nat i) (replicate 512 0))) (\<lambda>_ t. t = s\<lparr>nsec := N\<rparr>) s"
proof (rule wp_mono [OF wp_forK [where I = "\<lambda>js t. \<exists>n \<le> N. [n..<N] = js \<and> t = s\<lparr>nsec := n\<rparr>"]])
  fix i js and t :: mkfs_st assume "\<exists>n \<le> N. [n..<N] = i # js \<and> t = s\<lparr>nsec := n\<rparr>"
  then obtain n where "[n..<N] = i # js" "t = s\<lparr>nsec := n\<rparr>" by metis
  then have i: "i < N" "js = [Suc i..<N]" "t = s\<lparr>nsec := i\<rparr>" by (auto simp: upt_eq_Cons_conv)
  have u: "unat (of_nat i :: uint) = i" unfolding unat_of_nat by (rule mod_less) (use N i in simp)
  have "s\<lparr>nsec := Suc i, img := \<lambda>_. replicate 512 0\<rparr> = s\<lparr>nsec := Suc i\<rparr>" using s(1) by (cases s) simp
  then show "wp (wsect (of_nat i) (replicate 512 0)) (\<lambda>_ u. \<exists>n \<le> N. [n..<N] = js \<and> u = s\<lparr>nsec := n\<rparr>) t"
    using i s u by (auto simp: wsect_def wp_rules fun_upd_idem intro!: exI [of _ "Suc i"])
qed (use s in \<open>auto intro!: exI [of _ 0]\<close>)

lemma mkfs_start_law: "wp mkfs_start (\<lambda>_ t. holds_files [] t) mkfs_init"
proof -
  let ?s = "mkfs_init\<lparr>usedblocks := 29, freeblock := 29\<rparr>"
  have F: "wp (forK [0..<1024] (\<lambda>i. wsect (of_nat i) (replicate 512 0))) (\<lambda>_ t. t = ?s\<lparr>nsec := 1024\<rparr>) ?s"
    by (rule zero_fill_law) (simp_all add: mkfs_init_def)
  have n: "mkfs_nblocks + (mkfs_ninodes div IPB + 3 + (mkfs_size div (512 * 8) + 1)) + mkfs_nlog = 1024"
    "(of_nat (mkfs_ninodes div IPB + 3 + (mkfs_size div (512 * 8) + 1)) :: uint) = 29"
    by (simp_all add: mkfs_nblocks_def mkfs_nlog_def mkfs_ninodes_def mkfs_size_def IPB_def LOGSIZE_def)
  have sz: "1024 = mkfs_size" by (simp add: mkfs_size_def)
  have "holds_files [] (?s\<lparr>nsec := 1024, img := (\<lambda>_. replicate 512 0)(1 := mkfs_sb)\<rparr>)"
    by (simp add: holds_files_def nblks_def mkfs_init_def mkfs_sb_def put_sb_def)
  then have X: "wp (wsect 1 mkfs_sb) (\<lambda>_ t. holds_files [] t) (?s\<lparr>nsec := 1024\<rparr>)" by (simp add: wsect_law mkfs_init_def)
  have "wp (forK [0..<1024] (\<lambda>i. wsect (of_nat i) (replicate 512 0))) (\<lambda>_ t. wp (wsect 1 mkfs_sb) (\<lambda>_ t. holds_files [] t) t) ?s"
    by (rule wp_mono [OF F]) (simp only: X)
  then show ?thesis unfolding mkfs_start_def Let_def n wp_seqK wp_modK wp_assertK mkfs_sb_def by (rule conjI [OF sz])
qed

lemma mkfs_root_law:
  assumes im: "holds_files [] s"
  shows "wp mkfs_root (\<lambda>r t. r = 1 \<and> holds_files (mkfs_files []) t) s"
proof -
  let ?C = "[(T_DIR, [])]" and ?d1 = "de_pack [46] 1" and ?d2 = "de_pack [46, 46] 1"
  have l: "length ?d1 = 16" "length ?d2 = 16" by (simp_all add: de_pack_def DIRSIZ_def)
  have "fits [(T_DIR, ?d1)]" "fits [(T_DIR, ?d1 @ ?d2)]" using l by (simp_all add: fits_def nblks_def nslots_def MAXFILE_def NDIRECT_def NINDIRECT_def)
  then have A: "wp (iappend (of_nat (Suc 0)) ?d1) (\<lambda>_ t. holds_files [(T_DIR, ?d1)] t) u" if "holds_files ?C u" for u
    using iappend_fits [OF that, of 0 ?d1] by simp
  have B: "wp (iappend (of_nat (Suc 0)) ?d2) (\<lambda>_ t. holds_files [(T_DIR, ?d1 @ ?d2)] t) u" if "holds_files [(T_DIR, ?d1)] u" for u
    using iappend_fits [OF that, of 0 ?d2] \<open>fits [(T_DIR, ?d1 @ ?d2)]\<close> by simp
  have AB: "wp (seqK (iappend 1 ?d1) (seqK (iappend 1 ?d2) (ret (1 :: uint)))) (\<lambda>r t. r = 1 \<and> holds_files (mkfs_files []) t) u" if "holds_files ?C u" for u
    using A [OF that] B by (auto simp: wp_rules mkfs_files_def root_bytes_def elim!: wp_mono)
  have "wp (mkfs_ialloc T_DIR) (\<lambda>i t. i = 1 \<and> holds_files ?C t) s" using mkfs_ialloc_law [OF im, of T_DIR] by simp
  then have "wp (mkfs_ialloc T_DIR) (\<lambda>i t. i = 1 \<and> wp (seqK (iappend 1 ?d1) (seqK (iappend 1 ?d2) (ret (1 :: uint)))) (\<lambda>r t. r = 1 \<and> holds_files (mkfs_files []) t) t) s"
    by (rule wp_mono) (use AB in blast)
  then show ?thesis using ino_short [of 1] by (auto simp: mkfs_root_def wp_rules ROOTINO_def elim!: wp_mono)
qed

lemma mkfs_files_law:
  assumes im: "holds_files (mkfs_files []) s" and f: "fits (mkfs_files args)" and n: "\<forall>(n, ds) \<in> set args. 47 \<notin> set (strip_fs n)"
  shows "wp (forK (map (\<lambda>(n, ds). (n, Some ds)) args) (mkfs_file 1)) (\<lambda>_ t. holds_files (mkfs_files args) t) s"
proof -
  let ?f = "\<lambda>(n, ds). (n, Some ds) :: byte list \<times> byte list list option"
  let ?I = "\<lambda>js t. \<exists>as bs. args = as @ bs \<and> js = map ?f bs \<and> holds_files (mkfs_files as) t"
  have "wp (forK (map ?f args) (mkfs_file 1)) (\<lambda>_ t. ?I [] t) s"
  proof (rule wp_forK)
    show "?I (map ?f args) s" using im by (intro exI [of _ "[]"] exI [of _ args]) simp
    fix i js t assume "?I (i # js) t"
    then obtain as bs n ds where a: "args = (as @ [(n, ds)]) @ bs" "i = (n, Some ds)" "js = map ?f bs" "holds_files (mkfs_files as) t"
      by (auto simp: Cons_eq_map_conv)
    have f1: "fits (mkfs_files (as @ [(n, ds)]))" using f fits_mono [OF mkfs_files_grows, of "as @ [(n, ds)]" bs] a(1) by simp
    have "47 \<notin> set (strip_fs n)" using n a(1) by auto
    from mkfs_file_law [OF a(4) f1 this] show "wp (mkfs_file 1 i) (\<lambda>_ u. ?I js u) t"
      unfolding a(2) by (rule wp_mono) (use a(1,3) in blast)
  qed
  then show ?thesis by (rule wp_mono) auto
qed

text \<open>The image when \<^verbatim>\<open>main\<close> is done with the files \<open>C\<close>: the size of the root directory rounded up, and the bitmap written.\<close>

definition rounded :: "dinode \<Rightarrow> dinode" where
  "rounded di = di\<lparr>di_size := (di_size di div 512 + 1) * 512\<rparr>"

definition finished :: "nat \<Rightarrow> dimg \<Rightarrow> dimg" where
  "finished n W = (put_idi 1 (rounded (idi W 1)) W)(28 := fold bm_set [0..<n] (replicate 512 0))"

lemma sint_unat: "unat (x :: uint) < 2 ^ 31 \<Longrightarrow> sint x = int (unat x)"
  by (simp add: sint32 flip: of_nat_less_iff [where 'a = int])

lemma mkfs_finish_law:
  assumes "holds_files C s"
  shows "wp (mkfs_finish 1) (\<lambda>_ t. img t = finished (29 + nblks C) (img s) \<and> nsec t = 1024) s"
proof -
  have "sint (usedblocks s) = int (29 + nblks C)" "nsec s = 1024" "nblks C \<le> 995" using assms sint_unat [of "freeblock s"] by (auto simp: holds_files_def)
  moreover have "nat (29 + int (nblks C)) = 29 + nblks C" by linarith
  ultimately show ?thesis using rinode_law [of 1 s] winode_law [of 1 s]
    by (simp add: mkfs_finish_def Let_def wp_rules mkfs_balloc_def wsect_law mkfs_ninodes_def IPB_def finished_def rounded_def)
qed

lemma mkfs_main_law:
  assumes f: "fits (mkfs_files args)" and n: "\<forall>(n, ds) \<in> set args. 47 \<notin> set (strip_fs n)"
  obtains s t where "holds_files (mkfs_files args) s" "img t = finished (29 + nblks (mkfs_files args)) (img s)" "nsec t = 1024"
    "mkfs_main (map (\<lambda>(n, ds). (n, Some ds)) args) mkfs_init = Ok () t"
proof -
  let ?C = "mkfs_files args"
  let ?Q = "\<lambda>_ t. \<exists>s. holds_files ?C s \<and> img t = finished (29 + nblks ?C) (img s) \<and> nsec t = 1024"
  have 1: "wp (mkfs_finish 1) ?Q s" if "holds_files ?C s" for s by (rule wp_mono [OF mkfs_finish_law [OF that]]) (use that in blast)
  have 2: "wp (seqK (forK (map (\<lambda>(n, ds). (n, Some ds)) args) (mkfs_file 1)) (mkfs_finish 1)) ?Q s" if "holds_files (mkfs_files []) s" for s
    unfolding wp_seqK by (rule wp_mono [OF mkfs_files_law [OF that f n] 1])
  have 3: "wp (bindK mkfs_root (\<lambda>r. seqK (forK (map (\<lambda>(n, ds). (n, Some ds)) args) (mkfs_file r)) (mkfs_finish r))) ?Q s" if "holds_files [] s" for s
    unfolding wp_bindK by (rule wp_mono [OF mkfs_root_law [OF that]]) (use 2 in blast)
  have "wp (mkfs_main (map (\<lambda>(n, ds). (n, Some ds)) args)) ?Q mkfs_init"
    unfolding mkfs_main_def wp_seqK [of mkfs_start] by (rule wp_mono [OF mkfs_start_law 3])
  then show ?thesis using that by (auto simp: wp_returns)
qed

lemma bm_set_all: "n \<le> 4096 \<Longrightarrow> b < 4096 \<Longrightarrow> bm_get (fold bm_set [0..<n] (replicate 512 0)) b \<longleftrightarrow> b < n"
proof -
  have "length (fold bm_set [0..<n] (replicate 512 0)) = 512 \<and> (\<forall>b < 4096. bm_get (fold bm_set [0..<n] (replicate 512 0)) b \<longleftrightarrow> b < n)" if "n \<le> 4096" for n
    using that
  proof (induction n)
    case 0
    then show ?case by (simp add: bm_get_bit)
  next
    case (Suc n)
    then show ?case by (auto simp: bm_get_upd less_Suc_eq)
  qed
  then show "n \<le> 4096 \<Longrightarrow> b < 4096 \<Longrightarrow> bm_get (fold bm_set [0..<n] (replicate 512 0)) b \<longleftrightarrow> b < n" by blast
qed

lemma mkfs_sb_fields: "sb_of mkfs_sb = \<lparr>sb_size = 1024, sb_nblocks = 985, sb_ninodes = 200, sb_nlog = 10\<rparr>"
  by (simp add: mkfs_sb_def put_sb_def sb_of_def get_put_other mkfs_size_def mkfs_nblocks_def mkfs_ninodes_def mkfs_nlog_def LOGSIZE_def)

lemma finished_used:
  assumes im: "holds_files C s"
  defines "W \<equiv> finished (29 + nblks C) (img s)"
  shows "nblk W = 1024" "data_start W = 29" "b < 1024 \<Longrightarrow> used W b \<longleftrightarrow> b < 29 + nblks C" "sb_of (W 1) = sb_of mkfs_sb"
proof -
  have W1: "W 1 = mkfs_sb" using im put_idi_other [of 1 1] by (simp add: finished_def holds_files_def W_def)
  then show "nblk W = 1024" "data_start W = 29" "sb_of (W 1) = sb_of mkfs_sb" by (simp_all add: mkfs_sb_fields data_start_def BPB_def IPB_def)
  assume b: "b < 1024"
  have "unat (of_nat b :: uint) = b" using b by (intro unat_of_nat_small) simp
  then have "unat ((of_nat b :: uint) div of_nat BPB) = 0" using b by (simp add: unat_div BPB_def)
  then have "bmblk W b = 28" by (simp add: BBLOCK_def W1 mkfs_sb_fields IPB_def unat_eq_0)
  moreover have "W 28 = fold bm_set [0..<29 + nblks C] (replicate 512 0)" by (simp add: W_def finished_def)
  ultimately show "used W b \<longleftrightarrow> b < 29 + nblks C" using im b bm_set_all [of "29 + nblks C" b] by (simp add: used_def BPB_def holds_files_def)
qed

text \<open>Files other than the root directory are as they were; the root directory has the same blocks and a larger size.\<close>

lemma finished_files:
  assumes im: "holds_files C s" and i: "i < length C"
  defines "W \<equiv> finished (29 + nblks C) (img s)" and "di \<equiv> idi (img s) (Suc i)"
  shows "idi W (Suc i) = (if i = 0 then rounded di else di)" "file_is W (29 + nblks C) (C ! i) di" "fblocks W di = fblocks (img s) di"
proof -
  have l: "length C < 200" "\<forall>x. length (img s x) = 512" using im by (auto simp: holds_files_def)
  have f: "file_is (img s) (29 + nblks C) (C ! j) (idi (img s) (Suc j))" if "j < length C" for j using im that by (simp add: holds_files_def)
  have "0 < length C" using i by linarith
  then have la: "length (di_addrs (rounded (idi (img s) 1))) = NDIRECT + 1" using f [of 0] by (simp add: rounded_def file_is_def file_wf_def)
  have "idi W (Suc i) = idi (put_idi 1 (rounded (idi (img s) 1)) (img s)) (Suc i)" unfolding W_def finished_def
    by (rule idi_cong) (use l i in auto)
  then show "idi W (Suc i) = (if i = 0 then rounded di else di)" using idi_put [OF _ _ la l(2), of 1 "Suc i"] l i by (simp add: di_def)
  have same: "\<forall>k \<in> fblocks (img s) di. W k = img s k"
  proof
    fix k assume "k \<in> fblocks (img s) di"
    then have "29 \<le> unat k" using f [OF i] by (auto simp: file_is_def di_def)
    moreover from this have "k \<noteq> 28" by auto
    ultimately show "W k = img s k" using put_idi_other [of 1 k] by (simp add: W_def finished_def)
  qed
  show "file_is W (29 + nblks C) (C ! i) di" using file_is_cong [OF same f [OF i, folded di_def] order_refl] .
  show "fblocks W di = fblocks (img s) di" by (rule file_cong(2) [OF same])
qed

lemma length_de_pack: "length (de_pack n i) = 16"
  by (simp add: de_pack_def DIRSIZ_def)

lemma length_root_bytes: "length (root_bytes ns) = 16 * (length ns + 2)"
  by (induction ns rule: rev_induct) (simp_all add: root_bytes_snoc length_de_pack, simp add: root_bytes_def length_de_pack)

lemma rounded_size:
  assumes f: "file_is W fb c di"
  shows "unat (di_size di) = length (snd c)" "unat (di_size (rounded di)) = 512 * (length (snd c) div 512 + 1)"
proof -
  have "length (contents W di) = length (snd c)" using f by (simp add: file_is_def)
  then show u: "unat (di_size di) = length (snd c)" by (simp add: contents_def)
  have "unat (di_size di) \<le> MAXFILE * 512" using f by (simp add: file_is_def file_wf_def)
  then have "512 * (length (snd c) div 512 + 1) < 2 ^ 32" using div_mult_mod_eq [of "length (snd c)" 512] u
    by (simp add: MAXFILE_def NDIRECT_def NINDIRECT_def)
  moreover have "unat (di_size (rounded di)) = 512 * (length (snd c) div 512 + 1) mod 2 ^ 32"
    by (simp add: rounded_def unat_word_ariths unat_div u mod_simps) (simp only: add.commute mult.commute)
  ultimately show "unat (di_size (rounded di)) = 512 * (length (snd c) div 512 + 1)" by simp
qed

lemma cdiv_up: "x mod 512 \<noteq> 0 \<Longrightarrow> cdiv x = Suc (x div 512)"
proof -
  assume "x mod 512 \<noteq> 0"
  then have "512 * Suc (x div 512) \<le> x + 511" "x + 511 < 512 * Suc (Suc (x div 512))"
    using div_mult_mod_eq [of x 512] mod_less_divisor [of 512 x, OF zero_less_numeral] unfolding mult_Suc_right by linarith+
  then show ?thesis by (rule div_nat_eqI)
qed

lemma rounded_full:
  assumes f: "file_is W fb c di" and m: "length (snd c) mod 512 \<noteq> 0"
  shows "file_wf W (rounded di)" "contents W (rounded di) = snd c @ replicate (512 - length (snd c) mod 512) 0"
proof -
  let ?L = "length (snd c)" and ?S = "unat (di_size (rounded di))"
  note u = rounded_size [OF f]
  have b: "blkno W (rounded di) = blkno W di" "fblocks W (rounded di) = fblocks W di" "fbyte W (rounded di) = fbyte W di"
    by (simp_all add: rounded_def size_irrelevant)
  have w: "file_wf W di" and up: "blocks_to (Suc (?L div 512)) W di" and tz: "tailz ?L W di" using f cdiv_up [OF m] by (auto simp: file_is_def)
  have "?L \<le> MAXFILE * 512" using w u by (simp add: file_wf_def)
  then have M: "?L div 512 < MAXFILE" using m by (metis div_less_iff_less_mult le_neq_implies_less mod_mult_self2_is_0 zero_less_numeral)
  have hb: "j div 512 < MAXFILE \<and> blkno W di (j div 512) \<noteq> 0" if "j < ?S" for j
  proof -
    have "j < Suc (?L div 512) * 512" using that u(2) by simp
    then have "j div 512 < Suc (?L div 512)" by (simp add: div_less_iff_less_mult)
    then show ?thesis using up M by (simp add: blocks_to_def)
  qed
  have "?S \<le> MAXFILE * 512" using mult_le_mono2 [of "Suc (?L div 512)" MAXFILE 512] M u(2) by simp
  moreover have "fslot W (rounded di) = fslot W di" by (simp add: fun_eq_iff fslot_def rounded_def size_irrelevant)
  ultimately show "file_wf W (rounded di)" using w hb unfolding file_wf_def b by (simp add: rounded_def)
  have S: "?S = ?L + (512 - ?L mod 512)"
  proof -
    have "512 * (q + 1) = l + (512 - r)" if "q * 512 + r = l" "r < 512" for q r l :: nat using that by simp
    from this [OF div_mult_mod_eq] show ?thesis using u(2) by simp
  qed
  have "map (fbyte W di) [?L..<?S] = replicate (512 - ?L mod 512) 0"
    using tz hb S by (intro nth_equalityI) (auto simp: tailz_def)
  moreover have "map (fbyte W di) [0..<?L] = snd c" using f u(1) by (simp add: file_is_def contents_def)
  moreover have "[0..<?S] = [0..<?L] @ [?L..<?S]" unfolding S by (rule upt_add_eq_append [OF le0])
  ultimately show "contents W (rounded di) = snd c @ replicate (512 - ?L mod 512) 0" by (simp add: contents_def b)
qed

lemma rounded_hole:
  assumes f: "file_is W fb c di" and m: "length (snd c) mod 512 = 0" "length (snd c) < MAXFILE * 512"
  shows "blkno W (rounded di) (length (snd c) div 512) = 0"
proof -
  have "cdiv (length (snd c)) = length (snd c) div 512" using m(1) by (auto elim!: dvdE simp: dvd_eq_mod_eq_0 [symmetric])
  moreover have "length (snd c) div 512 < MAXFILE" using m by (simp add: div_less_iff_less_mult)
  ultimately show ?thesis using f by (auto simp: file_is_def blocks_to_def rounded_def size_irrelevant)
qed

text \<open>Inode \<open>i\<close> of an image is a linked file of type \<open>ty\<close> with the bytes \<open>bs\<close>, in blocks the bitmap marks as used.\<close>

definition stored :: "dimg \<Rightarrow> nat \<Rightarrow> ushort \<Rightarrow> byte list \<Rightarrow> bool" where
  "stored W i ty bs \<longleftrightarrow> di_type (idi W i) = ty \<and> di_nlink (idi W i) = 1 \<and> file_wf W (idi W i) \<and> contents W (idi W i) = bs
     \<and> (\<forall>x \<in> fblocks W (idi W i). unat x < nblk W \<and> used W (unat x))"

lemma stored_file:
  assumes im: "holds_files C s" and i: "i < length C"
  defines "W \<equiv> finished (29 + nblks C) (img s)"
  shows "i \<noteq> 0 \<Longrightarrow> stored W (Suc i) (fst (C ! i)) (snd (C ! i))"
    "i = 0 \<Longrightarrow> length (snd (C ! 0)) mod 512 \<noteq> 0
       \<Longrightarrow> stored W 1 (fst (C ! 0)) (snd (C ! 0) @ replicate (512 - length (snd (C ! 0)) mod 512) 0)"
proof -
  note F = finished_files [OF im i, folded W_def] and U = finished_used [OF im, folded W_def]
  let ?d = "idi (img s) (Suc i)"
  have "29 + nblks C \<le> 1024" using im by (simp add: holds_files_def)
  then have u: "\<forall>x \<in> fblocks W ?d. unat x < nblk W \<and> used W (unat x)" using F(2) unfolding U(1) file_is_def by (auto simp: U(3))
  show "stored W (Suc i) (fst (C ! i)) (snd (C ! i))" if "i \<noteq> 0" using that F u by (simp add: stored_def file_is_def)
  show "stored W 1 (fst (C ! 0)) (snd (C ! 0) @ replicate (512 - length (snd (C ! 0)) mod 512) 0)" if "i = 0" "length (snd (C ! 0)) mod 512 \<noteq> 0"
  proof -
    have f: "file_is W (29 + nblks C) (C ! 0) ?d" "idi W 1 = rounded ?d" using F that(1) by auto
    then show ?thesis using rounded_full [OF f(1) that(2)] u unfolding stored_def f(2)
      by (simp add: rounded_def size_irrelevant file_is_def)
  qed
qed

lemma finished_disjoint:
  assumes im: "holds_files C s" and ij: "i < length C" "j < length C" "i \<noteq> j"
  defines "W \<equiv> finished (29 + nblks C) (img s)"
  shows "fblocks W (idi W (Suc i)) \<inter> fblocks W (idi W (Suc j)) = {}"
proof -
  have "fblocks W (idi W (Suc k)) = fblocks (img s) (idi (img s) (Suc k))" if "k < length C" for k
    using finished_files [OF im that, folded W_def] by (auto simp: rounded_def size_irrelevant)
  then show ?thesis using im ij by (simp add: holds_files_def)
qed


text \<open>One file \<^verbatim>\<open>fs/cat\<close>, read in two pieces.\<close>

lemma mkfs_example: "fits (mkfs_files [([102, 115, 47, 99, 97, 116], [[1, 2], [3]])])" "nblks (mkfs_files [([102, 115, 47, 99, 97, 116], [[1, 2], [3]])]) = 2"
  by (simp_all add: fits_def mkfs_files_def nblks_def nslots_def length_root_bytes MAXFILE_def NDIRECT_def NINDIRECT_def)


text \<open>
  C29. When the root directory fills whole blocks exactly (30 files, for example), \<^verbatim>\<open>mkfs\<close> still adds a block to its size but none to
  the file: the last block of the root directory has address zero, so the directory is not a well-formed file.
\<close>

theorem mkfs_root_hole:
  assumes "fits (mkfs_files args)" "\<forall>(n, ds) \<in> set args. 47 \<notin> set (strip_fs n)" "(length args + 2) mod 32 = 0"
  shows "\<exists>t. mkfs_main (map (\<lambda>(n, ds). (n, Some ds)) args) mkfs_init = Ok () t
      \<and> unat (di_size (idi (img t) 1)) = 512 * ((length args + 2) div 32 + 1)
      \<and> blkno (img t) (idi (img t) 1) ((length args + 2) div 32) = 0 \<and> \<not> file_wf (img t) (idi (img t) 1)"
proof -
  let ?C = "mkfs_files args" and ?R = "root_bytes (map fst args)" and ?k = "(length args + 2) div 32"
  obtain s t where st: "holds_files ?C s" "img t = finished (29 + nblks ?C) (img s)" "nsec t = 1024"
    "mkfs_main (map (\<lambda>(n, ds). (n, Some ds)) args) mkfs_init = Ok () t" by (rule mkfs_main_law [OF assms(1,2)])
  have R: "snd (?C ! 0) = ?R" "length ?R = 16 * (length args + 2)" "0 < length ?C" by (simp_all add: mkfs_files_def length_root_bytes)
  have F: "file_is (img t) (29 + nblks ?C) (?C ! 0) (idi (img s) 1)" "idi (img t) 1 = rounded (idi (img s) 1)"
    using finished_files(1,2) [OF st(1) R(3)] st(2) by simp_all
  have k: "length ?R = 512 * ?k" using assms(3) R(2) by (auto simp: dvd_eq_mod_eq_0 [symmetric])
  have "length args < 199" using assms(1) by (simp add: fits_def)
  then have "length ?R < MAXFILE * 512" using R(2) by (simp add: MAXFILE_def NDIRECT_def NINDIRECT_def)
  then have b: "blkno (img t) (idi (img t) 1) ?k = 0" using rounded_hole [OF F(1)] unfolding F(2) R(1) k by simp
  moreover have sz: "unat (di_size (idi (img t) 1)) = 512 * (?k + 1)" using rounded_size(2) [OF F(1)] unfolding F(2) R(1) k by simp
  moreover have "\<not> file_wf (img t) (idi (img t) 1)"
  proof
    assume "file_wf (img t) (idi (img t) 1)"
    then have "\<forall>j < 512 * (?k + 1). blkno (img t) (idi (img t) 1) (j div 512) \<noteq> 0" unfolding file_wf_def sz by blast
    from this [rule_format, of "512 * ?k"] show False using b by simp
  qed
  ultimately show ?thesis using st(4) by blast
qed

theorem mkfs_root_hole_witness:
  "\<exists>t. mkfs_main (replicate 30 ([97], Some [])) mkfs_init = Ok () t \<and> unat (di_size (idi (img t) 1)) = 1024
     \<and> blkno (img t) (idi (img t) 1) 1 = 0"
proof -
  let ?a = "replicate 30 ([97], []) :: (byte list \<times> byte list list) list"
  have "fits (mkfs_files ?a)"
    by (simp add: fits_def mkfs_files_def nblks_def nslots_def length_root_bytes MAXFILE_def NDIRECT_def NINDIRECT_def sum_list_replicate)
  moreover have "\<forall>(n, ds) \<in> set ?a. 47 \<notin> set (strip_fs n)" by (simp add: strip_fs_def)
  ultimately show ?thesis using mkfs_root_hole [of ?a] by auto
qed

text \<open>
  C30. \<^verbatim>\<open>mkfs\<close> marks exactly the blocks it handed out, from block 0 on; the log blocks 1014 to 1023 at the end of the image stay free
  in the bitmap. So the image lacks the geometry under which the kernel's block allocator keeps off the log.
\<close>

theorem mkfs_log_not_reserved:
  assumes "fits (mkfs_files args)" "\<forall>(n, ds) \<in> set args. 47 \<notin> set (strip_fs n)" "29 + nblks (mkfs_files args) \<le> 1014"
  shows "\<exists>t. mkfs_main (map (\<lambda>(n, ds). (n, Some ds)) args) mkfs_init = Ok () t \<and> nblk (img t) = 1024
      \<and> (\<forall>b < 1024. used (img t) b \<longleftrightarrow> b < 29 + nblks (mkfs_files args)) \<and> \<not> fs_geom 1014 (img t)"
proof -
  let ?C = "mkfs_files args"
  obtain s t where st: "holds_files ?C s" "img t = finished (29 + nblks ?C) (img s)" "nsec t = 1024"
    "mkfs_main (map (\<lambda>(n, ds). (n, Some ds)) args) mkfs_init = Ok () t" by (rule mkfs_main_law [OF assms(1,2)])
  note U = finished_used(1,3) [OF st(1), folded st(2)]
  have "\<not> used (img t) 1014" using U(2) [of 1014] assms(3) by simp
  then have "\<not> fs_geom 1014 (img t)" unfolding fs_geom_def U(1) by (auto intro!: exI [of _ 1014])
  then show ?thesis using st(4) U by blast
qed

theorem mkfs_log_not_reserved_witness:
  "\<exists>t. mkfs_main [([102, 115, 47, 99, 97, 116], Some [[1, 2], [3]])] mkfs_init = Ok () t \<and> \<not> used (img t) 1014 \<and> \<not> fs_geom 1014 (img t)"
proof -
  let ?a = "[([102, 115, 47, 99, 97, 116], [[1, 2], [3]])] :: (byte list \<times> byte list list) list"
  have s: "\<forall>(n, ds) \<in> set ?a. 47 \<notin> set (strip_fs n)" "29 + nblks (mkfs_files ?a) \<le> 1014" by (simp_all add: strip_fs_def mkfs_example(2))
  have m: "map (\<lambda>(n, ds). (n, Some ds)) ?a = [([102, 115, 47, 99, 97, 116], Some [[1, 2], [3]])]" by simp
  obtain t where t: "mkfs_main (map (\<lambda>(n, ds). (n, Some ds)) ?a) mkfs_init = Ok () t" "\<not> fs_geom 1014 (img t)"
    "\<forall>b < 1024. used (img t) b \<longleftrightarrow> b < 29 + nblks (mkfs_files ?a)"
    using mkfs_log_not_reserved [OF mkfs_example(1) s] by blast
  have "\<not> used (img t) 1014" using t(3) [rule_format, of 1014] by (simp add: mkfs_example(2))
  then show ?thesis using t(1,2) unfolding m by blast
qed

end
