(* ===== verification/Spec2Isabelle.thy ===== *)
theory Spec2Isabelle
  imports Boot Ide Filedata Mkimage
begin

text \<open>
  A verification development for the xv6 kernel, its user programs and its image builder, in the 64-bit
  build (\<^verbatim>\<open>X64\<close> set, as \<^verbatim>\<open>Makefile\<close> does by default).

  \<^bold>\<open>The program and its parts.\<close> The kernel runs on several processors that share memory under spin
  locks. Pages come from one free list. Processes live in a table of 64 slots; they give up the processor in
  \<^verbatim>\<open>sched\<close> and are found again by the scheduler of some processor. A disk of 512-byte sectors is seen through a
  buffer cache, above which a write-ahead log makes groups of block writes atomic; inodes, directories
  and path names are built on the log, and files, pipes and the console on those. System calls fetch their
  arguments from the trap frame and from user memory, reached through four levels of page tables.

  \<^bold>\<open>How code becomes a definition.\<close> A kernel routine is a function from the state to an outcome
  (\<open>Prelude\<close>): \<open>Ok\<close> with a result and a state, \<open>Panic\<close> with the message of \<^verbatim>\<open>panic\<close>, \<open>Swtch\<close> with the
  state in which the process gives up its processor, or \<open>Spin\<close> when it runs for ever. What C leaves undefined is a
  \<open>Panic\<close> whose message starts with \<open>undefined\<close>, and a page fault of the kernel on user memory is the panic \<open>trap\<close>.
  Loops are \<open>forK\<close>, \<open>findK\<close> and \<open>loopK\<close>; the last one needs no fuel, a loop that does not end is \<open>Spin\<close>. A routine
  that sleeps is cut at the sleep, the rest being a definition of its own (\<open>begin_loop\<close>, \<open>ilock_loop\<close>,
  \<open>pipewrite_loop\<close>, \<open>piperead_loop\<close>, \<open>wait_loop\<close>, \<open>scheduler_resume\<close>, \<open>\<dots>\<close>). The state is one record,
  extended theory by theory; a routine is typed with the part of it that it uses. Memory is a function from 64-bit
  addresses to bytes; C integers are words of their width. What a device answers is an arbitrary stream.

  \<^bold>\<open>Theories, in the order of the code.\<close>
  \<^item> \<open>Prelude\<close>: outcomes, weakest preconditions, rules for the loops, ring-buffer indices, words.
  \<^item> \<open>Cstring\<close>: \<^verbatim>\<open>kernel/string.c\<close> on memory. \<open>Layout\<close>: C objects in byte lists (disk blocks, headers).
  \<^item> \<open>Spinlock\<close>: \<^verbatim>\<open>kernel/spinlock.c\<close> on one processor, and the interleaving of its instructions on many
    (\<open>lock_step\<close>). Shown: mutual exclusion, balanced \<^verbatim>\<open>pushcli\<close>/\<^verbatim>\<open>popcli\<close>.
  \<^item> \<open>Kalloc\<close>: \<^verbatim>\<open>kernel/kalloc.c\<close>. Shown: it refines a stack of pages; \<^verbatim>\<open>freerange\<close> frees the whole pages of its range.
  \<^item> \<open>Sched\<close>: the process table, \<^verbatim>\<open>sleep\<close>, \<^verbatim>\<open>wakeup\<close>, \<^verbatim>\<open>kill\<close>, \<^verbatim>\<open>sched\<close> of \<^verbatim>\<open>kernel/proc.c\<close>, and the locale \<open>monitor\<close>:
    data under a lock, a condition to wait for and the steps of the sleepers and wakers, interleaved. Shown: no wakeup is
    lost; what \<^verbatim>\<open>sleep\<close> leaves behind; \<^verbatim>\<open>kill\<close>.
  \<^item> \<open>Bio\<close>: \<^verbatim>\<open>kernel/bio.c\<close> and \<^verbatim>\<open>kernel/memide.c\<close>; locale \<open>sector_store\<close> is what the log relies on. Shown: reads return
    the sector, a write changes one sector, the cache is least-recently-used.
  \<^item> \<open>Log\<close>: \<^verbatim>\<open>kernel/log.c\<close>; locale \<open>block_store\<close> is what the file system relies on. Shown: a transaction is
    atomic under a stop at any sector write, and nobody waits for a free log.
  \<^item> \<open>Devices\<close>, \<open>Console\<close>, \<open>Smp\<close>: port and memory-mapped I/O, \<^verbatim>\<open>uart.c\<close>, \<^verbatim>\<open>kbd.c\<close>, \<^verbatim>\<open>picirq.c\<close>, \<^verbatim>\<open>ioapic.c\<close>, \<^verbatim>\<open>lapic.c\<close>,
    \<^verbatim>\<open>timer.c\<close>; \<^verbatim>\<open>console.c\<close>; \<^verbatim>\<open>mp.c\<close> and \<^verbatim>\<open>acpi.c\<close>. Shown: printed numbers, the cursor and video memory, the input line
    discipline.
  \<^item> \<open>Vm\<close>, \<open>Aspace\<close>: \<^verbatim>\<open>kernel/vm.c\<close> and \<^verbatim>\<open>kernel/vm64.c\<close>, and address spaces as maps from page numbers to
    entries, with the table walk of the processor. Shown: \<^verbatim>\<open>mappages\<close>, growing and shrinking, what \<^verbatim>\<open>freevm\<close> gives back.
  \<^item> \<open>Inode\<close>, \<open>Dir\<close>, \<open>Fsdata\<close>: \<^verbatim>\<open>kernel/fs.c\<close>, and what its routines do to the blocks of a running transaction. Shown:
    the bitmap is a set of block numbers for \<^verbatim>\<open>balloc\<close> and \<^verbatim>\<open>bfree\<close>.
  \<^item> \<open>Pipe\<close>, \<open>File\<close>: \<^verbatim>\<open>kernel/pipe.c\<close> and \<^verbatim>\<open>kernel/file.c\<close>; locale \<open>byte_queue\<close> is the ring buffer. Shown: a pipe is
    first-in first-out in every interleaving, who can wait at it in vain, and that slots and pages are given back.
  \<^item> \<open>Process\<close>, \<open>Exec\<close>, \<open>Sysfile\<close>, \<open>Trap\<close>, \<open>Boot\<close>: process life cycle and scheduler, \<^verbatim>\<open>kernel/exec.c\<close>,
    \<^verbatim>\<open>kernel/sysfile.c\<close>, \<^verbatim>\<open>kernel/sysproc.c\<close>, \<^verbatim>\<open>kernel/syscall.c\<close>, \<^verbatim>\<open>kernel/trap.c\<close>, \<^verbatim>\<open>kernel/main.c\<close>.
  \<^item> \<open>Ide\<close>: \<^verbatim>\<open>kernel/ide.c\<close>, the driver of a real disk.

  \<^bold>\<open>Locales and their interpretations.\<close> \<open>monitor\<close> is interpreted for the log (\<open>lgm\<close>) and for the two sides of a pipe
  (\<open>prm\<close>, \<open>pwm\<close>); \<open>sector_store\<close> for the buffer cache (\<open>bc\<close>); \<open>block_store\<close> for the log (\<open>lg\<close>); \<open>byte_queue\<close> for the
  ring buffer of a pipe (\<open>pq\<close>); the contract of the page allocator for \<^verbatim>\<open>kalloc\<close> and \<^verbatim>\<open>kfree\<close>.

  \<^bold>\<open>Not modelled.\<close> Assembly (boot sector, entry code, trap entry, \<^verbatim>\<open>swtch\<close>): a trap frame is an argument of
  \<open>trap\<close>, and \<^verbatim>\<open>swtch\<close> is the outcome \<open>Swtch\<close>. The 32-bit variants, which the 64-bit build does not compile.
  Delays (\<^verbatim>\<open>microdelay\<close> and busy waiting on a device return when the device answers). Weak memory ordering.
  The array of return addresses in a lock, debugging output only.
\<close>

end
